(* ===== verification/Prelude.thy ===== *)
theory Prelude
  imports Main "HOL-Library.Word"
begin

text \<open>
  Shared vocabulary of the development: the fixed-width integer types of
  \<^verbatim>\<open>core/types.hpp\<close>, the power-of-two and masking facts that the ring buffers, the
  timer wheel, the arena and the frame codec rest on, memory copies on byte lists,
  little-endian images of machine words, and reachability with the one locale through
  which every interleaving proof of the development establishes its invariant.
\<close>

unbundle bit_operations_syntax

section \<open>Machine integers\<close>

type_synonym u8 = "8 word"
type_synonym u16 = "16 word"
type_synonym u32 = "32 word"
type_synonym u64 = "64 word"

text \<open>A \<^verbatim>\<open>size_t\<close> is a 64-bit unsigned integer on every platform the build supports.\<close>

type_synonym size_t = "64 word"

named_theorems unat_simps \<open>transport of word operations to natural numbers\<close>
named_theorems mem_simps \<open>memory copies on byte lists\<close>

section \<open>Masks and powers of two\<close>

lemma unat_and_mask:
  fixes x :: "'a::len word"
  shows "unat (x AND mask k) = unat x mod 2 ^ k"
  by (simp only: flip: take_bit_eq_mask) (simp only: unsigned_take_bit_eq take_bit_nat_def)

lemma mask_eq_pow2_minus_1:
  "(2 ^ k - 1 :: 'a::len word) = mask k"
  by (simp add: mask_eq_exp_minus_1)

lemma unat_and_pow2_minus_1 [unat_simps]:
  fixes x :: "'a::len word"
  shows "unat (x AND (2 ^ k - 1)) = unat x mod 2 ^ k"
  by (simp only: mask_eq_pow2_minus_1 unat_and_mask)

lemma unat_pow2 [unat_simps]:
  assumes "k < LENGTH('a::len)"
  shows "unat (2 ^ k :: 'a word) = 2 ^ k"
proof -
  have "unat (of_nat (2 ^ k) :: 'a word) = 2 ^ k mod 2 ^ LENGTH('a)"
    by (rule unat_of_nat)
  with assms show ?thesis by simp
qed

lemma unat_u32_less: "unat (w :: u32) < 4294967296"
proof -
  have "unat w < 2 ^ LENGTH(32)" by (rule unsigned_less)
  then show ?thesis by simp
qed

lemma unat_u64_less: "unat (w :: u64) < 18446744073709551616"
proof -
  have "unat w < 2 ^ LENGTH(64)" by (rule unsigned_less)
  then show ?thesis by simp
qed

lemma nat_and_pred_0:
  fixes n :: nat
  assumes "0 < n" and "n AND (n - 1) = 0"
  shows "\<exists>k. n = 2 ^ k"
  using assms
proof (induction n rule: less_induct)
  case (less n)
  show ?case
  proof (cases "odd n")
    case True
    then obtain m where m: "n = 2 * m + 1" by (auto elim: oddE)
    have "n AND (n - 1) = 2 * m"
      by (simp add: m and_nat_rec [of "Suc (2 * m)"])
    with less.prems have "n = 2 ^ 0" by (simp add: m)
    then show ?thesis ..
  next
    case False
    then obtain m where m: "n = 2 * m" by (auto elim: evenE)
    with less.prems(1) have pos: "0 < m" by simp
    then obtain l where l: "m = Suc l" by (cases m) auto
    have "n - 1 = 2 * l + 1" by (simp add: m l)
    then have "n AND (n - 1) = 2 * (m AND l)"
      by (simp add: m and_nat_rec [of "2 * m"])
    with less.prems(2) have "m AND (m - 1) = 0" by (simp add: l)
    moreover have "m < n" using pos by (simp add: m)
    ultimately obtain k where "m = 2 ^ k" using less.IH pos by blast
    then have "n = 2 ^ Suc k" by (simp add: m)
    then show ?thesis ..
  qed
qed

text \<open>
  The test \<^verbatim>\<open>(c & (c - 1)) == 0\<close> of the queue capacities, the deque array and the
  arena's alignment assertion accepts exactly the powers of two.
\<close>

definition is_pow2 :: "'a::len word \<Rightarrow> bool" where
  "is_pow2 c \<longleftrightarrow> c \<noteq> 0 \<and> c AND (c - 1) = 0"

lemma is_pow2_iff:
  fixes c :: "'a::len word"
  shows "is_pow2 c \<longleftrightarrow> (\<exists>k < LENGTH('a). c = 2 ^ k)"
proof
  assume "is_pow2 c"
  then have nz: "c \<noteq> 0" and and0: "c AND (c - 1) = 0" by (auto simp: is_pow2_def)
  have "unat (c - 1) = unat c - 1" using nz by (simp add: unat_minus_one)
  with and0 have "unat c AND (unat c - 1) = 0"
    by (metis unsigned_0 unsigned_and_eq)
  moreover have "0 < unat c" using nz by (simp add: word_neq_0_conv unat_gt_0)
  ultimately obtain k where k: "unat c = 2 ^ k" using nat_and_pred_0 by blast
  have "unat c < 2 ^ LENGTH('a)" by (rule unsigned_less)
  then have "(2::nat) ^ k < 2 ^ LENGTH('a)" by (simp only: k)
  then have lt: "k < LENGTH('a)" by simp
  have "c = of_nat (unat c)" by simp
  then have "c = 2 ^ k" by (simp only: k of_nat_power of_nat_numeral)
  with lt show "\<exists>k < LENGTH('a). c = 2 ^ k" by blast
next
  assume "\<exists>k < LENGTH('a). c = 2 ^ k"
  then obtain k where lt: "k < LENGTH('a)" and c: "c = 2 ^ k" by blast
  have unat_c: "unat c = 2 ^ k" using lt by (simp add: c unat_pow2)
  then have nz: "c \<noteq> 0" by auto
  have "unat (c AND (c - 1)) = unat c mod 2 ^ k" unfolding c by (rule unat_and_pow2_minus_1)
  then have "unat (c AND (c - 1)) = 0" by (simp add: unat_c)
  with nz show "is_pow2 c" by (simp add: is_pow2_def unat_eq_zero)
qed

section \<open>Rounding up to an alignment\<close>

text \<open>
  The expression \<^verbatim>\<open>(value + alignment - 1) & ~(alignment - 1)\<close> occurs in the frame
  layout, in the arena and in the huge-page mapping. It is kept at 64 bits, so it wraps.
\<close>

definition align_up :: "size_t \<Rightarrow> size_t \<Rightarrow> size_t" where
  "align_up value alignment = (value + alignment - 1) AND NOT (alignment - 1)"

definition round_up :: "nat \<Rightarrow> nat \<Rightarrow> nat" where
  "round_up n a = (n + a - 1) div a * a"

lemma unat_and_not_mask:
  fixes x :: "'a::len word"
  shows "unat (x AND NOT (mask k)) = unat x div 2 ^ k * 2 ^ k"
proof -
  have "(x AND NOT (mask k)) AND (x AND mask k) = 0"
    by (simp add: bit_eq_iff bit_simps)
  then have "(x AND NOT (mask k)) + (x AND mask k) = (x AND NOT (mask k)) OR (x AND mask k)"
    by (rule disjunctive_add_eq_or)
  also have "\<dots> = x" by (auto simp: bit_eq_iff bit_simps)
  finally have "x AND NOT (mask k) = x - (x AND mask k)"
    by (simp add: eq_diff_eq)
  moreover have "x AND mask k \<le> x"
    by (rule word_and_le2)
  ultimately have "unat (x AND NOT (mask k)) = unat x - unat x mod 2 ^ k"
    by (simp add: unat_sub unat_and_mask)
  then show ?thesis by (simp add: minus_mod_eq_div_mult)
qed

lemma round_up_ge:
  assumes "0 < a"
  shows "n \<le> round_up n a"
proof -
  have "(n + a - 1) mod a < a" using assms by simp
  moreover have "(n + a - 1) div a * a + (n + a - 1) mod a = n + a - 1" by (rule div_mult_mod_eq)
  ultimately show ?thesis using assms unfolding round_up_def by linarith
qed

lemma round_up_less:
  assumes "0 < a"
  shows "round_up n a < n + a"
proof -
  have "(n + a - 1) div a * a \<le> n + a - 1" by (rule div_times_less_eq_dividend)
  with assms show ?thesis unfolding round_up_def by linarith
qed

lemma round_up_dvd: "a dvd round_up n a"
  by (simp add: round_up_def)

lemma unat_align_up:
  assumes "k < 64" and "unat v + 2 ^ k \<le> 2 ^ 64"
  shows "unat (align_up v (2 ^ k)) = round_up (unat v) (2 ^ k)"
proof -
  have "unat (2 ^ k - 1 :: size_t) = 2 ^ k - 1"
    using assms(1) by (simp add: unat_minus_one unat_pow2)
  then have "unat (v + (2 ^ k - 1)) = unat v + (2 ^ k - 1)"
    using assms(2) by (simp add: unat_plus_if')
  then have "unat (v + 2 ^ k - 1) = unat v + 2 ^ k - 1"
    by (simp add: add_diff_eq)
  then show ?thesis
    by (simp add: align_up_def round_up_def mask_eq_pow2_minus_1 unat_and_not_mask)
qed

section \<open>Memory copies\<close>

text \<open>
  \<^verbatim>\<open>std::memcpy(dst + off, src, n)\<close> on the bytes of \<open>dst\<close>; the callers check that the
  copy fits, and the lemmas below carry that check as a hypothesis.
\<close>

definition blit :: "nat \<Rightarrow> 'a list \<Rightarrow> 'a list \<Rightarrow> 'a list" where
  "blit off src dst = take off dst @ src @ drop (off + length src) dst"

lemma length_blit [simp, mem_simps]:
  "off + length src \<le> length dst \<Longrightarrow> length (blit off src dst) = length dst"
  by (simp add: blit_def)

lemma take_blit_below [mem_simps]:
  "n \<le> off \<Longrightarrow> off \<le> length dst \<Longrightarrow> take n (blit off src dst) = take n dst"
  by (simp add: blit_def min_def)

lemma drop_blit_above [mem_simps]:
  "off + length src \<le> n \<Longrightarrow> off \<le> length dst \<Longrightarrow> drop n (blit off src dst) = drop n dst"
  by (simp add: blit_def)

lemma take_blit_end [mem_simps]:
  "off \<le> length dst \<Longrightarrow> take (off + length src) (blit off src dst) = take off dst @ src"
  by (simp add: blit_def)

lemma blit_Nil [simp, mem_simps]: "blit off [] dst = dst"
  by (simp add: blit_def)

lemma blit_append [mem_simps]:
  "off = length a \<Longrightarrow> blit off src (a @ b) = a @ src @ drop (length src) b"
  by (simp add: blit_def)

lemma nth_blit:
  assumes "off + length src \<le> length dst"
  shows "blit off src dst ! i =
    (if off \<le> i \<and> i < off + length src then src ! (i - off) else dst ! i)"
  using assms by (auto simp: blit_def nth_append not_less add.commute)

section \<open>Little-endian images\<close>

text \<open>
  The codec copies structs with \<^verbatim>\<open>memcpy\<close>, so the wire holds the native image of each
  field: little-endian on the two architectures named in \<^verbatim>\<open>core/platform.hpp\<close>.
\<close>

definition le_bytes :: "nat \<Rightarrow> 'a::len word \<Rightarrow> u8 list" where
  "le_bytes n w = map (\<lambda>i. ucast (drop_bit (8 * i) w)) [0..<n]"

fun le_word :: "u8 list \<Rightarrow> 'a::len word" where
  "le_word [] = 0"
| "le_word (b # bs) = ucast b OR push_bit 8 (le_word bs)"

lemma length_le_bytes [simp, mem_simps]: "length (le_bytes n w) = n"
  by (simp add: le_bytes_def)

lemma bit_le_word:
  "bit (le_word bs :: 'a::len word) i \<longleftrightarrow>
    i < LENGTH('a) \<and> i div 8 < length bs \<and> bit (bs ! (i div 8)) (i mod 8)"
proof (induction bs arbitrary: i)
  case Nil
  then show ?case by simp
next
  case (Cons b bs)
  show ?case
  proof (cases "i < 8")
    case True
    then show ?thesis by (auto simp: bit_simps)
  next
    case False
    then obtain j where j: "i = 8 + j" by (metis le_Suc_ex not_less)
    have "\<not> bit b i" using False by (simp add: bit_imp_le_length linorder_not_less impossible_bit)
    moreover have "(8 + j) div 8 = Suc (j div 8)" by simp
    ultimately show ?thesis
      by (auto simp: j bit_simps Cons.IH)
  qed
qed

lemma le_word_le_bytes [simp, mem_simps]:
  fixes w :: "'a::len word"
  assumes "LENGTH('a) = 8 * n"
  shows "le_word (le_bytes n w) = w"
proof (rule bit_word_eqI)
  fix i
  assume i: "i < LENGTH('a)"
  with assms have "i div 8 < n" by (simp add: less_mult_imp_div_less mult.commute)
  then show "bit (le_word (le_bytes n w) :: 'a word) i = bit w i"
    using i by (simp add: bit_le_word le_bytes_def bit_simps)
qed

lemma le_bytes_le_word:
  assumes "LENGTH('a::len) = 8 * n" and "length bs = n"
  shows "le_bytes n (le_word bs :: 'a word) = bs"
proof (rule nth_equalityI)
  show "length (le_bytes n (le_word bs :: 'a word)) = length bs" by (simp add: assms(2))
next
  fix i
  assume "i < length (le_bytes n (le_word bs :: 'a word))"
  then have i: "i < n" by simp
  show "le_bytes n (le_word bs :: 'a word) ! i = bs ! i"
  proof (rule bit_word_eqI)
    fix j
    assume j: "j < LENGTH(8)"
    with i assms show "bit (le_bytes n (le_word bs :: 'a word) ! i) j = bit (bs ! i) j"
      by (simp add: le_bytes_def bit_simps bit_le_word)
  qed
qed

section \<open>Reachable states and invariants\<close>

text \<open>
  The concurrent components are step relations: one rule per atomic action of a thread, any
  thread may take the next step. \<open>reach\<close> is the set of states such a system visits.
\<close>

inductive reach :: "('s \<Rightarrow> bool) \<Rightarrow> ('s \<Rightarrow> 's \<Rightarrow> bool) \<Rightarrow> 's \<Rightarrow> bool"
  for init :: "'s \<Rightarrow> bool" and step :: "'s \<Rightarrow> 's \<Rightarrow> bool" where
  reach_init: "init s \<Longrightarrow> reach init step s"
| reach_step: "reach init step s \<Longrightarrow> step s t \<Longrightarrow> reach init step t"

locale inductive_invariant =
  fixes init :: "'s \<Rightarrow> bool"
    and step :: "'s \<Rightarrow> 's \<Rightarrow> bool"
    and inv :: "'s \<Rightarrow> bool"
  assumes inv_init: "init s \<Longrightarrow> inv s"
    and inv_step: "inv s \<Longrightarrow> step s t \<Longrightarrow> inv t"
begin

lemma reach_inv: "reach init step s \<Longrightarrow> inv s"
  by (induction rule: reach.induct) (auto intro: inv_init inv_step)

lemma steps_inv: "step\<^sup>*\<^sup>* s t \<Longrightarrow> inv s \<Longrightarrow> inv t"
  by (induction rule: rtranclp_induct) (auto intro: inv_step)

end

text \<open>A specification whose steps the detailed steps perform or leave the abstract state alone.\<close>

locale stuttering_simulation = inductive_invariant init step inv
  for init :: "'s \<Rightarrow> bool" and step :: "'s \<Rightarrow> 's \<Rightarrow> bool" and inv :: "'s \<Rightarrow> bool" +
  fixes abs :: "'s \<Rightarrow> 'a"
    and ainit :: "'a \<Rightarrow> bool"
    and astep :: "'a \<Rightarrow> 'a \<Rightarrow> bool"
  assumes abs_init: "init s \<Longrightarrow> ainit (abs s)"
    and abs_step: "inv s \<Longrightarrow> step s t \<Longrightarrow> abs t = abs s \<or> astep (abs s) (abs t)"
begin

lemma abs_reach: "reach init step s \<Longrightarrow> reach ainit astep (abs s)"
proof (induction rule: reach.induct)
  case (reach_step s t)
  then show ?case using abs_step [OF reach_inv [OF reach_step(1)] reach_step(2)] by (auto intro: reach.reach_step)
qed (simp add: abs_init reach.reach_init)

end

text \<open>Two numbers that share a slot of a ring lie at least one turn apart.\<close>

lemma mod_gap:
  assumes "j mod c = n mod c" "j < (n :: nat)"
  shows "j + c \<le> n"
proof -
  have "c dvd n - j" using assms by (metis less_imp_le_nat mod_eq_dvd_iff_nat)
  then show ?thesis using assms(2) by (auto dest!: dvd_imp_le)
qed

end
