(* ===== verification/Wire.thy ===== *)
theory Wire
  imports Prelude
begin

text \<open>
  The framed wire protocol: the constants, the header and the size arithmetic of
  \<^verbatim>\<open>proto/wire.hpp\<close> and \<^verbatim>\<open>proto/frame.hpp\<close>. Sizes are \<^verbatim>\<open>size_t\<close>, so every sum wraps at
  64 bits; the bounds below say when it does not.
\<close>

section \<open>Constants and message types\<close>

definition MAGIC :: u32 where "MAGIC = 0x48454C31"
definition VERSION :: u16 where "VERSION = 1"
definition PAYLOAD_ALIGNMENT :: size_t where "PAYLOAD_ALIGNMENT = 8"
definition CRC_SIZE :: size_t where "CRC_SIZE = 4"

datatype MessageType = Handshake | ActorMessage | Heartbeat | RaftAppend | RaftVote | RaftSnapshot

fun message_type_code :: "MessageType \<Rightarrow> u16" where
  "message_type_code Handshake = 0x0001"
| "message_type_code ActorMessage = 0x0002"
| "message_type_code Heartbeat = 0x0003"
| "message_type_code RaftAppend = 0x0010"
| "message_type_code RaftVote = 0x0011"
| "message_type_code RaftSnapshot = 0x0012"

lemma message_type_code_inj: "message_type_code a = message_type_code b \<Longrightarrow> a = b"
  by (cases a; cases b) simp_all

section \<open>The frame header and its packed image\<close>

record FrameHeader =
  magic :: u32
  version :: u16
  type :: u16
  flags :: u16
  reserved :: u16
  payload_length :: u32
  actor_id :: u64
  message_id :: u64

text \<open>\<^verbatim>\<open>sizeof(FrameHeader)\<close>, fixed by the \<^verbatim>\<open>static_assert\<close> on the packed struct.\<close>

definition HEADER_SIZE :: size_t where "HEADER_SIZE = 32"

definition header_bytes :: "FrameHeader \<Rightarrow> u8 list" where
  "header_bytes h =
     le_bytes 4 (magic h) @ le_bytes 2 (version h) @ le_bytes 2 (type h) @
     le_bytes 2 (flags h) @ le_bytes 2 (reserved h) @ le_bytes 4 (payload_length h) @
     le_bytes 8 (actor_id h) @ le_bytes 8 (message_id h)"

text \<open>\<^verbatim>\<open>reinterpret_cast<const FrameHeader*>(buffer.data())\<close>: the fields at their packed offsets.\<close>

definition header_at :: "u8 list \<Rightarrow> FrameHeader" where
  "header_at bs =
     \<lparr> magic = le_word (take 4 bs),
       version = le_word (take 2 (drop 4 bs)),
       type = le_word (take 2 (drop 6 bs)),
       flags = le_word (take 2 (drop 8 bs)),
       reserved = le_word (take 2 (drop 10 bs)),
       payload_length = le_word (take 4 (drop 12 bs)),
       actor_id = le_word (take 8 (drop 16 bs)),
       message_id = le_word (take 8 (drop 24 bs)) \<rparr>"

lemma length_header_bytes [simp, mem_simps]: "length (header_bytes h) = 32"
  by (simp add: header_bytes_def)

lemma header_at_header_bytes [simp]: "header_at (header_bytes h @ rest) = h"
  by (simp add: header_at_def header_bytes_def)

lemma header_bytes_header_at:
  assumes "32 \<le> length bs"
  shows "header_bytes (header_at bs) = take 32 bs"
proof -
  have "take 32 bs = take (4 + (2 + (2 + (2 + (2 + (4 + (8 + 8))))))) bs" by simp
  then have "take 32 bs = take 4 bs @ take 2 (drop 4 bs) @ take 2 (drop 6 bs) @ take 2 (drop 8 bs) @
      take 2 (drop 10 bs) @ take 4 (drop 12 bs) @ take 8 (drop 16 bs) @ take 8 (drop 24 bs)"
    by (simp only: take_add drop_drop) simp
  with assms show ?thesis
    by (simp add: header_bytes_def header_at_def le_bytes_le_word)
qed

section \<open>Sizes and layout\<close>

definition payload_size_fits :: "size_t \<Rightarrow> bool" where
  "payload_size_fits payload_size \<longleftrightarrow> payload_size \<le> ucast (0xFFFFFFFF :: u32)"

definition encoded_frame_size :: "size_t \<Rightarrow> size_t" where
  "encoded_frame_size payload_size =
     HEADER_SIZE + align_up payload_size PAYLOAD_ALIGNMENT + CRC_SIZE"

record FrameLayout =
  header_size :: size_t
  payload_size :: size_t
  padded_payload_size :: size_t
  crc_offset :: size_t
  total_size :: size_t

definition layout_for_payload :: "size_t \<Rightarrow> FrameLayout" where
  "layout_for_payload n =
     (let layout = \<lparr> header_size = HEADER_SIZE, payload_size = 0, padded_payload_size = 0,
                     crc_offset = HEADER_SIZE, total_size = HEADER_SIZE + CRC_SIZE \<rparr>;
          layout = layout\<lparr>payload_size := n\<rparr>;
          layout = layout\<lparr>padded_payload_size := align_up n PAYLOAD_ALIGNMENT\<rparr>;
          layout = layout\<lparr>crc_offset := HEADER_SIZE + padded_payload_size layout\<rparr>;
          layout = layout\<lparr>total_size := crc_offset layout + CRC_SIZE\<rparr>
      in layout)"

lemma layout_fields:
  "FrameLayout.payload_size (layout_for_payload n) = n"
  "padded_payload_size (layout_for_payload n) = align_up n PAYLOAD_ALIGNMENT"
  "crc_offset (layout_for_payload n) = HEADER_SIZE + align_up n PAYLOAD_ALIGNMENT"
  "total_size (layout_for_payload n) = encoded_frame_size n"
  by (simp_all add: layout_for_payload_def encoded_frame_size_def Let_def)

lemma payload_size_fits_iff: "payload_size_fits n \<longleftrightarrow> unat n < 2 ^ 32"
proof -
  have "unat (ucast (0xFFFFFFFF :: u32) :: size_t) = 2 ^ 32 - 1" by simp
  then show ?thesis by (auto simp: payload_size_fits_def word_le_nat_alt)
qed

lemma unat_align_payload:
  assumes "unat n + 8 \<le> 2 ^ 64"
  shows "unat (align_up n PAYLOAD_ALIGNMENT) = round_up (unat n) 8"
  using unat_align_up [of 3 n] assms by (simp add: PAYLOAD_ALIGNMENT_def)

lemma round_up_8_bounds: "n \<le> round_up n 8" "round_up n 8 < n + 8"
  by (simp_all add: round_up_ge round_up_less)

text \<open>Every size the layout computes for a 32-bit payload length is exact: nothing wraps.\<close>

lemma layout_exact:
  assumes "unat n < 2 ^ 32"
  shows "unat (padded_payload_size (layout_for_payload n)) = round_up (unat n) 8"
    and "unat (crc_offset (layout_for_payload n)) = 32 + round_up (unat n) 8"
    and "unat (total_size (layout_for_payload n)) = 36 + round_up (unat n) 8"
proof -
  have r: "round_up (unat n) 8 < 2 ^ 32 + 8" using round_up_8_bounds(2) [of "unat n"] assms by simp
  show p: "unat (padded_payload_size (layout_for_payload n)) = round_up (unat n) 8"
    using unat_align_payload [of n] assms by (simp add: layout_fields)
  show c: "unat (crc_offset (layout_for_payload n)) = 32 + round_up (unat n) 8"
    using p r by (simp add: layout_fields HEADER_SIZE_def unat_plus_if')
  show "unat (total_size (layout_for_payload n)) = 36 + round_up (unat n) 8"
    using c r by (simp add: layout_fields encoded_frame_size_def CRC_SIZE_def unat_plus_if')
qed

end
