(* ===== verification/Crc.thy ===== *)
theory Crc
  imports Prelude
begin

text \<open>
  CRC-32C as \<^verbatim>\<open>proto/codec.cpp\<close> computes it: the compile-time table, the byte-at-a-time
  software loop over it, and the SSE 4.2 loop whose two instructions are parameters.
  The reference is the bit-serial register; the lemmas show both loops compute it and that the
  register update loses no information.
\<close>

section \<open>The table and the software loop\<close>

definition CRC32C_POLYNOMIAL :: u32 where "CRC32C_POLYNOMIAL = 0x82F63B78"

definition crc_bit :: "u32 \<Rightarrow> u32" where
  "crc_bit crc = (if crc AND 1 \<noteq> 0 then drop_bit 1 crc XOR CRC32C_POLYNOMIAL else drop_bit 1 crc)"

text \<open>The inner loop of the table generator, run \<open>n\<close> times.\<close>

primrec crc_bit_loop :: "nat \<Rightarrow> u32 \<Rightarrow> u32" where
  "crc_bit_loop 0 crc = crc"
| "crc_bit_loop (Suc n) crc = crc_bit_loop n (crc_bit crc)"

definition make_crc32c_table :: "u32 list" where
  "make_crc32c_table = map (\<lambda>i. crc_bit_loop 8 (of_nat i)) [0..<256]"

definition CRC32C_TABLE :: "u32 list" where
  "CRC32C_TABLE = make_crc32c_table"

definition crc_table_step :: "u32 \<Rightarrow> u8 \<Rightarrow> u32" where
  "crc_table_step crc byte =
     (let idx = ucast ((crc XOR ucast byte) AND 0xFF) :: u8
      in drop_bit 8 crc XOR CRC32C_TABLE ! unat idx)"

definition crc32c_software :: "u8 list \<Rightarrow> u32" where
  "crc32c_software data = NOT (foldl crc_table_step 0xFFFFFFFF data)"

section \<open>The SSE 4.2 loop\<close>

text \<open>
  \<open>mm_crc32_u64\<close> and \<open>mm_crc32_u8\<close> stand for the compiler intrinsics; the first loop
  eats eight bytes at a time, the second the rest.
\<close>

fun crc_sse_words :: "(u64 \<Rightarrow> u64 \<Rightarrow> u64) \<Rightarrow> u32 \<Rightarrow> u8 list \<Rightarrow> u32 \<times> u8 list" where
  "crc_sse_words mm_crc32_u64 crc p =
     (if 8 \<le> length p
      then crc_sse_words mm_crc32_u64 (ucast (mm_crc32_u64 (ucast crc) (le_word (take 8 p)))) (drop 8 p)
      else (crc, p))"

declare crc_sse_words.simps [simp del]

definition crc32c_sse :: "(u64 \<Rightarrow> u64 \<Rightarrow> u64) \<Rightarrow> (u32 \<Rightarrow> u8 \<Rightarrow> u32) \<Rightarrow> u8 list \<Rightarrow> u32" where
  "crc32c_sse mm_crc32_u64 mm_crc32_u8 data =
     (let (crc, p) = crc_sse_words mm_crc32_u64 0xFFFFFFFF data
      in NOT (foldl mm_crc32_u8 crc p))"

section \<open>The bit-serial reference\<close>

definition crc_ref_step :: "u32 \<Rightarrow> u8 \<Rightarrow> u32" where
  "crc_ref_step crc byte = crc_bit_loop 8 (crc XOR ucast byte)"

definition crc32c_ref :: "u8 list \<Rightarrow> u32" where
  "crc32c_ref data = NOT (foldl crc_ref_step 0xFFFFFFFF data)"

lemma crc_bit_odd: "crc_bit c = (if bit c 0 then drop_bit 1 c XOR CRC32C_POLYNOMIAL else drop_bit 1 c)"
  by (simp only: crc_bit_def and_one_eq mod_2_eq_odd bit_0) simp

lemma crc_bit_xor: "crc_bit (a XOR b) = crc_bit a XOR crc_bit b"
  by (auto simp: crc_bit_odd bit_simps drop_bit_xor ac_simps xor.left_commute)

lemma crc_bit_loop_xor: "crc_bit_loop n (a XOR b) = crc_bit_loop n a XOR crc_bit_loop n b"
  by (induction n arbitrary: a b) (simp_all add: crc_bit_xor)

lemma crc_bit_loop_low_zero:
  "take_bit n c = 0 \<Longrightarrow> crc_bit_loop n c = drop_bit n c"
proof (induction n arbitrary: c)
  case 0
  then show ?case by simp
next
  case (Suc n)
  then have z: "\<And>i. i < Suc n \<Longrightarrow> \<not> bit c i"
    by (metis bit_0_eq bit_take_bit_iff bot_apply bot_bool_def)
  then have "crc_bit c = drop_bit 1 c" by (simp add: crc_bit_odd)
  moreover have "take_bit n (drop_bit 1 c) = 0"
    by (rule bit_eqI) (use z in \<open>simp add: bit_simps\<close>)
  ultimately show ?case using Suc.IH [of "drop_bit 1 c"] by (simp add: drop_bit_drop_bit)
qed

lemma crc_bit_loop_split:
  "crc_bit_loop 8 c = drop_bit 8 c XOR crc_bit_loop 8 (c AND 0xFF)"
proof -
  have "c = (c AND NOT (mask 8)) XOR (c AND mask 8)"
    by (auto simp: bit_eq_iff bit_simps)
  then have "crc_bit_loop 8 c = crc_bit_loop 8 (c AND NOT (mask 8)) XOR crc_bit_loop 8 (c AND mask 8)"
    by (metis crc_bit_loop_xor)
  moreover have "take_bit 8 (c AND NOT (mask 8)) = 0"
    by (auto simp: bit_eq_iff bit_simps)
  then have "crc_bit_loop 8 (c AND NOT (mask 8)) = drop_bit 8 (c AND NOT (mask 8))"
    by (rule crc_bit_loop_low_zero)
  moreover have "drop_bit 8 (c AND NOT (mask 8)) = drop_bit 8 c"
    by (auto simp: bit_eq_iff bit_simps dest: bit_imp_le_length)
  moreover have "mask 8 = (0xFF :: u32)" by (simp add: mask_numeral)
  ultimately show ?thesis by simp
qed

text \<open>One table step is eight steps of the bit-serial register.\<close>

lemma crc_table_step_ref: "crc_table_step crc byte = crc_ref_step crc byte"
proof -
  define x where "x = crc XOR ucast byte"
  have m: "unat (x AND 0xFF) = unat x mod 256"
    using unat_and_pow2_minus_1 [of x 8] by simp
  have idx: "unat (ucast (x AND 0xFF) :: u8) = unat (x AND 0xFF)"
    by (simp add: unsigned_ucast_eq take_bit_nat_def m)
  then have lt: "unat (ucast (x AND 0xFF) :: u8) < 256"
    by (simp add: m)
  have "CRC32C_TABLE ! unat (ucast (x AND 0xFF) :: u8) = crc_bit_loop 8 (x AND 0xFF)"
    using lt by (simp add: CRC32C_TABLE_def make_crc32c_table_def idx)
  moreover have "drop_bit 8 x = drop_bit 8 crc"
    unfolding x_def by (auto simp: bit_eq_iff bit_simps dest: bit_imp_le_length)
  ultimately show ?thesis
    by (simp add: crc_table_step_def crc_ref_step_def Let_def crc_bit_loop_split [of x] flip: x_def)
qed

lemma crc32c_software_ref: "crc32c_software = crc32c_ref"
  by (simp add: fun_eq_iff crc32c_software_def crc32c_ref_def crc_table_step_ref [abs_def])

section \<open>The register update is injective\<close>

lemma xor_cancel_left: "(a XOR b = a XOR c) \<longleftrightarrow> b = (c :: 'a::len word)"
  by (auto simp: bit_eq_iff bit_simps)

lemma xor_cancel_right: "(b XOR a = c XOR a) \<longleftrightarrow> b = (c :: 'a::len word)"
  by (auto simp: bit_eq_iff bit_simps)

lemma crc_bit_inj: "crc_bit a = crc_bit b \<Longrightarrow> a = b"
proof -
  assume eq: "crc_bit a = crc_bit b"
  have msb: "bit (crc_bit c) 31 = bit c 0" for c
    by (simp add: crc_bit_odd bit_simps CRC32C_POLYNOMIAL_def) (auto dest: bit_imp_le_length)
  from eq have low: "bit a 0 = bit b 0" by (metis msb)
  then have shift: "drop_bit 1 a = drop_bit 1 b"
    using eq by (simp add: crc_bit_odd xor_cancel_right split: if_splits)
  show "a = b"
  proof (rule bit_word_eqI)
    fix i
    show "bit a i = bit b i"
    proof (cases i)
      case 0
      then show ?thesis using low by simp
    next
      case (Suc j)
      then show ?thesis using arg_cong [OF shift, of "\<lambda>w. bit w j"] by (simp add: bit_simps)
    qed
  qed
qed

lemma crc_bit_loop_inj: "crc_bit_loop n a = crc_bit_loop n b \<Longrightarrow> a = b"
  by (induction n arbitrary: a b) (auto dest: crc_bit_inj)

lemma crc_ref_step_inj: "crc_ref_step a x = crc_ref_step b x \<Longrightarrow> a = b"
  unfolding crc_ref_step_def by (drule crc_bit_loop_inj) (simp add: xor_cancel_right)

lemma foldl_crc_inj: "foldl crc_ref_step a xs = foldl crc_ref_step b xs \<Longrightarrow> a = b"
  by (induction xs arbitrary: a b) (auto dest: crc_ref_step_inj)

text \<open>
  Up to four bytes enter the register as one word: the register after them is an injective
  function of that word, which is why no burst of at most 32 bits goes unnoticed.
\<close>

lemma crc_bit_loop_add: "crc_bit_loop (m + n) c = crc_bit_loop n (crc_bit_loop m c)"
  by (induction m arbitrary: c) simp_all

lemma foldl_crc_as_word:
  "length bs \<le> 4 \<Longrightarrow> foldl crc_ref_step c bs = crc_bit_loop (8 * length bs) (c XOR le_word bs)"
proof (induction bs arbitrary: c)
  case Nil
  then show ?case by simp
next
  case (Cons b bs)
  have small: "drop_bit 8 (push_bit 8 (le_word bs :: u32)) = le_word bs"
    using Cons.prems by (auto simp: bit_eq_iff bit_simps bit_le_word)
  have "take_bit 8 (push_bit 8 (le_word bs :: u32)) = 0"
    by (auto simp: bit_eq_iff bit_simps)
  then have "crc_bit_loop 8 (push_bit 8 (le_word bs)) = le_word bs"
    by (simp add: crc_bit_loop_low_zero small)
  then have "crc_bit_loop 8 (c XOR ucast b) XOR le_word bs =
      crc_bit_loop 8 ((c XOR ucast b) XOR push_bit 8 (le_word bs))"
    by (simp add: crc_bit_loop_xor)
  also have "(c XOR ucast b) XOR push_bit 8 (le_word bs) = c XOR le_word (b # bs)"
    by (auto simp: bit_eq_iff bit_simps dest: bit_imp_le_length)
  finally show ?case
    using Cons by (simp add: crc_ref_step_def crc_bit_loop_add del: crc_bit_loop.simps le_word.simps)
qed

lemma foldl_crc_burst_inj:
  assumes "length u \<le> 4" and "length v = length u"
    and "foldl crc_ref_step c u = foldl crc_ref_step c v"
  shows "u = v"
proof -
  have "le_word u = (le_word v :: u32)"
    using assms by (auto simp: foldl_crc_as_word xor_cancel_left dest!: crc_bit_loop_inj)
  moreover have "bit (le_word w :: u32) (8 * i + j) = bit (w ! i) j"
    if "i < length w" "length w \<le> 4" "j < 8" for w i j
    using that by (simp add: bit_le_word)
  ultimately have "bit (u ! i) j = bit (v ! i) j" if "i < length u" "j < 8" for i j
    using that assms(1,2) by metis
  then show ?thesis
    using assms(2) by (auto intro!: nth_equalityI bit_word_eqI)
qed

lemma crc32c_ref_burst:
  assumes "length u \<le> 4" and "length v = length u"
    and "crc32c_ref (x @ u @ y) = crc32c_ref (x @ v @ y)"
  shows "u = v"
proof -
  have "foldl crc_ref_step (foldl crc_ref_step 0xFFFFFFFF x) u =
      foldl crc_ref_step (foldl crc_ref_step 0xFFFFFFFF x) v"
    using assms(3) by (auto simp: crc32c_ref_def intro: foldl_crc_inj)
  then show ?thesis using foldl_crc_burst_inj assms(1,2) by blast
qed

section \<open>The two build variants agree\<close>

text \<open>
  What the instruction set manual promises of \<^verbatim>\<open>CRC32 r32, r/m8\<close> and \<^verbatim>\<open>CRC32 r64, r/m64\<close>:
  the operand enters the reflected Castagnoli register byte by byte, low byte first, and the
  64-bit form leaves the upper half of the result zero.
\<close>

lemma ucast_32_64: "ucast (ucast (c :: u32) :: u64) = c"
  by (auto simp: bit_eq_iff bit_simps dest: bit_imp_le_length)

locale sse42_crc =
  fixes mm_crc32_u64 :: "u64 \<Rightarrow> u64 \<Rightarrow> u64"
    and mm_crc32_u8 :: "u32 \<Rightarrow> u8 \<Rightarrow> u32"
  assumes u8: "mm_crc32_u8 crc b = crc_ref_step crc b"
    and u64: "mm_crc32_u64 (ucast crc) chunk = ucast (foldl crc_ref_step crc (le_bytes 8 chunk))"
begin

lemma words_loop:
  "crc_sse_words mm_crc32_u64 crc p = (crc', p') \<Longrightarrow>
     foldl crc_ref_step crc p = foldl crc_ref_step crc' p'"
proof (induction "length p" arbitrary: crc p rule: less_induct)
  case less
  show ?case
  proof (cases "8 \<le> length p")
    case True
    have "ucast (mm_crc32_u64 (ucast crc) (le_word (take 8 p))) = foldl crc_ref_step crc (take 8 p)"
      using True by (simp add: u64 le_bytes_le_word ucast_32_64)
    then have "foldl crc_ref_step (foldl crc_ref_step crc (take 8 p)) (drop 8 p) =
        foldl crc_ref_step crc' p'"
      using less True by (simp add: crc_sse_words.simps [of _ crc p])
    then show ?thesis by (metis append_take_drop_id foldl_append)
  next
    case False
    then show ?thesis using less.prems by (simp add: crc_sse_words.simps [of _ crc p])
  qed
qed

lemma sse_eq_ref: "crc32c_sse mm_crc32_u64 mm_crc32_u8 data = crc32c_ref data"
proof -
  have "mm_crc32_u8 = crc_ref_step" by (simp add: fun_eq_iff u8)
  then show ?thesis
    using words_loop [of "0xFFFFFFFF" data]
    by (auto simp: crc32c_sse_def crc32c_ref_def split: prod.splits)
qed

end

definition ref_crc32_u64 :: "u64 \<Rightarrow> u64 \<Rightarrow> u64" where
  "ref_crc32_u64 crc chunk = ucast (foldl crc_ref_step (ucast crc) (le_bytes 8 chunk))"

interpretation ref_sse: sse42_crc ref_crc32_u64 crc_ref_step
  by unfold_locales (simp_all add: ref_crc32_u64_def ucast_32_64)

end
