(* ===== verification/Codec.thy ===== *)
theory Codec
  imports Wire Crc
begin

text \<open>
  \<^verbatim>\<open>parse_frame\<close> and \<^verbatim>\<open>encode_frame\<close> of \<^verbatim>\<open>proto/codec.cpp\<close>. A span is a byte list; the
  encoder returns the number of bytes it wrote and the buffer it leaves behind.
\<close>

section \<open>Parsed frames\<close>

record ParsedFrame =
  header :: FrameHeader
  payload_owned :: "u8 list"
  valid :: bool
  expected_crc :: u32
  actual_crc :: u32

definition empty_frame :: ParsedFrame where
  "empty_frame =
     \<lparr> header = \<lparr> magic = 0, version = 0, type = 0, flags = 0, reserved = 0,
                  payload_length = 0, actor_id = 0, message_id = 0 \<rparr>,
       payload_owned = [], valid = False, expected_crc = 0, actual_crc = 0 \<rparr>"

definition header_ptr :: "ParsedFrame \<Rightarrow> FrameHeader option" where
  "header_ptr f = (if valid f then Some (header f) else None)"

definition size_of :: "u8 list \<Rightarrow> size_t" where
  "size_of bs = of_nat (length bs)"

text \<open>The portable build; \<open>crc32c_sse\<close> is the other branch of the same \<^verbatim>\<open>#if\<close>.\<close>

definition crc32c :: "u8 list \<Rightarrow> u32" where
  "crc32c data = crc32c_software data"

section \<open>Parsing and encoding\<close>

definition parse_frame :: "u8 list \<Rightarrow> ParsedFrame" where
  "parse_frame buffer =
     (if size_of buffer < HEADER_SIZE + CRC_SIZE then empty_frame
      else
        let hdr = header_at buffer in
        if magic hdr \<noteq> MAGIC \<or> version hdr \<noteq> VERSION then empty_frame
        else
          let payload_size = ucast (payload_length hdr) :: size_t;
              layout = layout_for_payload payload_size in
          if total_size layout < HEADER_SIZE + CRC_SIZE \<or> total_size layout > size_of buffer
          then empty_frame
          else
            let wire_crc = le_word (take 4 (drop (unat (crc_offset layout)) buffer));
                computed_crc = crc32c (take (unat (HEADER_SIZE + payload_size)) buffer)
            in \<lparr> header = hdr,
                 payload_owned = take (unat payload_size) (drop (unat HEADER_SIZE) buffer),
                 valid = (computed_crc = wire_crc),
                 expected_crc = computed_crc,
                 actual_crc = wire_crc \<rparr>)"

definition encode_frame ::
  "u8 list \<Rightarrow> MessageType \<Rightarrow> u16 \<Rightarrow> u64 \<Rightarrow> u64 \<Rightarrow> u8 list \<Rightarrow> size_t \<times> u8 list" where
  "encode_frame buffer ty fl actor message payload =
     (if \<not> payload_size_fits (size_of payload) then (0, buffer)
      else
        let layout = layout_for_payload (size_of payload) in
        if total_size layout > size_of buffer \<or> total_size layout < HEADER_SIZE + CRC_SIZE
        then (0, buffer)
        else
          let hdr = \<lparr> magic = MAGIC, version = VERSION, type = message_type_code ty, flags = fl,
                     reserved = 0, payload_length = ucast (size_of payload),
                     actor_id = actor, message_id = message \<rparr>;
              buffer = blit 0 (header_bytes hdr) buffer;
              buffer = (if payload \<noteq> [] then blit (unat HEADER_SIZE) payload buffer else buffer);
              padding_size = padded_payload_size layout - size_of payload;
              buffer = (if padding_size > 0
                        then blit (unat (HEADER_SIZE + size_of payload))
                                  (replicate (unat padding_size) 0) buffer
                        else buffer);
              checksum = crc32c (take (unat (HEADER_SIZE + size_of payload)) buffer);
              buffer = blit (unat (crc_offset layout)) (le_bytes 4 checksum) buffer
          in (total_size layout, buffer))"

definition encode_frame_simple ::
  "u8 list \<Rightarrow> MessageType \<Rightarrow> u64 \<Rightarrow> u8 list \<Rightarrow> size_t \<times> u8 list" where
  "encode_frame_simple buffer ty actor payload = encode_frame buffer ty 0 actor 0 payload"

section \<open>The frame as a byte string\<close>

definition frame_header :: "MessageType \<Rightarrow> u16 \<Rightarrow> u64 \<Rightarrow> u64 \<Rightarrow> u8 list \<Rightarrow> FrameHeader" where
  "frame_header ty fl actor message payload =
     \<lparr> magic = MAGIC, version = VERSION, type = message_type_code ty, flags = fl, reserved = 0,
       payload_length = of_nat (length payload), actor_id = actor, message_id = message \<rparr>"

definition frame_bytes :: "FrameHeader \<Rightarrow> u8 list \<Rightarrow> u8 list" where
  "frame_bytes hdr payload =
     header_bytes hdr @ payload @ replicate (round_up (length payload) 8 - length payload) 0 @
     le_bytes 4 (crc32c (header_bytes hdr @ payload))"

lemma length_frame_bytes [simp]:
  "length (frame_bytes hdr payload) = 36 + round_up (length payload) 8"
  using round_up_8_bounds(1) [of "length payload"] by (simp add: frame_bytes_def)

lemma unat_size_of: "length bs < 2 ^ 64 \<Longrightarrow> unat (size_of bs) = length bs"
  by (simp add: size_of_def unat_of_nat)

lemma encode_frame_rejects:
  assumes "length payload < 2 ^ 64" and "length buffer < 2 ^ 64"
    and "2 ^ 32 \<le> length payload \<or> length buffer < 36 + round_up (length payload) 8"
  shows "encode_frame buffer ty fl actor message payload = (0, buffer)"
proof (cases "length payload < 2 ^ 32")
  case True
  then have "total_size (layout_for_payload (size_of payload)) > size_of buffer"
    using assms by (simp add: word_less_nat_alt layout_exact unat_size_of)
  then show ?thesis by (simp add: encode_frame_def Let_def)
next
  case False
  then have "\<not> payload_size_fits (size_of payload)"
    using assms by (simp add: payload_size_fits_iff unat_size_of)
  then show ?thesis by (simp add: encode_frame_def)
qed

text \<open>
  The four copies of the encoder lay the frame out contiguously. Copying an empty payload or
  an empty padding changes nothing, so the encoder's two guards do not matter.
\<close>

lemma frame_copies:
  assumes "length hb = 32" and "n = length payload" and "n \<le> r" and "length c = 4"
  shows "blit (32 + r) c (blit (32 + n) (replicate (r - n) 0) (blit 32 payload (blit 0 hb buffer))) =
    hb @ payload @ replicate (r - n) 0 @ c @ drop (36 + r) buffer"
proof -
  have 1: "blit 0 hb buffer = hb @ drop 32 buffer"
    using assms by (simp add: blit_def)
  have 2: "blit 32 payload (hb @ drop 32 buffer) = (hb @ payload) @ drop (32 + n) buffer"
    using assms by (simp add: blit_append add.commute)
  have 3: "blit (32 + n) (replicate (r - n) 0) ((hb @ payload) @ drop (32 + n) buffer) =
      (hb @ payload @ replicate (r - n) 0) @ drop (32 + r) buffer"
    using assms by (subst blit_append) (simp_all add: add.commute)
  have 4: "blit (32 + r) c ((hb @ payload @ replicate (r - n) 0) @ drop (32 + r) buffer) =
      (hb @ payload @ replicate (r - n) 0) @ c @ drop (36 + r) buffer"
    using assms by (subst blit_append) (simp_all add: add.commute)
  show ?thesis unfolding 1 2 3 4 by simp
qed

lemma take_frame_copies:
  assumes "length hb = 32" and "n = length payload" and "n \<le> r"
  shows "take (32 + n) (blit (32 + n) (replicate (r - n) 0) (blit 32 payload (blit 0 hb buffer))) =
    hb @ payload"
proof -
  have "blit 32 payload (blit 0 hb buffer) = (hb @ payload) @ drop (32 + n) buffer"
    using assms by (simp add: blit_def add.commute)
  then show ?thesis using assms by (simp add: take_blit_below)
qed

lemma blit_replicate_guard:
  "(if w > 0 then blit off (replicate (unat w) x) b else b) = blit off (replicate (unat w) x) b"
  for w :: "'a::len word"
  by (cases "w = 0") (simp_all add: word_gt_0)

lemma blit_payload_guard: "(if p \<noteq> [] then blit off p b else b) = blit off p b"
  by simp

lemma encode_layout:
  assumes len: "length payload < 2 ^ 32"
  defines "layout \<equiv> layout_for_payload (size_of payload)"
  shows "unat HEADER_SIZE = 32"
    and "unat (HEADER_SIZE + size_of payload) = 32 + length payload"
    and "unat (padded_payload_size layout - size_of payload) = round_up (length payload) 8 - length payload"
    and "unat (crc_offset layout) = 32 + round_up (length payload) 8"
    and "unat (total_size layout) = 36 + round_up (length payload) 8"
    and "payload_size_fits (size_of payload)"
    and "ucast (size_of payload) = (of_nat (length payload) :: u32)"
proof -
  have n: "unat (size_of payload) = length payload" using len by (simp add: unat_size_of)
  have small: "unat (size_of payload) < 2 ^ 32" using len by (simp add: n)
  show H: "unat HEADER_SIZE = 32" by (simp add: HEADER_SIZE_def)
  show "unat (HEADER_SIZE + size_of payload) = 32 + length payload"
    using small by (simp add: unat_plus_if' H n)
  show "unat (padded_payload_size layout - size_of payload) =
      round_up (length payload) 8 - length payload"
    using layout_exact(1) [OF small] round_up_8_bounds(1) [of "length payload"]
    by (simp add: layout_def n unat_sub word_le_nat_alt)
  show "unat (crc_offset layout) = 32 + round_up (length payload) 8"
    and "unat (total_size layout) = 36 + round_up (length payload) 8"
    using layout_exact(2,3) [OF small] by (simp_all add: layout_def n)
  show "payload_size_fits (size_of payload)" using small by (simp add: payload_size_fits_iff)
  show "ucast (size_of payload) = (of_nat (length payload) :: u32)"
    using len by (simp add: size_of_def unsigned_of_nat take_bit_nat_eq_self)
qed

lemma encode_frame_writes:
  assumes len: "length payload < 2 ^ 32" and buf: "length buffer < 2 ^ 64"
    and room: "36 + round_up (length payload) 8 \<le> length buffer"
  shows "encode_frame buffer ty fl actor message payload =
    (encoded_frame_size (size_of payload),
     frame_bytes (frame_header ty fl actor message payload) payload @
       drop (36 + round_up (length payload) 8) buffer)"
proof -
  define layout where "layout = layout_for_payload (size_of payload)"
  define r where "r = round_up (length payload) 8"
  define hb where "hb = header_bytes (frame_header ty fl actor message payload)"
  note facts = encode_layout [OF len, folded layout_def r_def]
  have nr: "length payload \<le> r" unfolding r_def by (rule round_up_8_bounds)
  have hb: "length hb = 32" by (simp add: hb_def)
  have ok: "\<not> (total_size layout > size_of buffer \<or> total_size layout < HEADER_SIZE + CRC_SIZE)"
    using room buf facts(5)
    by (simp add: word_less_nat_alt unat_size_of HEADER_SIZE_def CRC_SIZE_def r_def)
  have "encode_frame buffer ty fl actor message payload =
      (total_size layout,
       hb @ payload @ replicate (r - length payload) 0 @
       le_bytes 4 (crc32c (hb @ payload)) @ drop (36 + r) buffer)"
    using ok facts(6) unfolding encode_frame_def Let_def blit_replicate_guard blit_payload_guard
    by (simp only: layout_def [symmetric] facts frame_header_def [symmetric] hb_def [symmetric]
        take_frame_copies [OF hb refl nr] frame_copies [OF hb refl nr length_le_bytes]
        if_False if_True simp_thms)
  then show ?thesis
    by (simp add: layout_def layout_fields frame_bytes_def r_def hb_def)
qed

section \<open>Parsing a frame\<close>

text \<open>The bytes a parse accepts: the guards of \<open>parse_frame\<close>, over natural numbers.\<close>

definition frame_shape :: "u8 list \<Rightarrow> bool" where
  "frame_shape buffer \<longleftrightarrow> 36 \<le> length buffer \<and>
     magic (header_at buffer) = MAGIC \<and> version (header_at buffer) = VERSION \<and>
     36 + round_up (unat (payload_length (header_at buffer))) 8 \<le> length buffer"

lemma unat_payload_length: "unat (ucast (l :: u32) :: size_t) = unat l"
  by (simp add: unsigned_ucast_eq take_bit_nat_eq_self order.strict_trans [OF unat_u32_less])

lemma parse_frame_rejects:
  assumes "length buffer < 2 ^ 64" and "\<not> frame_shape buffer"
  shows "parse_frame buffer = empty_frame"
proof -
  define l where "l = payload_length (header_at buffer)"
  have "unat (ucast l :: size_t) < 2 ^ 32" by (simp add: unat_payload_length unat_u32_less)
  note total = layout_exact(3) [OF this]
  show ?thesis
    using assms total
    by (auto simp: parse_frame_def Let_def frame_shape_def word_less_nat_alt unat_size_of
        HEADER_SIZE_def CRC_SIZE_def unat_payload_length l_def not_le)
qed

lemma parse_frame_accepts:
  assumes "length buffer < 2 ^ 64" and "frame_shape buffer"
  defines "n \<equiv> unat (payload_length (header_at buffer))"
  shows "parse_frame buffer =
    \<lparr> header = header_at buffer, payload_owned = take n (drop 32 buffer),
      valid = (crc32c (take (32 + n) buffer) = le_word (take 4 (drop (32 + round_up n 8) buffer))),
      expected_crc = crc32c (take (32 + n) buffer),
      actual_crc = le_word (take 4 (drop (32 + round_up n 8) buffer)) \<rparr>"
proof -
  define l where "l = payload_length (header_at buffer)"
  have l: "unat (ucast l :: size_t) = n" by (simp add: unat_payload_length l_def n_def)
  have small: "n < 2 ^ 32" by (simp add: n_def unat_u32_less)
  note exact = layout_exact [of "ucast l", unfolded l, OF small]
  have hp: "unat (HEADER_SIZE + ucast l) = 32 + n"
    using small by (simp add: HEADER_SIZE_def unat_plus_if' l)
  have room: "36 + round_up n 8 \<le> length buffer"
    using assms(2) by (simp add: frame_shape_def n_def)
  show ?thesis
    using assms(1,2) exact hp l room
    by (simp add: parse_frame_def Let_def frame_shape_def word_less_nat_alt unat_size_of
        HEADER_SIZE_def CRC_SIZE_def flip: l_def)
qed

lemma unat_payload_length_header:
  "length payload < 2 ^ 32 \<Longrightarrow>
    unat (payload_length (frame_header ty fl actor message payload)) = length payload"
  by (simp only: frame_header_def FrameHeader.simps unat_of_nat) simp

lemma frame_bytes_shape:
  assumes "unat (payload_length h) = length payload" and "magic h = MAGIC" and "version h = VERSION"
  shows "frame_shape (frame_bytes h payload @ rest)"
  using assms unfolding frame_shape_def by (simp add: frame_bytes_def)

lemma parse_frame_bytes:
  assumes "unat (payload_length h) = length payload" and "magic h = MAGIC" and "version h = VERSION"
    and "length (frame_bytes h payload @ rest) < 2 ^ 64"
  shows "parse_frame (frame_bytes h payload @ rest) =
    \<lparr> header = h, payload_owned = payload, valid = True,
      expected_crc = crc32c (header_bytes h @ payload),
      actual_crc = crc32c (header_bytes h @ payload) \<rparr>"
proof -
  have hdr: "header_at (frame_bytes h payload @ rest) = h" by (simp add: frame_bytes_def)
  have crc: "drop (32 + round_up (length payload) 8) (frame_bytes h payload @ rest) =
      le_bytes 4 (crc32c (header_bytes h @ payload)) @ rest"
    using round_up_8_bounds(1) [of "length payload"] by (simp add: frame_bytes_def)
  show ?thesis
    using parse_frame_accepts [OF assms(4) frame_bytes_shape [OF assms(1-3)]] assms(1) crc
    by (simp add: hdr) (simp add: frame_bytes_def)
qed

text \<open>
  C1. Whatever \<open>encode_frame\<close> writes, \<open>parse_frame\<close> reads back: when the buffer has room for
  the padded frame, the encoder returns its exact size, leaves the rest of the buffer alone, and
  parsing the written bytes (followed by anything) is valid and yields the header fields and the
  payload that were encoded.
\<close>

theorem encode_parse_roundtrip:
  assumes "length payload < 2 ^ 32" and "length buffer < 2 ^ 64"
    and "36 + round_up (length payload) 8 \<le> length buffer"
    and "36 + round_up (length payload) 8 + length rest < 2 ^ 64"
  shows "case encode_frame buffer ty fl actor message payload of (n, buffer') \<Rightarrow>
    unat n = 36 + round_up (length payload) 8 \<and>
    length buffer' = length buffer \<and> drop (unat n) buffer' = drop (unat n) buffer \<and>
    valid (parse_frame (take (unat n) buffer' @ rest)) \<and>
    header (parse_frame (take (unat n) buffer' @ rest)) =
      \<lparr> magic = MAGIC, version = VERSION, type = message_type_code ty, flags = fl, reserved = 0,
        payload_length = of_nat (length payload), actor_id = actor, message_id = message \<rparr> \<and>
    payload_owned (parse_frame (take (unat n) buffer' @ rest)) = payload"
proof -
  define h where "h = frame_header ty fl actor message payload"
  have n: "unat (encoded_frame_size (size_of payload)) = 36 + round_up (length payload) 8"
    using encode_layout(5) [OF assms(1)] by (simp add: layout_fields)
  have "unat (payload_length h) = length payload"
    using unat_payload_length_header [OF assms(1)] by (simp add: h_def)
  moreover have "magic h = MAGIC" "version h = VERSION" by (simp_all add: h_def frame_header_def)
  ultimately have "parse_frame (frame_bytes h payload @ rest) =
    \<lparr> header = h, payload_owned = payload, valid = True,
      expected_crc = crc32c (header_bytes h @ payload),
      actual_crc = crc32c (header_bytes h @ payload) \<rparr>"
    using assms(4) by (intro parse_frame_bytes) simp_all
  then show ?thesis
    using assms(3) n
    by (simp add: encode_frame_writes [OF assms(1-3)] flip: h_def)
       (simp add: h_def frame_header_def)
qed

theorem encode_parse_roundtrip_witness:
  "case encode_frame (replicate 50 0xAA) ActorMessage 7 42 99 [0x11, 0x22, 0x33, 0x44, 0x55] of
     (n, buffer') \<Rightarrow> unat n = 44 \<and>
       payload_owned (parse_frame (take (unat n) buffer' @ [1, 2])) = [0x11, 0x22, 0x33, 0x44, 0x55]"
  using encode_parse_roundtrip [of "[0x11, 0x22, 0x33, 0x44, 0x55]" "replicate 50 0xAA" "[1, 2]"
      ActorMessage 7 42 99]
  by (auto simp: round_up_def split: prod.splits)

text \<open>
  \<open>encode_frame\<close> refuses exactly the payloads that do not fit the 32-bit length field or
  the buffer, and then it returns 0 and has written nothing.
\<close>

theorem encode_frame_failure:
  assumes "length payload < 2 ^ 64" and "length buffer < 2 ^ 64"
  shows "case encode_frame buffer ty fl actor message payload of (n, buffer') \<Rightarrow>
    (n = 0 \<longleftrightarrow> 2 ^ 32 \<le> length payload \<or> length buffer < 36 + round_up (length payload) 8) \<and>
    (n = 0 \<longrightarrow> buffer' = buffer)"
proof (cases "2 ^ 32 \<le> length payload \<or> length buffer < 36 + round_up (length payload) 8")
  case True
  then show ?thesis using encode_frame_rejects [OF assms True] by simp
next
  case False
  then have "encoded_frame_size (size_of payload) \<noteq> 0"
    using encode_layout(5) [of payload] by (auto simp: layout_fields not_le)
  then show ?thesis
    using False encode_frame_writes [of payload buffer] assms(2) by (auto simp: not_le not_less)
qed

theorem encode_frame_failure_witness:
  "encode_frame (replicate 40 0xAA) Heartbeat 0 7 0 [1, 2, 3] = (0, replicate 40 0xAA)"
  using encode_frame_failure [of "[1, 2, 3]" "replicate 40 0xAA" Heartbeat 0 7 0]
  by (simp add: round_up_def split: prod.splits)

text \<open>
  C18. What \<open>parse_frame\<close> does on every buffer: it rejects a buffer that is too short, has
  another magic or version, or is shorter than the padded frame its length field announces, and
  reports the default frame; otherwise it reads the header, exactly the announced payload bytes
  and the trailing checksum, all inside the buffer, and is valid exactly when the checksum of header
  and payload equals the stored one.
\<close>

theorem parse_frame_spec:
  assumes "length buffer < 2 ^ 64"
  shows "parse_frame buffer =
    (if frame_shape buffer
     then let n = unat (payload_length (header_at buffer));
              crc = crc32c (take (32 + n) buffer);
              stored = le_word (take 4 (drop (32 + round_up n 8) buffer))
          in \<lparr> header = header_at buffer, payload_owned = take n (drop 32 buffer),
               valid = (crc = stored), expected_crc = crc, actual_crc = stored \<rparr>
     else empty_frame)"
  using parse_frame_accepts [OF assms] parse_frame_rejects [OF assms] by (simp add: Let_def)

theorem parse_frame_spec_witness:
  "parse_frame (replicate 36 0) = empty_frame \<and> \<not> frame_shape (replicate 36 0)"
proof -
  have "\<not> frame_shape (replicate 36 0)"
    by code_simp
  then show ?thesis using parse_frame_spec [of "replicate 36 0"] by simp
qed

text \<open>
  C17. Corruption of up to four consecutive payload bytes is always detected: overwrite any
  such window of an encoded frame with different bytes and \<open>parse_frame\<close> reports an invalid
  frame.
\<close>

theorem payload_burst_detected:
  assumes "length (a @ u @ b) < 2 ^ 32" and "length buffer < 2 ^ 64"
    and "36 + round_up (length (a @ u @ b)) 8 \<le> length buffer"
    and "length v = length u" and "length u \<le> 4" and "u \<noteq> v"
  shows "\<not> valid (parse_frame
    (blit (32 + length a) v (snd (encode_frame buffer ty fl actor message (a @ u @ b)))))"
proof -
  define h where "h = frame_header ty fl actor message (a @ u @ b)"
  define n where "n = length (a @ u @ b)"
  define tail where "tail = replicate (round_up n 8 - n) 0 @
    le_bytes 4 (crc32c (header_bytes h @ a @ u @ b)) @ drop (36 + round_up n 8) buffer"
  define bad where "bad = header_bytes h @ (a @ v @ b) @ tail"
  have "snd (encode_frame buffer ty fl actor message (a @ u @ b)) =
      (header_bytes h @ a) @ u @ b @ tail"
    by (simp add: encode_frame_writes [OF assms(1-3)] frame_bytes_def h_def n_def tail_def)
  then have blit: "blit (32 + length a) v (snd (encode_frame buffer ty fl actor message (a @ u @ b))) = bad"
    using assms(4) by (simp add: bad_def blit_append del: append_assoc)
  have hdr: "header_at bad = h" by (simp add: bad_def)
  have n: "unat (payload_length h) = n"
    using unat_payload_length_header [OF assms(1)] by (simp add: h_def n_def)
  have room: "36 + round_up n 8 \<le> length buffer" "n \<le> round_up n 8"
    using assms(3) round_up_8_bounds(1) [of n] by (simp_all add: n_def)
  have "length bad = 32 + n + length tail" using assms(4) by (simp add: bad_def n_def)
  moreover have "length tail = length buffer - 32 - n" using room by (simp add: tail_def)
  ultimately have len_bad: "length bad = length buffer" using room by linarith
  have "frame_shape bad"
    using room by (simp add: frame_shape_def hdr n len_bad) (simp add: h_def frame_header_def)
  moreover have "length bad < 2 ^ 64" using assms(2) by (simp add: len_bad)
  moreover have "take (32 + n) bad = header_bytes h @ a @ v @ b"
    using assms(4) by (simp add: bad_def n_def)
  moreover have "take 4 (drop (32 + round_up n 8) bad) = le_bytes 4 (crc32c (header_bytes h @ a @ u @ b))"
    using assms(4) round_up_8_bounds(1) [of n] by (simp add: bad_def tail_def n_def)
  moreover have "crc32c (header_bytes h @ a @ v @ b) \<noteq> crc32c (header_bytes h @ a @ u @ b)"
    using crc32c_ref_burst [of u v "header_bytes h @ a" b] assms(4-6)
    by (auto simp: crc32c_def crc32c_software_ref)
  ultimately show ?thesis
    unfolding blit by (simp add: parse_frame_accepts hdr n)
qed

theorem payload_burst_detected_witness:
  "\<not> valid (parse_frame (blit 32 [0xAB]
      (snd (encode_frame (replicate 44 0) Heartbeat 0 7 0 ([] @ [0xAA] @ [0xBB, 0xCC, 0xDD])))))"
  using payload_burst_detected [of "[]" "[0xAA]" "[0xBB, 0xCC, 0xDD]" "replicate 44 0" "[0xAB]"
      Heartbeat 0 7 0]
  by (simp add: round_up_def)

text \<open>
  The checksum does not cover the alignment padding: two buffers that agree on the header,
  the payload and everything from the checksum on parse to the same frame, whatever their padding
  bytes are.
\<close>

theorem parse_ignores_padding:
  assumes "length (pre @ pad @ post) < 2 ^ 64" and "length pad' = length pad"
    and "length pre = 32 + unat (payload_length (header_at pre))"
    and "length pad = round_up (unat (payload_length (header_at pre))) 8 -
      unat (payload_length (header_at pre))"
  shows "parse_frame (pre @ pad @ post) = parse_frame (pre @ pad' @ post)"
proof -
  define n where "n = unat (payload_length (header_at pre))"
  have "32 \<le> length pre" using assms(3) by simp
  then have hdr: "header_at (pre @ x) = header_at pre" for x by (simp add: header_at_def)
  have r: "n \<le> round_up n 8" by (rule round_up_8_bounds)
  have len: "length pre = 32 + n" "length pad = round_up n 8 - n"
    using assms(3,4) by (simp_all add: n_def)
  have shape: "frame_shape (pre @ pad @ post) \<longleftrightarrow> frame_shape (pre @ pad' @ post)"
    using assms(2) by (simp add: frame_shape_def hdr)
  show ?thesis
  proof (cases "frame_shape (pre @ pad @ post)")
    case True
    then show ?thesis
      using assms(1,2) len r shape by (simp add: parse_frame_accepts hdr flip: n_def)
  next
    case False
    then show ?thesis using assms(1,2) shape by (simp add: parse_frame_rejects)
  qed
qed

theorem parse_ignores_padding_witness:
  "parse_frame (header_bytes (frame_header Heartbeat 0 7 0 [9]) @ [9] @ replicate 7 0 @ [1, 2, 3, 4]) =
   parse_frame (header_bytes (frame_header Heartbeat 0 7 0 [9]) @ [9] @ replicate 7 5 @ [1, 2, 3, 4])"
  using parse_ignores_padding [of "header_bytes (frame_header Heartbeat 0 7 0 [9]) @ [9]"
      "replicate 7 0" "[1, 2, 3, 4]" "replicate 7 5"]
  by (simp add: frame_header_def round_up_def)

text \<open>
  C28. Both builds of \<open>crc32c\<close> compute the same function: the table-driven loop equals the
  bit-serial CRC-32C register, and so does the SSE 4.2 loop, given that the two instructions do
  what the instruction set manual documents.
\<close>

theorem crc32c_builds_agree:
  assumes "\<And>crc b. mm_crc32_u8 crc b = crc_ref_step crc b"
    and "\<And>crc chunk. mm_crc32_u64 (ucast crc) chunk =
      ucast (foldl crc_ref_step crc (le_bytes 8 chunk))"
  shows "crc32c_sse mm_crc32_u64 mm_crc32_u8 data = crc32c data \<and> crc32c data = crc32c_ref data"
proof -
  have "sse42_crc mm_crc32_u64 mm_crc32_u8" using assms by unfold_locales
  then show ?thesis by (simp add: sse42_crc.sse_eq_ref crc32c_def crc32c_software_ref)
qed

theorem crc32c_builds_agree_witness:
  "crc32c_sse ref_crc32_u64 crc_ref_step [0x31, 0x32, 0x33, 0x34, 0x35, 0x36, 0x37, 0x38, 0x39] =
     crc32c [0x31, 0x32, 0x33, 0x34, 0x35, 0x36, 0x37, 0x38, 0x39]"
  using crc32c_builds_agree [of crc_ref_step ref_crc32_u64, OF ref_sse.u8 ref_sse.u64] by blast

end
