(* ===== verification/Bounded_Queue.thy ===== *)
theory Bounded_Queue
  imports Prelude
begin

text \<open>
  The contract between the two ring buffers of \<^verbatim>\<open>concurrency/\<close> and their clients (the mailbox,
  the reactor's ingress queue, the executor): a FIFO list of bounded length, seen by one thread at a
  time. The clients' loops are defined over any such queue and proved once in the locale; the
  index arithmetic both rings share is proved here as well.
\<close>

section \<open>The client loops\<close>

text \<open>
  A queue operation is partial: \<open>None\<close> is a retry loop that does not return.
  \<^verbatim>\<open>while (auto x = try_pop()) { ... }\<close>, the loop of both destructors, of the mailbox destructor
  and of \<^verbatim>\<open>Reactor::process_external_queue\<close>, collects what it popped.
\<close>

partial_function (option) drain ::
  "('q \<Rightarrow> ('a option \<times> 'q) option) \<Rightarrow> 'q \<Rightarrow> ('a list \<times> 'q) option" where
  "drain pop q =
     Option.bind (pop q) (\<lambda>(r, q'). case r of
        None \<Rightarrow> Some ([], q')
      | Some x \<Rightarrow> Option.bind (drain pop q') (\<lambda>(xs, q''). Some (x # xs, q'')))"

declare drain.simps [code]

text \<open>A sequence of calls on a queue and the answers they give.\<close>

datatype 'a qop = Push 'a | Pop
datatype 'a qans = Pushed bool | Popped "'a option"

fun run_ops ::
  "('a \<Rightarrow> 'q \<Rightarrow> (bool \<times> 'q) option) \<Rightarrow> ('q \<Rightarrow> ('a option \<times> 'q) option) \<Rightarrow> 'a qop list \<Rightarrow> 'q \<Rightarrow>
    ('a qans list \<times> 'q) option" where
  "run_ops push pop [] q = Some ([], q)"
| "run_ops push pop (Push x # ops) q =
     Option.bind (push x q) (\<lambda>(b, q').
       map_option (\<lambda>(as, q''). (Pushed b # as, q'')) (run_ops push pop ops q'))"
| "run_ops push pop (Pop # ops) q =
     Option.bind (pop q) (\<lambda>(r, q').
       map_option (\<lambda>(as, q''). (Popped r # as, q'')) (run_ops push pop ops q'))"

text \<open>The specification: a list of at most \<open>cap\<close> elements.\<close>

definition list_push :: "nat \<Rightarrow> 'a \<Rightarrow> 'a list \<Rightarrow> bool \<times> 'a list" where
  "list_push cap x xs = (if length xs < cap then (True, xs @ [x]) else (False, xs))"

fun list_pop :: "'a list \<Rightarrow> 'a option \<times> 'a list" where
  "list_pop [] = (None, [])"
| "list_pop (x # xs) = (Some x, xs)"

fun list_answers :: "nat \<Rightarrow> 'a qop list \<Rightarrow> 'a list \<Rightarrow> 'a qans list" where
  "list_answers cap [] xs = []"
| "list_answers cap (Push x # ops) xs =
     (let (b, ys) = list_push cap x xs in Pushed b # list_answers cap ops ys)"
| "list_answers cap (Pop # ops) xs = (let (r, ys) = list_pop xs in Popped r # list_answers cap ops ys)"

section \<open>The contract\<close>

locale bounded_queue =
  fixes cap :: nat
    and abs :: "'q \<Rightarrow> 'a list"
    and inv :: "'q \<Rightarrow> bool"
    and try_push :: "'a \<Rightarrow> 'q \<Rightarrow> (bool \<times> 'q) option"
    and try_pop :: "'q \<Rightarrow> ('a option \<times> 'q) option"
  assumes bounded: "inv q \<Longrightarrow> length (abs q) \<le> cap"
    and push_spec: "inv q \<Longrightarrow> \<exists>b q'. try_push x q = Some (b, q') \<and> inv q' \<and>
      list_push cap x (abs q) = (b, abs q')"
    and pop_spec: "inv q \<Longrightarrow> \<exists>r q'. try_pop q = Some (r, q') \<and> inv q' \<and>
      list_pop (abs q) = (r, abs q')"
begin

lemma run_refines:
  "inv q \<Longrightarrow> \<exists>q'. run_ops try_push try_pop ops q = Some (list_answers cap ops (abs q), q') \<and> inv q'"
proof (induction ops arbitrary: q)
  case Nil
  then show ?case by simp
next
  case (Cons op ops)
  show ?case
  proof (cases op)
    case (Push x)
    from push_spec [OF Cons.prems] obtain b q1 where
      "try_push x q = Some (b, q1)" "inv q1" "list_push cap x (abs q) = (b, abs q1)" by blast
    with Cons.IH [of q1] show ?thesis by (auto simp: Push)
  next
    case Pop
    from pop_spec [OF Cons.prems] obtain r q1 where
      "try_pop q = Some (r, q1)" "inv q1" "list_pop (abs q) = (r, abs q1)" by blast
    with Cons.IH [of q1] show ?thesis by (auto simp: Pop)
  qed
qed

text \<open>The drain loop ends, yields every queued element in order and leaves the queue empty.\<close>

lemma drain_all:
  "inv q \<Longrightarrow> \<exists>q'. drain try_pop q = Some (abs q, q') \<and> inv q' \<and> abs q' = []"
proof (induction "abs q" arbitrary: q)
  case Nil
  from pop_spec [OF Nil.prems] obtain r q1 where
    1: "try_pop q = Some (r, q1)" "inv q1" "list_pop [] = (r, abs q1)"
    unfolding Nil.hyps by blast
  then show ?case using Nil.hyps by (simp add: drain.simps [of _ q])
next
  case (Cons x xs)
  from pop_spec [OF Cons.prems] obtain r q1 where
    1: "try_pop q = Some (r, q1)" and q1: "inv q1" and "list_pop (x # xs) = (r, abs q1)"
    unfolding Cons.hyps(2) by blast
  then have r: "r = Some x" and xs: "xs = abs q1" by simp_all
  from Cons.hyps(1) [OF xs q1] obtain q' where
    "drain try_pop q1 = Some (xs, q')" "inv q'" "abs q' = []" using xs by auto
  with 1 r have "drain try_pop q = Some (x # xs, q')" by (simp add: drain.simps [of _ q])
  with \<open>inv q'\<close> \<open>abs q' = []\<close> show ?case using Cons.hyps(2) by auto
qed

end

interpretation list_queue: bounded_queue cap "\<lambda>xs. xs" "\<lambda>xs. length xs \<le> cap"
    "\<lambda>x xs. Some (list_push cap x xs)" "\<lambda>xs. Some (list_pop xs)"
  for cap
proof unfold_locales
  fix xs :: "'a list"
  assume "length xs \<le> cap"
  then show "\<exists>r xs'. Some (list_pop xs) = Some (r, xs') \<and> length xs' \<le> cap \<and> list_pop xs = (r, xs')"
    by (cases xs) auto
qed (auto simp: list_push_def)

section \<open>Ring indices\<close>

text \<open>
  A position is a free-running 64-bit counter; its slot is its low bits. The capacity divides
  \<open>2 ^ 64\<close>, so slots of consecutive positions stay consecutive across the wrap of the counter.
\<close>

definition ring_index :: "size_t \<Rightarrow> size_t \<Rightarrow> nat" where
  "ring_index Capacity pos = unat (pos AND (Capacity - 1))"

lemma is_pow2_dvd:
  fixes c :: size_t
  assumes "is_pow2 c"
  shows "0 < unat c" and "unat c dvd 2 ^ 64" and "unat c \<le> 2 ^ 63"
proof -
  obtain k where k: "k < 64" "c = 2 ^ k" using assms by (auto simp: is_pow2_iff)
  then have c: "unat c = 2 ^ k" by (simp add: unat_pow2)
  then show "0 < unat c" by simp
  show "unat c dvd 2 ^ 64" unfolding c using k(1) by (intro le_imp_power_dvd) simp
  have "(2::nat) ^ k \<le> 2 ^ 63" using k(1) by (intro power_increasing) simp_all
  then show "unat c \<le> 2 ^ 63" by (simp only: c)
qed

lemma ring_index_mod:
  assumes "is_pow2 c"
  shows "ring_index c p = unat p mod unat c"
proof -
  obtain k where k: "k < 64" "c = 2 ^ k" using assms by (auto simp: is_pow2_iff)
  then show ?thesis by (simp add: ring_index_def unat_and_pow2_minus_1 unat_pow2)
qed

lemma ring_index_less: "is_pow2 c \<Longrightarrow> ring_index c p < unat c"
  by (simp add: ring_index_mod is_pow2_dvd)

lemma ring_index_add:
  assumes "is_pow2 c"
  shows "ring_index c (p + of_nat i) = (unat p + i) mod unat c"
proof -
  have "unat (p + of_nat i) mod unat c = ((unat p + i) mod 2 ^ 64) mod unat c"
    by (simp add: unat_word_ariths unat_of_nat mod_simps)
  then show ?thesis using is_pow2_dvd(2) [OF assms] assms
    by (simp add: ring_index_mod mod_mod_cancel)
qed

lemma mod_add_inj:
  fixes a i j c :: nat
  assumes "i < c" and "j < c" and "(a + i) mod c = (a + j) mod c"
  shows "i = j"
  using assms
proof (induction i j rule: linorder_wlog)
  case (le i j)
  then have "c dvd (a + j) - (a + i)" by (metis mod_eq_dvd_iff_nat nat_add_left_cancel_le)
  with le show ?case by (auto dest: dvd_imp_le)
next
  case (sym i j)
  then show ?case by simp
qed

lemma ring_index_inj:
  assumes "is_pow2 c" and "i < unat c" and "j < unat c"
    and "ring_index c (p + of_nat i) = ring_index c (p + of_nat j)"
  shows "i = j"
  using assms mod_add_inj by (simp add: ring_index_add)

lemma ring_index_surj:
  assumes p2: "is_pow2 c" and "j < unat c"
  obtains i where "i < unat c" and "ring_index c (p + of_nat i) = j"
proof -
  let ?f = "\<lambda>i. ring_index c (p + of_nat i)"
  have "?f ` {..<unat c} = {..<unat c}"
    using ring_index_less [OF p2] ring_index_inj [OF p2]
    by (intro endo_inj_surj) (auto intro!: inj_onI)
  with assms(2) have "j \<in> ?f ` {..<unat c}" by simp
  with that show ?thesis by auto
qed

text \<open>The slots of a ring, counted from the slot of a position.\<close>

definition ring_at :: "size_t \<Rightarrow> 'b list \<Rightarrow> size_t \<Rightarrow> nat \<Rightarrow> 'b" where
  "ring_at c xs p i = xs ! ring_index c (p + of_nat i)"

lemma ring_at_update:
  assumes "is_pow2 c" and "length xs = unat c" and "i < unat c" and "j < unat c"
  shows "ring_at c (xs[ring_index c (p + of_nat j) := v]) p i = (if i = j then v else ring_at c xs p i)"
  using ring_index_inj [OF assms(1,3,4), of p] assms(2) ring_index_less [OF assms(1)]
  by (auto simp: ring_at_def nth_list_update)

lemma ring_at_advance:
  assumes p2: "is_pow2 c" and "i < unat c"
  shows "ring_at c xs (p + 1) i = (if Suc i < unat c then ring_at c xs p (Suc i) else ring_at c xs p 0)"
proof -
  have "Suc i = unat c" if "\<not> Suc i < unat c" using that assms(2) by simp
  then have "ring_index c (p + of_nat (Suc i)) = ring_index c p" if "\<not> Suc i < unat c"
    using that ring_index_add [OF p2, of p "Suc i"] by (simp add: ring_index_mod [OF p2])
  then show ?thesis by (simp add: ring_at_def add.assoc)
qed

lemma ring_at_wrap:
  assumes "is_pow2 c"
  shows "ring_at c xs p (unat c) = ring_at c xs p 0"
  using ring_index_add [OF assms, of p "unat c"] by (simp add: ring_at_def ring_index_mod [OF assms])

end
