(* ===== verification/Spsc.thy ===== *)
theory Spsc
  imports Bounded_Queue
begin

text \<open>
  \<^verbatim>\<open>concurrency/spsc_queue.hpp\<close>. A slot of the ring is raw storage (\<open>None\<close>) or holds a
  constructed object. The first part is the queue as its member functions compute on it; the second
  part splits \<^verbatim>\<open>emplace\<close> and \<^verbatim>\<open>try_pop\<close> into their atomic actions and interleaves one producer
  with one consumer. The release/acquire pairs on \<^verbatim>\<open>head_\<close> and \<^verbatim>\<open>tail_\<close> order exactly the accesses
  the two threads share, so the interleaving is that of sequentially consistent steps.
\<close>

section \<open>The member functions\<close>

record 'a spsc =
  q_head :: size_t
  q_tail :: size_t
  q_buffer :: "'a option list"

text \<open>The \<^verbatim>\<open>requires\<close> clause of the template.\<close>

definition spsc_capacity_ok :: "size_t \<Rightarrow> bool" where
  "spsc_capacity_ok Capacity \<longleftrightarrow> Capacity > 0 \<and> Capacity AND (Capacity - 1) = 0"

definition spsc_new :: "size_t \<Rightarrow> 'a spsc" where
  "spsc_new Capacity = \<lparr> q_head = 0, q_tail = 0, q_buffer = replicate (unat Capacity) None \<rparr>"

definition spsc_emplace :: "size_t \<Rightarrow> 'a \<Rightarrow> 'a spsc \<Rightarrow> bool \<times> 'a spsc" where
  "spsc_emplace Capacity x q =
     (let t = q_tail q; next = t + 1; current_head = q_head q in
      if next - current_head > Capacity then (False, q)
      else (True, q\<lparr> q_buffer := (q_buffer q)[ring_index Capacity t := Some x], q_tail := next \<rparr>))"

definition spsc_try_push :: "size_t \<Rightarrow> 'a \<Rightarrow> 'a spsc \<Rightarrow> bool \<times> 'a spsc" where
  "spsc_try_push Capacity item q = spsc_emplace Capacity item q"

text \<open>The popped value is the content of the slot; moving out of it destroys the object there.\<close>

definition spsc_try_pop :: "size_t \<Rightarrow> 'a spsc \<Rightarrow> 'a option \<times> 'a spsc" where
  "spsc_try_pop Capacity q =
     (let h = q_head q in
      if h = q_tail q then (None, q)
      else let item = q_buffer q ! ring_index Capacity h in
           (item, q\<lparr> q_buffer := (q_buffer q)[ring_index Capacity h := None], q_head := h + 1 \<rparr>))"

definition spsc_empty :: "'a spsc \<Rightarrow> bool" where
  "spsc_empty q \<longleftrightarrow> q_head q = q_tail q"

definition spsc_size :: "'a spsc \<Rightarrow> size_t" where
  "spsc_size q = q_tail q - q_head q"

text \<open>The destructor: pop until empty.\<close>

definition spsc_destroy :: "size_t \<Rightarrow> 'a spsc \<Rightarrow> ('a list \<times> 'a spsc) option" where
  "spsc_destroy Capacity q = drain (\<lambda>q. Some (spsc_try_pop Capacity q)) q"

section \<open>Invariant and abstraction\<close>

definition spsc_slot :: "size_t \<Rightarrow> 'a spsc \<Rightarrow> nat \<Rightarrow> 'a option" where
  "spsc_slot c q i = ring_at c (q_buffer q) (q_head q) i"

definition spsc_inv :: "size_t \<Rightarrow> 'a spsc \<Rightarrow> bool" where
  "spsc_inv c q \<longleftrightarrow> is_pow2 c \<and> length (q_buffer q) = unat c \<and> unat (spsc_size q) \<le> unat c \<and>
     (\<forall>i < unat c. (spsc_slot c q i \<noteq> None) = (i < unat (spsc_size q)))"

definition spsc_abs :: "size_t \<Rightarrow> 'a spsc \<Rightarrow> 'a list" where
  "spsc_abs c q = map (\<lambda>i. the (spsc_slot c q i)) [0..<unat (spsc_size q)]"

lemma spsc_capacity_ok_iff: "spsc_capacity_ok c \<longleftrightarrow> is_pow2 c"
  by (simp add: spsc_capacity_ok_def is_pow2_def word_gt_0)

lemma spsc_new_inv:
  assumes "spsc_capacity_ok c"
  shows "spsc_inv c (spsc_new c)" and "spsc_abs c (spsc_new c) = []"
  using assms
  by (auto simp: spsc_inv_def spsc_abs_def spsc_new_def spsc_size_def spsc_slot_def ring_at_def
      spsc_capacity_ok_iff ring_index_less)

lemma unat_inc_size:
  fixes c n :: size_t
  assumes "is_pow2 c" and "unat n \<le> unat c"
  shows "unat (n + 1) = unat n + 1"
  using assms is_pow2_dvd(3) [OF assms(1)] by (simp add: unat_plus_if')

lemma spsc_full_check:
  assumes "spsc_inv c q"
  shows "q_tail q + 1 - q_head q > c \<longleftrightarrow> unat (spsc_size q) = unat c"
proof -
  have eq: "q_tail q + 1 - q_head q = spsc_size q + 1" by (simp add: spsc_size_def)
  have "unat (spsc_size q + 1) = unat (spsc_size q) + 1"
    using assms by (intro unat_inc_size) (auto simp: spsc_inv_def)
  then show ?thesis using assms unfolding eq by (auto simp: word_less_nat_alt spsc_inv_def)
qed

lemma spsc_tail_index: "ring_index c (q_tail q) = ring_index c (q_head q + of_nat (unat (spsc_size q)))"
  by (simp add: spsc_size_def)

text \<open>Writing a slot, advancing the head and advancing the tail, seen from the head of the queue.\<close>

lemma spsc_slot_update:
  assumes "is_pow2 c" and "length (q_buffer q) = unat c" and "i < unat c" and "j < unat c"
  shows "spsc_slot c (q\<lparr> q_buffer := (q_buffer q)[ring_index c (q_head q + of_nat j) := v] \<rparr>) i =
    (if i = j then v else spsc_slot c q i)"
  using assms by (simp add: spsc_slot_def ring_at_update)

lemma spsc_slot_advance:
  assumes "is_pow2 c" and "i < unat c"
  shows "spsc_slot c (q\<lparr> q_head := q_head q + 1 \<rparr>) i =
    (if Suc i < unat c then spsc_slot c q (Suc i) else spsc_slot c q 0)"
  using assms by (simp add: spsc_slot_def ring_at_advance)

lemma spsc_slot_tail [simp]: "spsc_slot c (q\<lparr> q_tail := t \<rparr>) i = spsc_slot c q i"
  by (simp add: spsc_slot_def ring_at_def)

lemma spsc_size_updates [simp]:
  "spsc_size (q\<lparr> q_buffer := b \<rparr>) = spsc_size q"
  "spsc_size (q\<lparr> q_tail := q_tail q + 1 \<rparr>) = spsc_size q + 1"
  "spsc_size (q\<lparr> q_head := q_head q + 1 \<rparr>) = spsc_size q - 1"
  by (simp_all add: spsc_size_def)

lemma spsc_slot_push:
  assumes "spsc_inv c q" and "unat (spsc_size q) < unat c" and "i < unat c"
  shows "spsc_slot c (q\<lparr> q_buffer := (q_buffer q)[ring_index c (q_tail q) := Some x], q_tail := t' \<rparr>) i =
    (if i = unat (spsc_size q) then Some x else spsc_slot c q i)"
  using spsc_slot_update [of c q i "unat (spsc_size q)"] assms
  by (simp add: spsc_tail_index spsc_inv_def)

lemma spsc_slot_pop:
  assumes "spsc_inv c q" and "i < unat c"
  shows "spsc_slot c (q\<lparr> q_buffer := (q_buffer q)[ring_index c (q_head q) := None], q_head := q_head q + 1 \<rparr>) i =
    (if Suc i < unat c then spsc_slot c q (Suc i) else None)"
proof -
  let ?q = "q\<lparr> q_buffer := (q_buffer q)[ring_index c (q_head q) := None] \<rparr>"
  have "spsc_slot c ?q j = (if j = 0 then None else spsc_slot c q j)" if "j < unat c" for j
    using spsc_slot_update [of c q j 0] assms that by (auto simp: spsc_inv_def)
  then show ?thesis
    using spsc_slot_advance [of c i ?q] assms by (simp add: spsc_inv_def)
qed

lemma spsc_push_spec:
  assumes inv: "spsc_inv c q" and push: "spsc_emplace c x q = (b, q')"
  shows "spsc_inv c q' \<and> list_push (unat c) x (spsc_abs c q) = (b, spsc_abs c q')"
proof (cases "unat (spsc_size q) = unat c")
  case True
  then show ?thesis
    using inv push spsc_full_check [OF inv]
    by (auto simp: spsc_emplace_def Let_def list_push_def spsc_abs_def)
next
  case False
  with inv have room: "unat (spsc_size q) < unat c" by (auto simp: spsc_inv_def)
  let ?q = "q\<lparr> q_buffer := (q_buffer q)[ring_index c (q_tail q) := Some x], q_tail := q_tail q + 1 \<rparr>"
  have q': "b" "q' = ?q"
    using push False spsc_full_check [OF inv] by (auto simp: spsc_emplace_def Let_def)
  have "spsc_size ?q = spsc_size q + 1" by (simp add: spsc_size_def)
  then have size: "unat (spsc_size ?q) = unat (spsc_size q) + 1"
    using inv unat_inc_size [of c "spsc_size q"] by (simp add: spsc_inv_def)
  note slot = spsc_slot_push [OF inv room]
  have "spsc_inv c ?q"
    using inv room size slot by (auto simp: spsc_inv_def less_Suc_eq)
  moreover have "spsc_abs c ?q = spsc_abs c q @ [x]"
    using size slot room by (simp add: spsc_abs_def)
  moreover have "length (spsc_abs c q) < unat c" using room by (simp add: spsc_abs_def)
  ultimately show ?thesis using q' by (simp add: list_push_def)
qed

lemma spsc_pop_spec:
  assumes inv: "spsc_inv c q" and pop: "spsc_try_pop c q = (r, q')"
  shows "spsc_inv c q' \<and> list_pop (spsc_abs c q) = (r, spsc_abs c q')"
proof (cases "q_head q = q_tail q")
  case True
  then show ?thesis using inv pop by (auto simp: spsc_try_pop_def Let_def spsc_abs_def spsc_size_def)
next
  case False
  let ?q = "q\<lparr> q_buffer := (q_buffer q)[ring_index c (q_head q) := None], q_head := q_head q + 1 \<rparr>"
  have q': "r = spsc_slot c q 0" "q' = ?q"
    using pop False by (auto simp: spsc_try_pop_def Let_def spsc_slot_def ring_at_def)
  have nz: "spsc_size q \<noteq> 0" using False by (simp add: spsc_size_def)
  have "spsc_size ?q = spsc_size q - 1" by (simp add: spsc_size_def)
  then have size: "Suc (unat (spsc_size ?q)) = unat (spsc_size q)"
    using nz by (simp add: unat_minus_one unat_gt_0)
  note slot = spsc_slot_pop [OF inv]
  have "spsc_inv c ?q"
    using inv slot size by (auto simp: spsc_inv_def less_Suc_eq_le Suc_le_eq)
  moreover have "spsc_slot c q 0 \<noteq> None" and le: "unat (spsc_size q) \<le> unat c"
    using inv size by (auto simp: spsc_inv_def)
  moreover have "spsc_abs c q = the (spsc_slot c q 0) # spsc_abs c ?q"
    unfolding spsc_abs_def size [symmetric] map_upt_Suc using le slot by (simp flip: size)
  ultimately show ?thesis using q' by auto
qed

interpretation spsc: bounded_queue "unat c" "spsc_abs c" "spsc_inv c"
    "\<lambda>x q. Some (spsc_try_push c x q)" "\<lambda>q. Some (spsc_try_pop c q)"
  for c
proof unfold_locales
  fix q :: "'a spsc" and x
  assume inv: "spsc_inv c q"
  then show "length (spsc_abs c q) \<le> unat c" by (simp add: spsc_inv_def spsc_abs_def)
  show "\<exists>b q'. Some (spsc_try_push c x q) = Some (b, q') \<and> spsc_inv c q' \<and>
      list_push (unat c) x (spsc_abs c q) = (b, spsc_abs c q')"
    using spsc_push_spec [OF inv, of x] by (cases "spsc_try_push c x q") (simp add: spsc_try_push_def)
  show "\<exists>r q'. Some (spsc_try_pop c q) = Some (r, q') \<and> spsc_inv c q' \<and>
      list_pop (spsc_abs c q) = (r, spsc_abs c q')"
    using spsc_pop_spec [OF inv] by (cases "spsc_try_pop c q") simp
qed

text \<open>
  Used by one thread at a time the SPSC ring is a bounded FIFO list: any sequence of
  \<open>try_push\<close> and \<open>try_pop\<close> calls on a new queue gives the answers a list of at most
  \<open>Capacity\<close> elements gives, however often the 64-bit positions wrap around.
\<close>

theorem spsc_refines_fifo:
  assumes "spsc_capacity_ok c"
  shows "\<exists>q. run_ops (\<lambda>x q. Some (spsc_try_push c x q)) (\<lambda>q. Some (spsc_try_pop c q)) ops (spsc_new c) =
    Some (list_answers (unat c) ops [], q)"
  using spsc.run_refines [OF spsc_new_inv(1) [OF assms], of ops]
  by (auto simp: spsc_new_inv(2) [OF assms])

theorem spsc_refines_fifo_witness:
  "\<exists>q. run_ops (\<lambda>x q. Some (spsc_try_push 2 x q)) (\<lambda>q. Some (spsc_try_pop 2 q))
     [Push 1, Push 2, Push 3, Pop, Push (4::nat), Pop, Pop, Pop] (spsc_new 2) =
   Some ([Pushed True, Pushed True, Pushed False, Popped (Some 1), Pushed True, Popped (Some 2),
    Popped (Some 4), Popped None], q)"
  using spsc_refines_fifo [of 2 "[Push 1, Push 2, Push 3, Pop, Push (4::nat), Pop, Pop, Pop]"]
  by (simp add: spsc_capacity_ok_def list_push_def)

text \<open>
  C33. The destructor's drain loop ends on every queue the operations can produce, destroys
  exactly the queued elements in order, and leaves every slot as raw storage.
\<close>

theorem spsc_destroy_drains:
  assumes "spsc_inv c q"
  shows "\<exists>q'. spsc_destroy c q = Some (spsc_abs c q, q') \<and> spsc_empty q' \<and>
    q_buffer q' = replicate (unat c) None"
proof -
  from spsc.drain_all [OF assms] obtain q' where
    q': "drain (\<lambda>q. Some (spsc_try_pop c q)) q = Some (spsc_abs c q, q')" "spsc_inv c q'" "spsc_abs c q' = []"
    by blast
  then have size: "spsc_size q' = 0" by (simp add: spsc_abs_def unat_eq_zero)
  have "q_buffer q' ! j = None" if j: "j < unat c" for j
  proof -
    have "is_pow2 c" using q'(2) by (simp add: spsc_inv_def)
    from ring_index_surj [OF this j, of "q_head q'"]
    obtain i where i: "i < unat c" "ring_index c (q_head q' + of_nat i) = j" by blast
    then have "spsc_slot c q' i = None" using q'(2) size by (simp add: spsc_inv_def)
    with i show ?thesis by (simp add: spsc_slot_def ring_at_def)
  qed
  moreover have "length (q_buffer q') = unat c" using q'(2) by (simp add: spsc_inv_def)
  ultimately have "q_buffer q' = replicate (unat c) None" by (simp add: list_eq_iff_nth_eq)
  with q'(1) size show ?thesis by (simp add: spsc_destroy_def spsc_empty_def spsc_size_def)
qed

theorem spsc_destroy_drains_witness:
  "\<exists>q'. spsc_destroy 2 \<lparr> q_head = 3, q_tail = 4, q_buffer = [None, Some (7::nat)] \<rparr> = Some ([7], q') \<and>
    spsc_empty q' \<and> q_buffer q' = [None, None]"
proof -
  let ?q = "\<lparr> q_head = 3, q_tail = 4, q_buffer = [None, Some (7::nat)] \<rparr>"
  have "spsc_inv 2 ?q"
    by (auto simp: spsc_inv_def spsc_size_def spsc_slot_def ring_at_def ring_index_def is_pow2_def less_2_cases_iff)
  moreover have "spsc_abs 2 ?q = [7]"
    by (simp add: spsc_abs_def spsc_size_def spsc_slot_def ring_at_def ring_index_def)
  moreover have "replicate 2 (None :: nat option) = [None, None]" by (simp add: numeral_2_eq_2)
  ultimately show ?thesis using spsc_destroy_drains [of 2 ?q] by simp
qed

section \<open>One producer and one consumer\<close>

text \<open>
  The program counters name the values a call has loaded so far. \<open>P_Room\<close>: the full check
  passed; \<open>P_Built\<close>: the object is constructed but \<^verbatim>\<open>tail_\<close> not yet stored. \<open>C_Ready\<close>: the
  empty check passed; \<open>C_Moved\<close>: the object is moved out but \<^verbatim>\<open>head_\<close> not yet stored.
  \<open>pushed\<close> and \<open>popped\<close> record the values of the calls that returned successfully.
\<close>

datatype 'a producer = P_Idle | P_Loaded 'a size_t | P_Room 'a size_t | P_Built 'a size_t
datatype 'a consumer = C_Idle | C_Loaded size_t | C_Ready size_t | C_Moved size_t 'a

record 'a spsc_sys =
  ring :: "'a spsc"
  producer :: "'a producer"
  consumer :: "'a consumer"
  pushed :: "'a list"
  popped :: "'a list"

definition spsc_init :: "size_t \<Rightarrow> 'a spsc_sys \<Rightarrow> bool" where
  "spsc_init c s \<longleftrightarrow> spsc_capacity_ok c \<and> ring s = spsc_new c \<and>
     producer s = P_Idle \<and> consumer s = C_Idle \<and> pushed s = [] \<and> popped s = []"

inductive spsc_step :: "size_t \<Rightarrow> 'a spsc_sys \<Rightarrow> 'a spsc_sys \<Rightarrow> bool" for c where
  load_tail: "producer s = P_Idle \<Longrightarrow>
    spsc_step c s (s\<lparr> producer := P_Loaded x (q_tail (ring s)) \<rparr>)"
| full: "producer s = P_Loaded x t \<Longrightarrow> t + 1 - q_head (ring s) > c \<Longrightarrow>
    spsc_step c s (s\<lparr> producer := P_Idle \<rparr>)"
| room: "producer s = P_Loaded x t \<Longrightarrow> \<not> t + 1 - q_head (ring s) > c \<Longrightarrow>
    spsc_step c s (s\<lparr> producer := P_Room x t \<rparr>)"
| construct: "producer s = P_Room x t \<Longrightarrow>
    spsc_step c s (s\<lparr> producer := P_Built x t,
      ring := (ring s)\<lparr> q_buffer := (q_buffer (ring s))[ring_index c t := Some x] \<rparr> \<rparr>)"
| store_tail: "producer s = P_Built x t \<Longrightarrow>
    spsc_step c s (s\<lparr> producer := P_Idle, pushed := pushed s @ [x],
      ring := (ring s)\<lparr> q_tail := t + 1 \<rparr> \<rparr>)"
| load_head: "consumer s = C_Idle \<Longrightarrow>
    spsc_step c s (s\<lparr> consumer := C_Loaded (q_head (ring s)) \<rparr>)"
| empty: "consumer s = C_Loaded h \<Longrightarrow> h = q_tail (ring s) \<Longrightarrow>
    spsc_step c s (s\<lparr> consumer := C_Idle \<rparr>)"
| ready: "consumer s = C_Loaded h \<Longrightarrow> h \<noteq> q_tail (ring s) \<Longrightarrow>
    spsc_step c s (s\<lparr> consumer := C_Ready h \<rparr>)"
| move_out: "consumer s = C_Ready h \<Longrightarrow> q_buffer (ring s) ! ring_index c h = Some x \<Longrightarrow>
    spsc_step c s (s\<lparr> consumer := C_Moved h x,
      ring := (ring s)\<lparr> q_buffer := (q_buffer (ring s))[ring_index c h := None] \<rparr> \<rparr>)"
| store_head: "consumer s = C_Moved h x \<Longrightarrow>
    spsc_step c s (s\<lparr> consumer := C_Idle, popped := popped s @ [x],
      ring := (ring s)\<lparr> q_head := h + 1 \<rparr> \<rparr>)"

text \<open>What each slot holds, counted from the head, in terms of the histories and the counters.\<close>

fun built :: "'a producer \<Rightarrow> 'a option" where
  "built (P_Built x t) = Some x"
| "built _ = None"

fun moved :: "'a consumer \<Rightarrow> bool" where
  "moved (C_Moved h x) = True"
| "moved _ = False"

definition spsc_view :: "nat \<Rightarrow> 'a spsc_sys \<Rightarrow> nat \<Rightarrow> 'a option" where
  "spsc_view n s i =
     (if i < n then if i = 0 \<and> moved (consumer s) then None else Some (pushed s ! (length (popped s) + i))
      else if i = n then built (producer s) else None)"

definition producer_ok :: "size_t \<Rightarrow> 'a spsc_sys \<Rightarrow> bool" where
  "producer_ok c s \<longleftrightarrow> (case producer s of
      P_Idle \<Rightarrow> True
    | P_Loaded x t \<Rightarrow> t = q_tail (ring s)
    | P_Room x t \<Rightarrow> t = q_tail (ring s) \<and> unat (spsc_size (ring s)) < unat c
    | P_Built x t \<Rightarrow> t = q_tail (ring s) \<and> unat (spsc_size (ring s)) < unat c)"

definition consumer_ok :: "'a spsc_sys \<Rightarrow> bool" where
  "consumer_ok s \<longleftrightarrow> (case consumer s of
      C_Idle \<Rightarrow> True
    | C_Loaded h \<Rightarrow> h = q_head (ring s)
    | C_Ready h \<Rightarrow> h = q_head (ring s) \<and> 0 < unat (spsc_size (ring s))
    | C_Moved h x \<Rightarrow> h = q_head (ring s) \<and> 0 < unat (spsc_size (ring s)) \<and>
        x = pushed s ! length (popped s))"

definition spsc_sinv :: "size_t \<Rightarrow> 'a spsc_sys \<Rightarrow> bool" where
  "spsc_sinv c s \<longleftrightarrow> (let n = unat (spsc_size (ring s)) in
     is_pow2 c \<and> length (q_buffer (ring s)) = unat c \<and> n \<le> unat c \<and>
     length (pushed s) = length (popped s) + n \<and> popped s = take (length (popped s)) (pushed s) \<and>
     (\<forall>i < unat c. spsc_slot c (ring s) i = spsc_view n s i) \<and> producer_ok c s \<and> consumer_ok s)"

lemma spsc_sinv_init: "spsc_init c s \<Longrightarrow> spsc_sinv c s"
  by (auto simp: spsc_init_def spsc_sinv_def Let_def spsc_new_def spsc_size_def spsc_slot_def ring_at_def
      spsc_view_def producer_ok_def consumer_ok_def spsc_capacity_ok_iff ring_index_less)

lemma spsc_sinv_construct:
  assumes inv: "spsc_sinv c s" and pc: "producer s = P_Room x t"
  shows "spsc_sinv c (s\<lparr> producer := P_Built x t,
    ring := (ring s)\<lparr> q_buffer := (q_buffer (ring s))[ring_index c t := Some x] \<rparr> \<rparr>)"
proof -
  have t: "t = q_tail (ring s)" and room: "unat (spsc_size (ring s)) < unat c"
    using inv pc by (auto simp: spsc_sinv_def Let_def producer_ok_def)
  show ?thesis
    using inv pc room spsc_slot_update [OF _ _ _ room, of "ring s"] t
    by (auto simp: spsc_sinv_def Let_def producer_ok_def consumer_ok_def spsc_view_def spsc_tail_index
        split: consumer.splits)
qed

lemma spsc_sinv_store_tail:
  assumes inv: "spsc_sinv c s" and pc: "producer s = P_Built x t"
  shows "spsc_sinv c (s\<lparr> producer := P_Idle, pushed := pushed s @ [x],
    ring := (ring s)\<lparr> q_tail := t + 1 \<rparr> \<rparr>)"
proof -
  have t: "t = q_tail (ring s)" and room: "unat (spsc_size (ring s)) < unat c"
    using inv pc by (auto simp: spsc_sinv_def Let_def producer_ok_def)
  have n: "unat (spsc_size (ring s) + 1) = unat (spsc_size (ring s)) + 1"
    using inv by (intro unat_inc_size) (auto simp: spsc_sinv_def Let_def)
  show ?thesis
    using inv pc room t n
    by (auto simp: spsc_sinv_def Let_def producer_ok_def consumer_ok_def spsc_view_def nth_append
        less_Suc_eq split: consumer.splits)
qed

lemma spsc_sinv_move_out:
  assumes inv: "spsc_sinv c s" and pc: "consumer s = C_Ready h"
    and x: "q_buffer (ring s) ! ring_index c h = Some x"
  shows "spsc_sinv c (s\<lparr> consumer := C_Moved h x,
    ring := (ring s)\<lparr> q_buffer := (q_buffer (ring s))[ring_index c h := None] \<rparr> \<rparr>)"
proof -
  have h: "h = q_head (ring s)" and pos: "0 < unat (spsc_size (ring s))" "0 < unat c"
    using inv pc by (auto simp: spsc_sinv_def Let_def consumer_ok_def)
  have "spsc_slot c (ring s) 0 = Some x" using x h by (simp add: spsc_slot_def ring_at_def)
  then show ?thesis
    using inv pc pos spsc_slot_update [OF _ _ _ pos(2), of "ring s"] h
    by (auto simp: spsc_sinv_def Let_def producer_ok_def consumer_ok_def spsc_view_def
        split: producer.splits)
qed

lemma spsc_sinv_store_head:
  assumes inv: "spsc_sinv c s" and pc: "consumer s = C_Moved h x"
  shows "spsc_sinv c (s\<lparr> consumer := C_Idle, popped := popped s @ [x],
    ring := (ring s)\<lparr> q_head := h + 1 \<rparr> \<rparr>)"
proof -
  have h: "h = q_head (ring s)" and pos: "0 < unat (spsc_size (ring s))"
    and x: "x = pushed s ! length (popped s)"
    using inv pc by (auto simp: spsc_sinv_def Let_def consumer_ok_def)
  have n: "unat (spsc_size (ring s)) = Suc (unat (spsc_size (ring s) - 1))"
    using pos by (simp add: unat_minus_one unat_gt_0)
  have "take (Suc (length (popped s))) (pushed s) = popped s @ [x]"
    using inv pos x by (simp add: spsc_sinv_def Let_def take_Suc_conv_app_nth)
  then show ?thesis
    using inv pc pos n h spsc_slot_advance [of c _ "ring s"]
    by (auto simp: spsc_sinv_def Let_def producer_ok_def consumer_ok_def spsc_view_def
        split: producer.splits)
qed

lemma spsc_sinv_check:
  assumes "spsc_sinv c s" and "\<not> q_tail (ring s) + 1 - q_head (ring s) > c"
  shows "unat (spsc_size (ring s)) < unat c"
proof -
  have "q_tail (ring s) + 1 - q_head (ring s) = spsc_size (ring s) + 1" by (simp add: spsc_size_def)
  moreover have "unat (spsc_size (ring s) + 1) = unat (spsc_size (ring s)) + 1"
    using assms(1) by (intro unat_inc_size) (auto simp: spsc_sinv_def Let_def)
  ultimately show ?thesis using assms(2) by (simp only: word_less_nat_alt)
qed

lemma spsc_sinv_producer:
  "spsc_sinv c s \<Longrightarrow> built (producer s) = None \<Longrightarrow> built p = None \<Longrightarrow>
    producer_ok c (s\<lparr> producer := p \<rparr>) \<Longrightarrow> spsc_sinv c (s\<lparr> producer := p \<rparr>)"
  by (auto simp: spsc_sinv_def Let_def spsc_view_def consumer_ok_def split: consumer.splits)

lemma spsc_sinv_consumer:
  "spsc_sinv c s \<Longrightarrow> \<not> moved (consumer s) \<Longrightarrow> \<not> moved p \<Longrightarrow>
    consumer_ok (s\<lparr> consumer := p \<rparr>) \<Longrightarrow> spsc_sinv c (s\<lparr> consumer := p \<rparr>)"
  by (auto simp: spsc_sinv_def Let_def spsc_view_def producer_ok_def split: producer.splits)

lemma spsc_sinv_step: "spsc_sinv c s \<Longrightarrow> spsc_step c s s' \<Longrightarrow> spsc_sinv c s'"
proof (erule spsc_step.cases, goal_cases)
  case (3 s1 x t)
  then have "t = q_tail (ring s)" by (simp add: spsc_sinv_def Let_def producer_ok_def)
  with 3 show ?case by (simp add: spsc_sinv_producer producer_ok_def spsc_sinv_check)
next
  case (8 s1 h)
  then have "h = q_head (ring s)" by (simp add: spsc_sinv_def Let_def consumer_ok_def)
  with 8 have "spsc_size (ring s) \<noteq> 0" by (auto simp: spsc_size_def)
  with 8 \<open>h = q_head (ring s)\<close> show ?case
    by (simp add: spsc_sinv_consumer consumer_ok_def unat_gt_0)
qed (simp_all add: spsc_sinv_construct spsc_sinv_store_tail spsc_sinv_move_out spsc_sinv_store_head
    spsc_sinv_producer spsc_sinv_consumer producer_ok_def consumer_ok_def)

interpretation spsc_run: inductive_invariant "spsc_init c" "spsc_step c" "spsc_sinv c" for c
  by unfold_locales (auto intro: spsc_sinv_init spsc_sinv_step)

text \<open>
  With one producer and one consumer running concurrently, in every reachable state the
  values popped so far are the first values pushed, in order, at most \<open>Capacity\<close> pushed values
  are still queued, the slot about to be constructed holds no object, and the slot about to be
  moved from holds the oldest queued value.
\<close>

theorem spsc_concurrent_fifo:
  assumes "reach (spsc_init c) (spsc_step c) s"
  shows "popped s = take (length (popped s)) (pushed s) \<and>
    length (pushed s) \<le> length (popped s) + unat c \<and>
    (\<forall>x t. producer s = P_Room x t \<longrightarrow> q_buffer (ring s) ! ring_index c t = None) \<and>
    (\<forall>h. consumer s = C_Ready h \<longrightarrow>
      q_buffer (ring s) ! ring_index c h = Some (pushed s ! length (popped s)))"
proof (intro conjI allI impI)
  have inv: "spsc_sinv c s" using assms by (rule spsc_run.reach_inv)
  then show "popped s = take (length (popped s)) (pushed s)"
    and "length (pushed s) \<le> length (popped s) + unat c"
    by (simp_all add: spsc_sinv_def Let_def)
  fix x t
  assume "producer s = P_Room x t"
  with inv have "t = q_tail (ring s)" "spsc_slot c (ring s) (unat (spsc_size (ring s))) = None"
    by (auto simp: spsc_sinv_def Let_def producer_ok_def spsc_view_def)
  then show "q_buffer (ring s) ! ring_index c t = None" by (simp add: spsc_slot_def ring_at_def spsc_tail_index)
next
  fix h
  assume "consumer s = C_Ready h"
  with spsc_run.reach_inv [OF assms] have "h = q_head (ring s)"
    and "spsc_slot c (ring s) 0 = Some (pushed s ! length (popped s))"
    by (auto simp: spsc_sinv_def Let_def consumer_ok_def spsc_view_def)
  then show "q_buffer (ring s) ! ring_index c h = Some (pushed s ! length (popped s))"
    by (simp add: spsc_slot_def ring_at_def)
qed

lemma spsc_reach_room:
  "reach (spsc_init 2) (spsc_step 2)
    \<lparr> ring = spsc_new 2, producer = P_Room (5::nat) 0, consumer = C_Idle, pushed = [], popped = [] \<rparr>"
proof -
  let ?s = "\<lparr> ring = spsc_new 2 :: nat spsc, producer = P_Idle, consumer = C_Idle, pushed = [], popped = [] \<rparr>"
  have "spsc_init 2 ?s" by (simp add: spsc_init_def spsc_capacity_ok_def)
  then have "reach (spsc_init 2) (spsc_step 2) ?s" by (rule reach_init)
  then have "reach (spsc_init 2) (spsc_step 2) (?s\<lparr> producer := P_Loaded 5 (q_tail (ring ?s)) \<rparr>)"
    by (rule reach_step) (rule load_tail, simp)
  then have "reach (spsc_init 2) (spsc_step 2)
      (?s\<lparr> producer := P_Loaded 5 (q_tail (ring ?s)) \<rparr>\<lparr> producer := P_Room 5 0 \<rparr>)"
    by (rule reach_step) (rule room, simp_all add: spsc_new_def)
  then show ?thesis by simp
qed

theorem spsc_concurrent_fifo_witness: "q_buffer (spsc_new 2 :: nat spsc) ! ring_index 2 0 = None"
  using spsc_concurrent_fifo [OF spsc_reach_room] by simp

end
