(* ===== verification/Release_Acquire.thy ===== *)
theory Release_Acquire
  imports Prelude
begin

text \<open>
  A memory in which the orders \<^verbatim>\<open>memory_order_relaxed\<close>, \<^verbatim>\<open>acquire\<close> and \<^verbatim>\<open>release\<close> of \<^verbatim>\<open>std::atomic\<close> make a difference, for code in which a thread
  stores to an atomic variable only when it has seen the latest store to it: the variable has one writer, or the store is a compare-and-swap or ordered after the latest store by other means. The stores to a variable form its modification order; a load may return any of them that is not older than the one the thread has read from that
  variable before, so that what a thread sees of different variables need not fit together. Every thread has a vector clock that counts, for every thread,
  the accesses to ordinary memory that happened before its next action; a release store attaches the clock of its thread to the stored value, and an acquire load adds the clock it finds there to its own.
  The language forbids more (a load after an acquire cannot return what the releasing thread knew to be overwritten), so that what holds here holds there.
\<close>

section \<open>Atomic variables and ordinary memory\<close>

type_synonym vclock = "nat \<Rightarrow> nat"

record ('l, 'v, 'x) ra_memory =
  stores :: "'l \<Rightarrow> ('v \<times> vclock) list"
  seen :: "nat \<Rightarrow> 'l \<Rightarrow> nat"
  clock :: "nat \<Rightarrow> vclock"
  touched :: "'x \<Rightarrow> vclock"

definition ra_new :: "('l \<Rightarrow> 'v) \<Rightarrow> ('l, 'v, 'x) ra_memory" where
  "ra_new init = \<lparr> stores = (\<lambda>l. [(init l, \<lambda>u. 0)]), seen = (\<lambda>t l. 0), clock = (\<lambda>t u. 0), touched = (\<lambda>x u. 0) \<rparr>"

text \<open>Store number \<open>i\<close> of the variable \<open>l\<close> can be what thread \<open>t\<close> reads.\<close>

definition readable :: "nat \<Rightarrow> 'l \<Rightarrow> nat \<Rightarrow> ('l, 'v, 'x) ra_memory \<Rightarrow> bool" where
  "readable t l i m \<longleftrightarrow> seen m t l \<le> i \<and> i < length (stores m l)"

definition value_at :: "'l \<Rightarrow> nat \<Rightarrow> ('l, 'v, 'x) ra_memory \<Rightarrow> 'v" where
  "value_at l i m = fst (stores m l ! i)"

datatype memory_order = Relaxed | Acquire | Release

definition ra_load :: "memory_order \<Rightarrow> nat \<Rightarrow> 'l \<Rightarrow> nat \<Rightarrow> ('l, 'v, 'x) ra_memory \<Rightarrow> ('l, 'v, 'x) ra_memory" where
  "ra_load ord t l i m = m\<lparr> seen := (seen m)(t := (seen m t)(l := i)),
     clock := (if ord = Acquire then (clock m)(t := (\<lambda>u. max (clock m t u) (snd (stores m l ! i) u))) else clock m) \<rparr>"

definition ra_store :: "memory_order \<Rightarrow> nat \<Rightarrow> 'l \<Rightarrow> 'v \<Rightarrow> ('l, 'v, 'x) ra_memory \<Rightarrow> ('l, 'v, 'x) ra_memory" where
  "ra_store ord t l v m = m\<lparr> stores := (stores m)(l := stores m l @ [(v, if ord = Release then clock m t else (\<lambda>u. 0))]),
     seen := (seen m)(t := (seen m t)(l := length (stores m l))) \<rparr>"

text \<open>
  An access to the ordinary memory cell \<open>x\<close>. It is \<open>ordered\<close> when every earlier access of another thread to the cell happened before; otherwise the two are a data race, which is undefined
  behaviour. All accesses count as conflicting.
\<close>

definition access :: "nat \<Rightarrow> 'x \<Rightarrow> ('l, 'v, 'x) ra_memory \<Rightarrow> ('l, 'v, 'x) ra_memory" where
  "access t x m = m\<lparr> clock := (clock m)(t := (clock m t)(t := clock m t t + 1)), touched := (touched m)(x := (touched m x)(t := clock m t t + 1)) \<rparr>"

definition ordered :: "nat \<Rightarrow> 'x \<Rightarrow> ('l, 'v, 'x) ra_memory \<Rightarrow> bool" where
  "ordered t x m \<longleftrightarrow> (\<forall>u. u \<noteq> t \<longrightarrow> touched m x u \<le> clock m t u)"

named_theorems ra_frame \<open>the effect of the operations on the fields of the memory\<close>

lemma ra_load_frame [ra_frame]:
  "stores (ra_load ord t l i m) = stores m" "touched (ra_load ord t l i m) = touched m"
  "seen (ra_load ord t l i m) = (seen m)(t := (seen m t)(l := i))"
  "clock (ra_load Relaxed t l i m) = clock m"
  "clock (ra_load Acquire t l i m) = (clock m)(t := (\<lambda>u. max (clock m t u) (snd (stores m l ! i) u)))"
  by (simp_all add: ra_load_def)

lemma ra_store_frame [ra_frame]:
  "stores (ra_store Release t l v m) = (stores m)(l := stores m l @ [(v, clock m t)])" "touched (ra_store ord t l v m) = touched m"
  "seen (ra_store ord t l v m) = (seen m)(t := (seen m t)(l := length (stores m l)))" "clock (ra_store ord t l v m) = clock m"
  by (simp_all add: ra_store_def)

lemma access_frame [ra_frame]:
  "stores (access t x m) = stores m" "seen (access t x m) = seen m"
  "clock (access t x m) = (clock m)(t := (clock m t)(t := clock m t t + 1))"
  "touched (access t x m) = (touched m)(x := (touched m x)(t := clock m t t + 1))"
  by (simp_all add: access_def)

text \<open>No thread knows of more accesses of another thread than that thread has made.\<close>

definition clocks_ok :: "('l, 'v, 'x) ra_memory \<Rightarrow> bool" where
  "clocks_ok m \<longleftrightarrow> (\<forall>t u. clock m t u \<le> clock m u u) \<and> (\<forall>l i u. i < length (stores m l) \<longrightarrow> snd (stores m l ! i) u \<le> clock m u u)"

lemma clocks_okD:
  assumes "clocks_ok m"
  shows "clock m t u \<le> clock m u u" "i < length (stores m l) \<Longrightarrow> snd (stores m l ! i) u \<le> clock m u u"
  using assms by (simp_all add: clocks_ok_def)

lemma clocks_ok_new: "clocks_ok (ra_new init)"
  by (simp add: clocks_ok_def ra_new_def)

text \<open>A load leaves the own component of a clock as it is.\<close>

lemma load_own_clock:
  assumes "clocks_ok m" "readable t l i m"
  shows "clock (ra_load ord t l i m) u u = clock m u u"
  using clocks_okD(2) [OF assms(1), of i l t] assms(2) by (auto simp: ra_load_def readable_def)

lemma clocks_ok_load:
  assumes "clocks_ok m" "readable t l i m"
  shows "clocks_ok (ra_load ord t l i m)"
proof -
  have "clock (ra_load ord t l i m) v u \<le> clock m u u" for v u
    using clocks_okD(1) [OF assms(1)] clocks_okD(2) [OF assms(1), of i l u] assms(2) by (auto simp: ra_load_def readable_def)
  then show ?thesis using clocks_okD(2) [OF assms(1)] unfolding clocks_ok_def load_own_clock [OF assms] ra_load_frame(1) by blast
qed

lemma clocks_ok_store: "clocks_ok m \<Longrightarrow> clocks_ok (ra_store ord t l v m)"
  by (auto simp: clocks_ok_def ra_store_def nth_append)

lemma clocks_ok_access: "clocks_ok m \<Longrightarrow> clocks_ok (access t x m)"
  by (auto simp: clocks_ok_def access_def intro: le_SucI)

end
