(* ===== verification/Spsc_Weak.thy ===== *)
theory Spsc_Weak
  imports "HOL-Library.Sublist" Spsc Release_Acquire
begin

text \<open>
  \<^verbatim>\<open>concurrency/spsc_queue.hpp\<close> under the memory orders that it asks for: the loads of the own index are relaxed, those of the other thread's index acquire,
  the stores release. The elements are ordinary memory. The theory shows that these orders are enough: loads may return
  stale indices, and still no slot is accessed by both threads without an order between the accesses.
\<close>

section \<open>The steps\<close>

text \<open>The atomic variables are \<^verbatim>\<open>head_\<close> and \<^verbatim>\<open>tail_\<close>, the ordinary cells are the slots. Program counters are those of \<open>Spsc\<close>.\<close>

datatype ring_var = Head | Tail

abbreviation (input) P_Thread :: nat where "P_Thread \<equiv> 0"
abbreviation (input) C_Thread :: nat where "C_Thread \<equiv> 1"

record 'a weak_sys =
  memory :: "(ring_var, size_t, nat) ra_memory"
  buffer :: "'a option list"
  w_producer :: "'a producer"
  w_consumer :: "'a consumer"
  w_pushed :: "'a list"
  w_popped :: "'a list"

definition weak_init :: "size_t \<Rightarrow> 'a weak_sys \<Rightarrow> bool" where
  "weak_init c s \<longleftrightarrow> spsc_capacity_ok c \<and> s = \<lparr> memory = ra_new (\<lambda>v. 0), buffer = replicate (unat c) None,
     w_producer = P_Idle, w_consumer = C_Idle, w_pushed = [], w_popped = [] \<rparr>"

inductive producer_step :: "size_t \<Rightarrow> 'a weak_sys \<Rightarrow> 'a weak_sys \<Rightarrow> bool" for c where
  w_load_tail: "w_producer s = P_Idle \<Longrightarrow> readable P_Thread Tail i (memory s) \<Longrightarrow> producer_step c s
    (s\<lparr> memory := ra_load Relaxed P_Thread Tail i (memory s), w_producer := P_Loaded x (value_at Tail i (memory s)) \<rparr>)"
| w_full: "w_producer s = P_Loaded x t \<Longrightarrow> readable P_Thread Head i (memory s) \<Longrightarrow> t + 1 - value_at Head i (memory s) > c \<Longrightarrow> producer_step c s
    (s\<lparr> memory := ra_load Acquire P_Thread Head i (memory s), w_producer := P_Idle \<rparr>)"
| w_room: "w_producer s = P_Loaded x t \<Longrightarrow> readable P_Thread Head i (memory s) \<Longrightarrow> \<not> t + 1 - value_at Head i (memory s) > c \<Longrightarrow> producer_step c s
    (s\<lparr> memory := ra_load Acquire P_Thread Head i (memory s), w_producer := P_Room x t \<rparr>)"
| w_construct: "w_producer s = P_Room x t \<Longrightarrow> producer_step c s
    (s\<lparr> memory := access P_Thread (ring_index c t) (memory s), buffer := (buffer s)[ring_index c t := Some x], w_producer := P_Built x t \<rparr>)"
| w_store_tail: "w_producer s = P_Built x t \<Longrightarrow> producer_step c s
    (s\<lparr> memory := ra_store Release P_Thread Tail (t + 1) (memory s), w_pushed := w_pushed s @ [x], w_producer := P_Idle \<rparr>)"

inductive consumer_step :: "size_t \<Rightarrow> 'a weak_sys \<Rightarrow> 'a weak_sys \<Rightarrow> bool" for c where
  w_load_head: "w_consumer s = C_Idle \<Longrightarrow> readable C_Thread Head i (memory s) \<Longrightarrow> consumer_step c s
    (s\<lparr> memory := ra_load Relaxed C_Thread Head i (memory s), w_consumer := C_Loaded (value_at Head i (memory s)) \<rparr>)"
| w_empty: "w_consumer s = C_Loaded h \<Longrightarrow> readable C_Thread Tail i (memory s) \<Longrightarrow> h = value_at Tail i (memory s) \<Longrightarrow> consumer_step c s
    (s\<lparr> memory := ra_load Acquire C_Thread Tail i (memory s), w_consumer := C_Idle \<rparr>)"
| w_ready: "w_consumer s = C_Loaded h \<Longrightarrow> readable C_Thread Tail i (memory s) \<Longrightarrow> h \<noteq> value_at Tail i (memory s) \<Longrightarrow> consumer_step c s
    (s\<lparr> memory := ra_load Acquire C_Thread Tail i (memory s), w_consumer := C_Ready h \<rparr>)"
| w_move_out: "w_consumer s = C_Ready h \<Longrightarrow> buffer s ! ring_index c h = Some x \<Longrightarrow> consumer_step c s
    (s\<lparr> memory := access C_Thread (ring_index c h) (memory s), buffer := (buffer s)[ring_index c h := None], w_consumer := C_Moved h x \<rparr>)"
| w_store_head: "w_consumer s = C_Moved h x \<Longrightarrow> consumer_step c s
    (s\<lparr> memory := ra_store Release C_Thread Head (h + 1) (memory s), w_popped := w_popped s @ [x], w_consumer := C_Idle \<rparr>)"

definition weak_step :: "size_t \<Rightarrow> 'a weak_sys \<Rightarrow> 'a weak_sys \<Rightarrow> bool" where
  "weak_step c s s' \<longleftrightarrow> producer_step c s s' \<or> consumer_step c s s'"

section \<open>The invariant\<close>

text \<open>What the threads have constructed and moved out so far; the last one may not yet be announced.\<close>

fun built_now :: "'a producer \<Rightarrow> 'a list" where
  "built_now (P_Built x t) = [x]"
| "built_now _ = []"

fun moved_now :: "'a consumer \<Rightarrow> 'a list" where
  "moved_now (C_Moved h x) = [x]"
| "moved_now _ = []"

definition made :: "'a weak_sys \<Rightarrow> 'a list" where
  "made s = w_pushed s @ built_now (w_producer s)"

definition gone :: "'a weak_sys \<Rightarrow> 'a list" where
  "gone s = w_popped s @ moved_now (w_consumer s)"

text \<open>
  The variable \<open>v\<close> is written by thread \<open>t\<close>, which has announced \<open>n\<close> and made \<open>k\<close> accesses: store \<open>i\<close> has the value \<open>i\<close> and knows of the first \<open>i\<close> accesses. Thread
  \<open>u\<close> knows of as many accesses as it has read, and access number \<open>j\<close> was to slot \<open>j mod c\<close>.
\<close>

definition index_ok :: "size_t \<Rightarrow> (ring_var, size_t, nat) ra_memory \<Rightarrow> ring_var \<Rightarrow> nat \<Rightarrow> nat \<Rightarrow> nat \<Rightarrow> nat \<Rightarrow> bool" where
  "index_ok c m v t u n k \<longleftrightarrow> length (stores m v) = Suc n \<and> (\<forall>i \<le> n. value_at v i m = of_nat i \<and> i \<le> snd (stores m v ! i) t) \<and>
     seen m t v = n \<and> clock m t t = k \<and> seen m u v \<le> n \<and> seen m u v \<le> clock m u t \<and>
     (\<forall>x. touched m x t = 0 \<or> (\<exists>j < k. touched m x t = Suc j \<and> j mod unat c = x))"

definition producer_at :: "size_t \<Rightarrow> 'a producer \<Rightarrow> nat \<Rightarrow> nat \<Rightarrow> bool" where
  "producer_at c p n h \<longleftrightarrow> (case p of P_Idle \<Rightarrow> True | P_Loaded x t \<Rightarrow> t = of_nat n | P_Room x t \<Rightarrow> t = of_nat n \<and> n < h + unat c | P_Built x t \<Rightarrow> t = of_nat n)"

definition consumer_at :: "'a consumer \<Rightarrow> nat \<Rightarrow> nat \<Rightarrow> bool" where
  "consumer_at p n l \<longleftrightarrow> (case p of C_Idle \<Rightarrow> True | C_Loaded h \<Rightarrow> h = of_nat n | C_Ready h \<Rightarrow> h = of_nat n \<and> n < l | C_Moved h x \<Rightarrow> h = of_nat n)"

definition live :: "size_t \<Rightarrow> 'a list \<Rightarrow> nat \<Rightarrow> 'a option list \<Rightarrow> bool" where
  "live c xs k b \<longleftrightarrow> length b = unat c \<and> (\<forall>j. k \<le> j \<and> j < length xs \<longrightarrow> b ! (j mod unat c) = Some (xs ! j)) \<and>
     (\<forall>i < unat c. (\<forall>j. k \<le> j \<and> j < length xs \<longrightarrow> j mod unat c \<noteq> i) \<longrightarrow> b ! i = None)"

definition weak_inv :: "size_t \<Rightarrow> 'a weak_sys \<Rightarrow> bool" where
  "weak_inv c s \<longleftrightarrow> is_pow2 c \<and> clocks_ok (memory s) \<and>
     index_ok c (memory s) Tail P_Thread C_Thread (length (w_pushed s)) (length (made s)) \<and>
     index_ok c (memory s) Head C_Thread P_Thread (length (w_popped s)) (length (gone s)) \<and>
     length (made s) \<le> seen (memory s) P_Thread Head + unat c \<and> length (gone s) \<le> seen (memory s) C_Thread Tail \<and>
     (\<forall>x u. u \<notin> {P_Thread, C_Thread} \<longrightarrow> touched (memory s) x u = 0) \<and>
     producer_at c (w_producer s) (length (w_pushed s)) (seen (memory s) P_Thread Head) \<and>
     consumer_at (w_consumer s) (length (w_popped s)) (seen (memory s) C_Thread Tail) \<and>
     live c (made s) (length (gone s)) (buffer s) \<and> prefix (gone s) (w_pushed s)"

section \<open>Every step keeps it\<close>

lemma ring_index_of_nat: "is_pow2 c \<Longrightarrow> ring_index c (of_nat n) = n mod unat c"
  using ring_index_add [of c 0 n] by simp

lemma index_ok_load_own:
  assumes "index_ok c m v t u n k" "readable t v i m" "t \<noteq> u"
  shows "i = n" "index_ok c (ra_load Relaxed t v i m) v t u n k"
    "index_ok c m v' u t n' k' \<Longrightarrow> v' \<noteq> v \<Longrightarrow> index_ok c (ra_load Relaxed t v i m) v' u t n' k'"
proof -
  show "i = n" using assms(1,2) by (simp add: index_ok_def readable_def)
  then show "index_ok c (ra_load Relaxed t v i m) v t u n k"
    "index_ok c m v' u t n' k' \<Longrightarrow> v' \<noteq> v \<Longrightarrow> index_ok c (ra_load Relaxed t v i m) v' u t n' k'"
    using assms(1,3) by (simp_all add: index_ok_def ra_frame value_at_def)
qed

lemma index_ok_load_other:
  assumes "index_ok c m v t u n k" "readable u v i m" "t \<noteq> u" "clocks_ok m"
  shows "i \<le> n" "index_ok c (ra_load Acquire u v i m) v t u n k"
    "index_ok c m v' u t n' k' \<Longrightarrow> v' \<noteq> v \<Longrightarrow> index_ok c (ra_load Acquire u v i m) v' u t n' k'"
proof -
  have i: "i \<le> n" "i \<le> snd (stores m v ! i) t" using assms(1,2) by (auto simp: index_ok_def readable_def)
  then show "i \<le> n" by simp
  show "index_ok c (ra_load Acquire u v i m) v t u n k" using assms(1,3) i by (auto simp: index_ok_def ra_frame value_at_def)
  show "index_ok c (ra_load Acquire u v i m) v' u t n' k'" if "index_ok c m v' u t n' k'" "v' \<noteq> v"
  proof -
    have "clock (ra_load Acquire u v i m) u u = k'" using load_own_clock [OF assms(4,2)] that(1) by (simp add: index_ok_def)
    then show ?thesis using that assms(3) by (simp add: index_ok_def ra_frame value_at_def)
  qed
qed

lemma index_ok_access:
  assumes "index_ok c m v t u n k" "x = k mod unat c" "t \<noteq> u"
  shows "index_ok c (access t x m) v t u n (Suc k)" "index_ok c m v' u t n' k' \<Longrightarrow> index_ok c (access t x m) v' u t n' k'"
proof -
  have "touched (access t x m) y t = 0 \<or> (\<exists>j < Suc k. touched (access t x m) y t = Suc j \<and> j mod unat c = y)" for y
  proof (cases "y = x")
    case True
    then show ?thesis using assms by (auto simp: index_ok_def ra_frame)
  next
    case False
    then show ?thesis using assms(1) by (auto simp: index_ok_def ra_frame intro: less_SucI)
  qed
  then have "\<forall>y. touched (access t x m) y t = 0 \<or> (\<exists>j < Suc k. touched (access t x m) y t = Suc j \<and> j mod unat c = y)" by blast
  then show "index_ok c (access t x m) v t u n (Suc k)" using assms(1,3) by (simp add: index_ok_def access_frame(1-3) value_at_def)
  show "index_ok c m v' u t n' k' \<Longrightarrow> index_ok c (access t x m) v' u t n' k'" using assms(3) by (simp add: index_ok_def ra_frame value_at_def)
qed

lemma index_ok_store:
  assumes "index_ok c m v t u n (Suc n)" "w = of_nat n + 1" "t \<noteq> u"
  shows "index_ok c (ra_store Release t v w m) v t u (Suc n) (Suc n)"
    "index_ok c m v' u t n' k' \<Longrightarrow> v' \<noteq> v \<Longrightarrow> index_ok c (ra_store Release t v w m) v' u t n' k'"
proof -
  have "value_at v i (ra_store Release t v w m) = of_nat i \<and> i \<le> snd (stores (ra_store Release t v w m) v ! i) t" if "i \<le> Suc n" for i
    using assms(1,2) that by (cases "i = Suc n") (auto simp: index_ok_def ra_frame value_at_def nth_append)
  then show "index_ok c (ra_store Release t v w m) v t u (Suc n) (Suc n)" using assms(1,3) by (simp add: index_ok_def ra_frame)
  show "index_ok c m v' u t n' k' \<Longrightarrow> v' \<noteq> v \<Longrightarrow> index_ok c (ra_store Release t v w m) v' u t n' k'"
    using assms(3) by (simp add: index_ok_def ra_frame value_at_def)
qed

lemma unat_small_diff:
  fixes c :: size_t
  assumes "h \<le> n" "n \<le> h + unat c"
  shows "unat (of_nat n - of_nat h :: size_t) = n - h"
proof -
  have "n - h < 18446744073709551616" using assms unat_u64_less [of c] by simp
  then have "unat (of_nat (n - h) :: size_t) = n - h" by (simp only: unat_of_nat) simp
  then show ?thesis using assms(1) by (simp add: of_nat_diff)
qed

lemma room_check:
  fixes c :: size_t
  assumes "is_pow2 c" "h \<le> n" "n \<le> h + unat c"
  shows "of_nat n + 1 - of_nat h > c \<longleftrightarrow> h + unat c \<le> n"
proof -
  note d = unat_small_diff [OF assms(2,3)]
  have eq: "of_nat n + 1 - of_nat h = (of_nat n - of_nat h + 1 :: size_t)" by simp
  have "unat (of_nat n - of_nat h + 1 :: size_t) = n - h + 1" using unat_inc_size [OF assms(1), of "of_nat n - of_nat h"] assms(2,3) d by simp
  then show ?thesis using assms(2,3) unfolding eq word_less_nat_alt by auto
qed

lemma index_eq:
  fixes c :: size_t
  assumes "n \<le> j" "j \<le> n + unat c"
  shows "(of_nat n :: size_t) = of_nat j \<longleftrightarrow> n = j"
  using unat_small_diff [OF assms] assms(1) by auto

lemma live_push:
  assumes "live c xs k b" "length xs < k + unat c" "k \<le> length xs"
  shows "b ! (length xs mod unat c) = None" "live c (xs @ [x]) k (b[length xs mod unat c := Some x])"
proof -
  have c: "0 < unat c" using assms(2,3) by simp
  have other: "j mod unat c \<noteq> length xs mod unat c" if "k \<le> j" "j < length xs" for j
    using mod_gap [of j "unat c" "length xs"] that assms(2) by auto
  then show "b ! (length xs mod unat c) = None" using assms(1) c by (simp add: live_def)
  have len: "length b = unat c" using assms(1) by (simp add: live_def)
  have "b[length xs mod unat c := Some x] ! (j mod unat c) = Some ((xs @ [x]) ! j)" if "k \<le> j" "j < length (xs @ [x])" for j
  proof (cases "j = length xs")
    case True
    then show ?thesis using len c by simp
  next
    case False
    then have "j < length xs" using that(2) by simp
    then show ?thesis using other [OF that(1)] assms(1) that(1) by (simp add: live_def nth_append)
  qed
  moreover have "b[length xs mod unat c := Some x] ! i = None"
    if "i < unat c" "\<forall>j. k \<le> j \<and> j < length (xs @ [x]) \<longrightarrow> j mod unat c \<noteq> i" for i
  proof -
    have "length xs mod unat c \<noteq> i" using that(2) assms(3) by simp
    then show ?thesis using assms(1) that by (simp add: live_def)
  qed
  ultimately show "live c (xs @ [x]) k (b[length xs mod unat c := Some x])" using len by (simp add: live_def)
qed

lemma live_pop:
  assumes "live c xs k b" "length xs \<le> k + unat c" "k < length xs"
  shows "b ! (k mod unat c) = Some (xs ! k)" "live c xs (Suc k) (b[k mod unat c := None])"
proof -
  show "b ! (k mod unat c) = Some (xs ! k)" using assms(1,3) by (simp add: live_def)
  have other: "j mod unat c \<noteq> k mod unat c" if "Suc k \<le> j" "j < length xs" for j
    using mod_gap [of k "unat c" j] that assms(2) by auto
  have "b[k mod unat c := None] ! i = None" if "i < unat c" "\<forall>j. Suc k \<le> j \<and> j < length xs \<longrightarrow> j mod unat c \<noteq> i" for i
  proof (cases "i = k mod unat c")
    case False
    then have "\<forall>j. k \<le> j \<and> j < length xs \<longrightarrow> j mod unat c \<noteq> i" using that(2) by (metis Suc_leI le_neq_implies_less)
    then show ?thesis using assms(1) that(1) False by (simp add: live_def)
  qed (use that(1) assms(1) in \<open>simp add: live_def\<close>)
  moreover have "b[k mod unat c := None] ! (j mod unat c) = Some (xs ! j)" if "Suc k \<le> j" "j < length xs" for j
    using other [OF that] that assms(1) by (simp add: live_def)
  ultimately show "live c xs (Suc k) (b[k mod unat c := None])" using assms(1) by (simp add: live_def)
qed

lemma weak_invD:
  assumes "weak_inv c s"
  shows "is_pow2 c" "clocks_ok (memory s)" "index_ok c (memory s) Tail P_Thread C_Thread (length (w_pushed s)) (length (made s))"
    "index_ok c (memory s) Head C_Thread P_Thread (length (w_popped s)) (length (gone s))"
    "length (made s) \<le> seen (memory s) P_Thread Head + unat c" "length (gone s) \<le> seen (memory s) C_Thread Tail"
    "u \<notin> {P_Thread, C_Thread} \<Longrightarrow> touched (memory s) x u = 0"
    "producer_at c (w_producer s) (length (w_pushed s)) (seen (memory s) P_Thread Head)"
    "consumer_at (w_consumer s) (length (w_popped s)) (seen (memory s) C_Thread Tail)"
    "live c (made s) (length (gone s)) (buffer s)" "prefix (gone s) (w_pushed s)"
  using assms unfolding weak_inv_def by blast+

text \<open>How far the threads are apart.\<close>

lemma weak_bounds:
  assumes "weak_inv c s"
  shows "seen (memory s) P_Thread Head \<le> length (w_popped s)" "seen (memory s) C_Thread Tail \<le> length (w_pushed s)"
    "length (w_popped s) \<le> length (gone s)" "length (w_pushed s) \<le> length (made s)" "length (gone s) \<le> length (w_pushed s)"
    "length (made s) \<le> length (w_popped s) + unat c" "seen (memory s) P_Thread Tail = length (w_pushed s)" "seen (memory s) C_Thread Head = length (w_popped s)"
  using weak_invD(3-6) [OF assms] by (simp_all add: index_ok_def made_def gone_def)

lemma weak_producer:
  assumes inv: "weak_inv c s" and "producer_step c s s'"
  shows "weak_inv c s'"
proof -
  note I = weak_invD [OF inv] and B = weak_bounds [OF inv]
  show ?thesis
    using assms(2)
  proof cases
    case (w_load_tail i x)
    note L = index_ok_load_own [OF I(3) w_load_tail(3)]
    have "value_at Tail i (memory s) = of_nat (length (w_pushed s))" using I(3) L(1) by (simp add: index_ok_def)
    moreover have "made s' = made s" "gone s' = gone s" using w_load_tail(1,2) by (simp_all add: made_def gone_def)
    ultimately show ?thesis using I L(2) L(3) [OF _ I(4)] clocks_ok_load [OF I(2) w_load_tail(3), of Relaxed] w_load_tail(1,2) L(1) B(7)
      by (simp add: weak_inv_def ra_frame producer_at_def)
  next
    case (w_full x t i)
    note L = index_ok_load_other [OF I(4) w_full(3) _ I(2)]
    have "seen (memory s) P_Thread Head \<le> i" using w_full(3) by (simp add: readable_def)
    moreover have "made s' = made s" "gone s' = gone s" using w_full(1,2) by (simp_all add: made_def gone_def)
    ultimately show ?thesis using I L(2) L(3) [OF _ I(3)] clocks_ok_load [OF I(2) w_full(3), of Acquire] w_full(1,2)
      by (simp add: weak_inv_def ra_frame producer_at_def)
  next
    case (w_room x t i)
    note L = index_ok_load_other [OF I(4) w_room(3) _ I(2)]
    have i: "seen (memory s) P_Thread Head \<le> i" "i \<le> length (w_popped s)" using w_room(3) L(1) by (simp_all add: readable_def)
    have "value_at Head i (memory s) = of_nat i" "t = of_nat (length (w_pushed s))" using I(4,8) i(2) w_room(2) by (simp_all add: index_ok_def producer_at_def)
    then have "length (w_pushed s) < i + unat c"
      using room_check [OF I(1), of i "length (w_pushed s)"] w_room(4) i I(5) B by (simp add: made_def w_room(2))
    moreover have "made s' = made s" "gone s' = gone s" using w_room(1,2) by (simp_all add: made_def gone_def)
    ultimately show ?thesis using I L(2) L(3) [OF _ I(3)] clocks_ok_load [OF I(2) w_room(3), of Acquire] w_room(1,2) i(1)
      by (simp add: weak_inv_def ra_frame producer_at_def)
  next
    case (w_construct x t)
    have m: "made s = w_pushed s" "t = of_nat (length (w_pushed s))" "length (w_pushed s) < seen (memory s) P_Thread Head + unat c"
      using w_construct(2) I(8) by (simp_all add: made_def producer_at_def)
    have r: "ring_index c t = length (made s) mod unat c" using ring_index_of_nat [OF I(1)] m by simp
    note A = index_ok_access [OF I(3) r]
    have "live c (made s @ [x]) (length (gone s)) (buffer s') "
      using live_push(2) [OF I(10), of x] m B w_construct(1) r by simp
    moreover have "made s' = made s @ [x]" "gone s' = gone s" using w_construct(1) m(1) by (simp_all add: made_def gone_def)
    ultimately show ?thesis using I A(1) A(2) [OF _ I(4)] clocks_ok_access [OF I(2)] m w_construct(1)
      by (simp add: weak_inv_def ra_frame producer_at_def)
  next
    case (w_store_tail x t)
    have m: "made s = w_pushed s @ [x]" "t = of_nat (length (w_pushed s))" using w_store_tail(2) I(8) by (simp_all add: made_def producer_at_def)
    have "index_ok c (memory s) Tail P_Thread C_Thread (length (w_pushed s)) (Suc (length (w_pushed s)))" "t + 1 = of_nat (length (w_pushed s)) + 1"
      using I(3) m by simp_all
    note S = index_ok_store [OF this]
    have "made s' = made s" "gone s' = gone s" "w_pushed s' = made s" using w_store_tail(1) m(1) by (simp_all add: made_def gone_def)
    then show ?thesis using I S(1) S(2) [OF _ I(4)] clocks_ok_store [OF I(2)] m w_store_tail(1) B(5)
      by (simp add: weak_inv_def ra_frame producer_at_def)
  qed
qed

lemma weak_consumer:
  assumes inv: "weak_inv c s" and "consumer_step c s s'"
  shows "weak_inv c s'"
proof -
  note I = weak_invD [OF inv] and B = weak_bounds [OF inv]
  show ?thesis
    using assms(2)
  proof cases
    case (w_load_head i)
    note L = index_ok_load_own [OF I(4) w_load_head(3)]
    have "value_at Head i (memory s) = of_nat (length (w_popped s))" using I(4) L(1) by (simp add: index_ok_def)
    moreover have "made s' = made s" "gone s' = gone s" using w_load_head(1,2) by (simp_all add: made_def gone_def)
    ultimately show ?thesis using I L(2) L(3) [OF _ I(3)] clocks_ok_load [OF I(2) w_load_head(3), of Relaxed] w_load_head(1,2) L(1) B(8)
      by (simp add: weak_inv_def ra_frame consumer_at_def)
  next
    case (w_empty h i)
    note L = index_ok_load_other [OF I(3) w_empty(3) _ I(2)]
    have "seen (memory s) C_Thread Tail \<le> i" using w_empty(3) by (simp add: readable_def)
    moreover have "made s' = made s" "gone s' = gone s" using w_empty(1,2) by (simp_all add: made_def gone_def)
    ultimately show ?thesis using I L(2) L(3) [OF _ I(4)] clocks_ok_load [OF I(2) w_empty(3), of Acquire] w_empty(1,2)
      by (simp add: weak_inv_def ra_frame consumer_at_def)
  next
    case (w_ready h i)
    note L = index_ok_load_other [OF I(3) w_ready(3) _ I(2)]
    have i: "seen (memory s) C_Thread Tail \<le> i" "i \<le> length (w_pushed s)" using w_ready(3) L(1) by (simp_all add: readable_def)
    have "value_at Tail i (memory s) = of_nat i" "h = of_nat (length (w_popped s))" using I(3,9) i(2) w_ready(2) by (simp_all add: index_ok_def consumer_at_def)
    then have "length (w_popped s) < i"
      using index_eq [of "length (w_popped s)" i c] w_ready(4) i B I(6) by fastforce
    moreover have "made s' = made s" "gone s' = gone s" using w_ready(1,2) by (simp_all add: made_def gone_def)
    ultimately show ?thesis using I L(2) L(3) [OF _ I(4)] clocks_ok_load [OF I(2) w_ready(3), of Acquire] w_ready(1,2) i(1)
      by (simp add: weak_inv_def ra_frame consumer_at_def)
  next
    case (w_move_out h x)
    have m: "gone s = w_popped s" "h = of_nat (length (w_popped s))" "length (w_popped s) < seen (memory s) C_Thread Tail"
      using w_move_out(2) I(9) by (simp_all add: gone_def consumer_at_def)
    have r: "ring_index c h = length (gone s) mod unat c" using ring_index_of_nat [OF I(1)] m by simp
    note A = index_ok_access [OF I(4) r]
    have lt: "length (gone s) < length (w_pushed s)" "length (gone s) < length (made s)" using m B by simp_all
    note P = live_pop [OF I(10)]
    have "x = made s ! length (gone s)" using P(1) w_move_out(3) r m B lt by simp
    then have x: "x = w_pushed s ! length (gone s)" using lt by (simp add: made_def nth_append)
    have "live c (made s) (Suc (length (gone s))) (buffer s')" using P(2) m B lt w_move_out(1) r by simp
    moreover have "made s' = made s" "gone s' = gone s @ [x]" using w_move_out(1) m(1) by (simp_all add: made_def gone_def)
    moreover have "prefix (gone s @ [x]) (w_pushed s)" 
    proof -
      obtain zs where zs: "w_pushed s = gone s @ zs" using I(11) by (auto simp: prefix_def)
      then have "zs = x # tl zs" using x lt(1) by (cases zs) auto
      then show ?thesis using zs by (metis prefixI append.assoc append_Cons append_Nil)
    qed
    ultimately show ?thesis using I A(1) A(2) [OF _ I(3)] clocks_ok_access [OF I(2)] m w_move_out(1)
      by (simp add: weak_inv_def ra_frame consumer_at_def)
  next
    case (w_store_head h x)
    have m: "gone s = w_popped s @ [x]" "h = of_nat (length (w_popped s))" using w_store_head(2) I(9) by (simp_all add: gone_def consumer_at_def)
    have "index_ok c (memory s) Head C_Thread P_Thread (length (w_popped s)) (Suc (length (w_popped s)))" "h + 1 = of_nat (length (w_popped s)) + 1"
      using I(4) m by simp_all
    note S = index_ok_store [OF this]
    have "made s' = made s" "gone s' = gone s" "w_popped s' = gone s" using w_store_head(1) m(1) by (simp_all add: made_def gone_def)
    then show ?thesis using I S(1) S(2) [OF _ I(3)] clocks_ok_store [OF I(2)] m w_store_head(1)
      by (simp add: weak_inv_def ra_frame consumer_at_def)
  qed
qed

interpretation weak_run: inductive_invariant "weak_init c" "weak_step c" "weak_inv c" for c
proof unfold_locales
  fix s :: "'a weak_sys" assume "weak_init c s"
  then show "weak_inv c s"
    using clocks_ok_new [of "\<lambda>v :: ring_var. 0 :: size_t"]
    by (auto simp: weak_init_def weak_inv_def spsc_capacity_ok_iff index_ok_def ra_new_def made_def gone_def value_at_def producer_at_def
      consumer_at_def live_def)
qed (auto simp: weak_step_def intro: weak_producer weak_consumer)

lemma two_threads:
  assumes "weak_inv c s"
  shows "touched (memory s) x C_Thread \<le> clock (memory s) P_Thread C_Thread \<Longrightarrow> ordered P_Thread x (memory s)"
    "touched (memory s) x P_Thread \<le> clock (memory s) C_Thread P_Thread \<Longrightarrow> ordered C_Thread x (memory s)"
proof -
  have "touched (memory s) x u = 0" if "u \<noteq> P_Thread" "u \<noteq> C_Thread" for u using weak_invD(7) [OF assms] that by simp
  then show "touched (memory s) x C_Thread \<le> clock (memory s) P_Thread C_Thread \<Longrightarrow> ordered P_Thread x (memory s)"
    "touched (memory s) x P_Thread \<le> clock (memory s) C_Thread P_Thread \<Longrightarrow> ordered C_Thread x (memory s)"
    unfolding ordered_def by (metis le0)+
qed

text \<open>Why no access races: the other thread's accesses to the slot are those of earlier turns, and the index that was read announces them.\<close>

lemma construct_ordered:
  assumes inv: "weak_inv c s" and at: "w_producer s = P_Room x t"
  shows "buffer s ! ring_index c t = None" "ordered P_Thread (ring_index c t) (memory s)"
proof -
  note I = weak_invD [OF inv] and B = weak_bounds [OF inv]
  have m: "made s = w_pushed s" "t = of_nat (length (w_pushed s))" "length (w_pushed s) < seen (memory s) P_Thread Head + unat c"
    using at I(8) by (simp_all add: made_def producer_at_def)
  have r: "ring_index c t = length (made s) mod unat c" using ring_index_of_nat [OF I(1)] m by simp
  show "buffer s ! ring_index c t = None" using live_push(1) [OF I(10)] m B r by simp
  have "touched (memory s) (ring_index c t) C_Thread \<le> clock (memory s) P_Thread C_Thread"
  proof -
    have "touched (memory s) (ring_index c t) C_Thread = 0 \<or>
        (\<exists>j < length (gone s). touched (memory s) (ring_index c t) C_Thread = Suc j \<and> j mod unat c = ring_index c t)"
      and k: "seen (memory s) P_Thread Head \<le> clock (memory s) P_Thread C_Thread" using I(4) by (simp_all add: index_ok_def)
    then consider "touched (memory s) (ring_index c t) C_Thread = 0"
      | j where "j < length (gone s)" "touched (memory s) (ring_index c t) C_Thread = Suc j" "j mod unat c = length (made s) mod unat c" using r by auto
    then show ?thesis
    proof cases
      case (2 j)
      then have "j + unat c \<le> length (made s)" using B m(1) by (intro mod_gap) simp_all
      then show ?thesis using 2(2) m(1,3) k by simp
    qed simp
  qed
  then show "ordered P_Thread (ring_index c t) (memory s)" using two_threads [OF inv] by blast
qed

lemma move_ordered:
  assumes inv: "weak_inv c s" and at: "w_consumer s = C_Ready h"
  shows "buffer s ! ring_index c h = Some (w_pushed s ! length (w_popped s))" "ordered C_Thread (ring_index c h) (memory s)"
proof -
  note I = weak_invD [OF inv] and B = weak_bounds [OF inv]
  have m: "gone s = w_popped s" "h = of_nat (length (w_popped s))" "length (w_popped s) < seen (memory s) C_Thread Tail"
    using at I(9) by (simp_all add: gone_def consumer_at_def)
  have r: "ring_index c h = length (gone s) mod unat c" using ring_index_of_nat [OF I(1)] m by simp
  have lt: "length (gone s) < length (w_pushed s)" using m B by simp
  show "buffer s ! ring_index c h = Some (w_pushed s ! length (w_popped s))"
    using live_pop(1) [OF I(10)] m B r lt by (simp add: made_def nth_append)
  have "touched (memory s) (ring_index c h) P_Thread \<le> clock (memory s) C_Thread P_Thread"
  proof -
    have "touched (memory s) (ring_index c h) P_Thread = 0 \<or>
        (\<exists>j < length (made s). touched (memory s) (ring_index c h) P_Thread = Suc j \<and> j mod unat c = ring_index c h)"
      and k: "seen (memory s) C_Thread Tail \<le> clock (memory s) C_Thread P_Thread" using I(3) by (simp_all add: index_ok_def)
    then consider "touched (memory s) (ring_index c h) P_Thread = 0"
      | j where "j < length (made s)" "touched (memory s) (ring_index c h) P_Thread = Suc j" "length (gone s) mod unat c = j mod unat c" using r by auto
    then show ?thesis
    proof cases
      case (2 j)
      have "\<not> length (gone s) < j" using mod_gap [OF 2(3)] 2(1) B(6) m(1) by fastforce
      then show ?thesis using 2(2) m(1,3) k by simp
    qed simp
  qed
  then show "ordered C_Thread (ring_index c h) (memory s)" using two_threads [OF inv] by blast
qed

section \<open>Properties\<close>

text \<open>
  C12. The memory orders of the queue are enough. One producer and one consumer, in any interleaving and with loads that return any value the language allows: when the producer is about to construct an element,
  its slot is empty and every access of the consumer to it happened before; when the consumer is about to move an element out, the slot holds the oldest element, and the producer's
  construction of it happened before. So there is no data race, what was popped is a prefix of what was pushed, and the queue never exceeds its capacity.
\<close>

theorem spsc_race_free:
  assumes "reach (weak_init c) (weak_step c) s"
  shows "prefix (w_popped s) (w_pushed s) \<and> length (w_pushed s) \<le> length (w_popped s) + unat c \<and>
    (\<forall>x t. w_producer s = P_Room x t \<longrightarrow> buffer s ! ring_index c t = None \<and> ordered P_Thread (ring_index c t) (memory s)) \<and>
    (\<forall>h. w_consumer s = C_Ready h \<longrightarrow> buffer s ! ring_index c h = Some (w_pushed s ! length (w_popped s)) \<and> ordered C_Thread (ring_index c h) (memory s))"
proof -
  have inv: "weak_inv c s" using assms by (rule weak_run.reach_inv)
  note I = weak_invD [OF inv] and B = weak_bounds [OF inv]
  have "prefix (w_popped s) (w_pushed s)" using I(11) by (simp add: gone_def append_prefixD)
  moreover have "buffer s ! ring_index c t = None \<and> ordered P_Thread (ring_index c t) (memory s)" if "w_producer s = P_Room x t" for x t
    using construct_ordered [OF inv that] by blast
  moreover have "buffer s ! ring_index c h = Some (w_pushed s ! length (w_popped s)) \<and> ordered C_Thread (ring_index c h) (memory s)"
    if "w_consumer s = C_Ready h" for h using move_ordered [OF inv that] by blast
  ultimately show ?thesis using B by simp
qed

text \<open>A producer about to construct its first element in a queue of two slots.\<close>

lemma weak_first_room:
  "\<exists>s :: nat weak_sys. reach (weak_init 2) (weak_step 2) s \<and> w_producer s = P_Room 7 0"
proof -
  let ?R = "reach (weak_init 2) (weak_step 2)"
  define s0 :: "nat weak_sys" where "s0 = \<lparr> memory = ra_new (\<lambda>v. 0), buffer = replicate 2 None, w_producer = P_Idle, w_consumer = C_Idle, w_pushed = [], w_popped = [] \<rparr>"
  have "?R s0" by (rule reach_init) (simp add: weak_init_def s0_def spsc_capacity_ok_def)
  moreover define s1 where "s1 = s0\<lparr> memory := ra_load Relaxed P_Thread Tail 0 (memory s0), w_producer := P_Loaded 7 (value_at Tail 0 (memory s0)) \<rparr>"
  have "producer_step 2 s0 s1" unfolding s1_def by (rule w_load_tail) (simp_all add: s0_def readable_def ra_new_def)
  ultimately have 1: "?R s1" by (auto intro: reach_step simp: weak_step_def)
  have p1: "w_producer s1 = P_Loaded 7 0" by (simp add: s1_def s0_def value_at_def ra_new_def)
  define s2 where "s2 = s1\<lparr> memory := ra_load Acquire P_Thread Head 0 (memory s1), w_producer := P_Room 7 0 \<rparr>"
  have "producer_step 2 s1 s2" unfolding s2_def
    by (rule w_room [OF p1]) (simp_all add: s1_def s0_def readable_def value_at_def ra_new_def ra_frame)
  with 1 have "?R s2" by (auto intro: reach_step simp: weak_step_def)
  then show ?thesis by (intro exI [of _ s2]) (simp add: s2_def)
qed

theorem spsc_race_free_witness:
  "\<exists>s :: nat weak_sys. reach (weak_init 2) (weak_step 2) s \<and> w_producer s = P_Room 7 0 \<and> buffer s ! ring_index 2 0 = None \<and>
     ordered P_Thread (ring_index 2 0) (memory s)"
  using weak_first_room spsc_race_free [where 'a = nat and c = 2] by blast

end
