(* ===== verification/Mpmc.thy ===== *)
theory Mpmc
  imports Bounded_Queue
begin

text \<open>
  \<^verbatim>\<open>concurrency/mpmc_queue.hpp\<close>, Vyukov's bounded queue. As for the SPSC ring the first part is the
  queue under calls by one thread at a time, with the retry loops of \<^verbatim>\<open>emplace\<close> and \<^verbatim>\<open>try_pop\<close>
  kept as loops, and the second part interleaves the atomic actions of any number of threads.
\<close>

section \<open>The member functions\<close>

record 'a mslot =
  sequence :: size_t
  storage :: "'a option"

record 'a mpmc =
  slots :: "'a mslot list"
  enqueue_pos :: size_t
  dequeue_pos :: size_t

definition mpmc_capacity_ok :: "size_t \<Rightarrow> bool" where
  "mpmc_capacity_ok Capacity \<longleftrightarrow> Capacity \<ge> 2 \<and> Capacity AND (Capacity - 1) = 0"

definition mpmc_new :: "size_t \<Rightarrow> 'a mpmc" where
  "mpmc_new Capacity =
     \<lparr> slots = map (\<lambda>i. \<lparr> sequence = of_nat i, storage = None \<rparr>) [0..<unat Capacity],
       enqueue_pos = 0, dequeue_pos = 0 \<rparr>"

text \<open>
  \<open>diff\<close> is the signed 64-bit difference of slot sequence and position. Without other threads the
  compare-and-swap succeeds exactly when the position is current; a failed one reloads it.
\<close>

partial_function (option) mpmc_emplace_loop ::
  "size_t \<Rightarrow> 'a \<Rightarrow> size_t \<Rightarrow> 'a mpmc \<Rightarrow> (bool \<times> 'a mpmc) option" where
  "mpmc_emplace_loop Capacity x pos q =
     (let i = ring_index Capacity pos; diff = sequence (slots q ! i) - pos in
      if diff = 0 then
        if enqueue_pos q = pos
        then Some (True, q\<lparr> enqueue_pos := pos + 1,
                            slots := (slots q)[i := \<lparr> sequence = pos + 1, storage = Some x \<rparr>] \<rparr>)
        else mpmc_emplace_loop Capacity x (enqueue_pos q) q
      else if diff <s 0 then Some (False, q)
      else mpmc_emplace_loop Capacity x (enqueue_pos q) q)"

definition mpmc_try_push :: "size_t \<Rightarrow> 'a \<Rightarrow> 'a mpmc \<Rightarrow> (bool \<times> 'a mpmc) option" where
  "mpmc_try_push Capacity item q = mpmc_emplace_loop Capacity item (enqueue_pos q) q"

partial_function (option) mpmc_pop_loop ::
  "size_t \<Rightarrow> size_t \<Rightarrow> 'a mpmc \<Rightarrow> ('a option \<times> 'a mpmc) option" where
  "mpmc_pop_loop Capacity pos q =
     (let i = ring_index Capacity pos; diff = sequence (slots q ! i) - (pos + 1) in
      if diff = 0 then
        if dequeue_pos q = pos
        then Some (storage (slots q ! i),
                   q\<lparr> dequeue_pos := pos + 1,
                      slots := (slots q)[i := \<lparr> sequence = pos + (Capacity - 1) + 1, storage = None \<rparr>] \<rparr>)
        else mpmc_pop_loop Capacity (dequeue_pos q) q
      else if diff <s 0 then Some (None, q)
      else mpmc_pop_loop Capacity (dequeue_pos q) q)"

definition mpmc_try_pop :: "size_t \<Rightarrow> 'a mpmc \<Rightarrow> ('a option \<times> 'a mpmc) option" where
  "mpmc_try_pop Capacity q = mpmc_pop_loop Capacity (dequeue_pos q) q"

definition mpmc_destroy :: "size_t \<Rightarrow> 'a mpmc \<Rightarrow> ('a list \<times> 'a mpmc) option" where
  "mpmc_destroy Capacity q = drain (mpmc_try_pop Capacity) q"

section \<open>Invariant and abstraction\<close>

definition mpmc_len :: "'a mpmc \<Rightarrow> nat" where
  "mpmc_len q = unat (enqueue_pos q - dequeue_pos q)"

definition mpmc_slot :: "size_t \<Rightarrow> 'a mpmc \<Rightarrow> nat \<Rightarrow> 'a mslot" where
  "mpmc_slot c q i = ring_at c (slots q) (dequeue_pos q) i"

definition mpmc_slot_ok :: "size_t \<Rightarrow> 'a mpmc \<Rightarrow> nat \<Rightarrow> bool" where
  "mpmc_slot_ok c q i \<longleftrightarrow>
     (if i < mpmc_len q
      then sequence (mpmc_slot c q i) = dequeue_pos q + of_nat i + 1 \<and> storage (mpmc_slot c q i) \<noteq> None
      else sequence (mpmc_slot c q i) = dequeue_pos q + of_nat i \<and> storage (mpmc_slot c q i) = None)"

definition mpmc_inv :: "size_t \<Rightarrow> 'a mpmc \<Rightarrow> bool" where
  "mpmc_inv c q \<longleftrightarrow> mpmc_capacity_ok c \<and> length (slots q) = unat c \<and> mpmc_len q \<le> unat c \<and>
     (\<forall>i < unat c. mpmc_slot_ok c q i)"

definition mpmc_abs :: "size_t \<Rightarrow> 'a mpmc \<Rightarrow> 'a list" where
  "mpmc_abs c q = map (\<lambda>i. the (storage (mpmc_slot c q i))) [0..<mpmc_len q]"

lemma mpmc_capacity_ok_iff: "mpmc_capacity_ok c \<longleftrightarrow> is_pow2 c \<and> 2 \<le> unat c"
  by (auto simp: mpmc_capacity_ok_def is_pow2_def word_le_nat_alt)

lemma mpmc_new_inv:
  assumes "mpmc_capacity_ok c"
  shows "mpmc_inv c (mpmc_new c)" and "mpmc_abs c (mpmc_new c) = []"
proof -
  have "ring_index c (0 + of_nat i) = i" if "i < unat c" for i
    using that assms ring_index_add [of c 0 i] by (simp add: mpmc_capacity_ok_iff)
  then show "mpmc_inv c (mpmc_new c)"
    using assms by (auto simp: mpmc_inv_def mpmc_slot_ok_def mpmc_new_def mpmc_len_def mpmc_slot_def ring_at_def)
  show "mpmc_abs c (mpmc_new c) = []" by (simp add: mpmc_abs_def mpmc_new_def mpmc_len_def)
qed

lemma mpmc_enqueue_slot:
  assumes "mpmc_inv c q"
  shows "slots q ! ring_index c (enqueue_pos q) = mpmc_slot c q (mpmc_len q)"
    and "enqueue_pos q = dequeue_pos q + of_nat (mpmc_len q)"
  by (simp_all add: mpmc_slot_def ring_at_def mpmc_len_def)

text \<open>A full ring: the slot of the next ticket still belongs to the ticket one lap behind.\<close>

lemma mpmc_full_diff:
  assumes "mpmc_capacity_ok c"
  shows "1 - c \<noteq> 0" and "1 - c <s 0"
proof -
  obtain k where k: "k < 64" "c = 2 ^ k" and two: "2 \<le> unat c"
    using assms by (auto simp: mpmc_capacity_ok_iff is_pow2_iff)
  then show "1 - c \<noteq> 0" by auto
  have le: "(2::int) ^ k \<le> 2 ^ 63" using k(1) by (intro power_increasing) simp_all
  have "(2::nat) \<le> 2 ^ k" using two k by (simp add: unat_pow2)
  then have big: "(2::int) \<le> 2 ^ k" by (metis of_nat_le_iff of_nat_numeral of_nat_power)
  have "sint (word_of_int (1 - 2 ^ k) :: size_t) = signed_take_bit 63 (1 - 2 ^ k)"
    by (simp only: sint_sbintrunc') simp
  also have "\<dots> = 1 - 2 ^ k" using le big by (intro signed_take_bit_int_eq_self) simp_all
  finally have "sint (1 - c) = 1 - 2 ^ k" by (simp add: k)
  then show "1 - c <s 0" using big by (simp add: word_sless_alt)
qed

lemma mpmc_push_full:
  assumes inv: "mpmc_inv c q" and full: "mpmc_len q = unat c"
  shows "mpmc_try_push c x q = Some (False, q)"
proof -
  have ok: "mpmc_capacity_ok c" and p2: "is_pow2 c" and pos: "0 < unat c"
    using inv by (auto simp: mpmc_inv_def mpmc_capacity_ok_iff)
  have "slots q ! ring_index c (enqueue_pos q) = mpmc_slot c q 0"
    using mpmc_enqueue_slot(1) [OF inv] ring_at_wrap [OF p2] by (simp add: full mpmc_slot_def)
  moreover have "sequence (mpmc_slot c q 0) = dequeue_pos q + 1"
    using inv full pos by (auto simp: mpmc_inv_def mpmc_slot_ok_def dest: spec [where x = 0])
  moreover have "enqueue_pos q = dequeue_pos q + c"
    using mpmc_enqueue_slot(2) [OF inv] by (simp add: full)
  ultimately show ?thesis
    using mpmc_full_diff [OF ok]
    by (simp add: mpmc_try_push_def mpmc_emplace_loop.simps Let_def)
qed

lemma mpmc_slot_len:
  assumes "mpmc_inv c q" and "mpmc_len q < unat c"
  shows "sequence (mpmc_slot c q (mpmc_len q)) = enqueue_pos q"
  using assms mpmc_enqueue_slot(2) [OF assms(1)]
  by (auto simp: mpmc_inv_def mpmc_slot_ok_def dest: spec [where x = "mpmc_len q"])

lemma mpmc_push_room:
  fixes x :: 'a and q :: "'a mpmc"
  assumes inv: "mpmc_inv c q" and room: "mpmc_len q < unat c"
  defines "q' \<equiv> q\<lparr> enqueue_pos := enqueue_pos q + 1,
    slots := (slots q)[ring_index c (enqueue_pos q) := \<lparr> sequence = enqueue_pos q + 1, storage = Some x \<rparr>] \<rparr>"
  shows "mpmc_try_push c x q = Some (True, q')" and "mpmc_inv c q'"
    and "mpmc_abs c q' = mpmc_abs c q @ [x]"
proof -
  have p2: "is_pow2 c" and len: "length (slots q) = unat c"
    using inv by (auto simp: mpmc_inv_def mpmc_capacity_ok_iff)
  show "mpmc_try_push c x q = Some (True, q')"
    using mpmc_enqueue_slot(1) [OF inv] mpmc_slot_len [OF inv room]
    by (simp add: mpmc_try_push_def mpmc_emplace_loop.simps Let_def q'_def)
  have "enqueue_pos q' - dequeue_pos q' = (enqueue_pos q - dequeue_pos q) + 1" by (simp add: q'_def)
  then have n: "mpmc_len q' = Suc (mpmc_len q)"
    using room unat_u64_less [of c] is_pow2_dvd(3) [OF p2]
    by (simp add: mpmc_len_def unat_plus_if')
  have slot: "mpmc_slot c q' i = (if i = mpmc_len q
      then \<lparr> sequence = enqueue_pos q + 1, storage = Some x \<rparr> else mpmc_slot c q i)" if "i < unat c" for i
    using ring_at_update [OF p2 len that room, of "dequeue_pos q"] mpmc_enqueue_slot(2) [OF inv]
    by (simp add: mpmc_slot_def q'_def)
  have dq: "dequeue_pos q' = dequeue_pos q" "length (slots q') = length (slots q)"
    by (simp_all add: q'_def)
  have "mpmc_slot_ok c q' i" if i: "i < unat c" for i
  proof (cases "i = mpmc_len q")
    case True
    then show ?thesis using slot [OF i] mpmc_enqueue_slot(2) [OF inv] by (simp add: mpmc_slot_ok_def n dq)
  next
    case False
    moreover have "mpmc_slot_ok c q i" using inv i by (simp add: mpmc_inv_def)
    ultimately show ?thesis using slot [OF i] by (simp add: mpmc_slot_ok_def n dq less_Suc_eq)
  qed
  then show "mpmc_inv c q'" using inv room n dq by (simp add: mpmc_inv_def)
  show "mpmc_abs c q' = mpmc_abs c q @ [x]"
    using n slot room by (simp add: mpmc_abs_def)
qed

lemma mpmc_pop_empty:
  assumes inv: "mpmc_inv c q" and empty: "mpmc_len q = 0"
  shows "mpmc_try_pop c q = Some (None, q)"
proof -
  have "0 < unat c" using inv by (auto simp: mpmc_inv_def mpmc_capacity_ok_iff)
  then have "sequence (slots q ! ring_index c (dequeue_pos q)) = dequeue_pos q"
    using inv empty by (auto simp: mpmc_inv_def mpmc_slot_def ring_at_def mpmc_slot_ok_def dest: spec [where x = 0])
  moreover have "(- 1 :: size_t) <s 0" by (simp add: word_sless_alt)
  ultimately show ?thesis by (simp add: mpmc_try_pop_def mpmc_pop_loop.simps Let_def)
qed

lemma mpmc_pop_some:
  assumes inv: "mpmc_inv c q" and ne: "0 < mpmc_len q"
  defines "q' \<equiv> q\<lparr> dequeue_pos := dequeue_pos q + 1,
    slots := (slots q)[ring_index c (dequeue_pos q) :=
      \<lparr> sequence = dequeue_pos q + (c - 1) + 1, storage = None \<rparr>] \<rparr>"
  shows "mpmc_try_pop c q = Some (storage (mpmc_slot c q 0), q')" and "mpmc_inv c q'"
    and "mpmc_abs c q = the (storage (mpmc_slot c q 0)) # mpmc_abs c q'"
proof -
  have p2: "is_pow2 c" and len: "length (slots q) = unat c" and pos: "0 < unat c"
    using inv by (auto simp: mpmc_inv_def mpmc_capacity_ok_iff)
  have zero: "mpmc_slot c q 0 = slots q ! ring_index c (dequeue_pos q)"
    by (simp add: mpmc_slot_def ring_at_def)
  have "sequence (mpmc_slot c q 0) = dequeue_pos q + 1"
    using inv ne pos by (auto simp: mpmc_inv_def mpmc_slot_ok_def dest: spec [where x = 0])
  then show "mpmc_try_pop c q = Some (storage (mpmc_slot c q 0), q')"
    by (simp add: mpmc_try_pop_def mpmc_pop_loop.simps Let_def q'_def zero)
  have "enqueue_pos q' - dequeue_pos q' = (enqueue_pos q - dequeue_pos q) - 1" by (simp add: q'_def)
  then have n: "mpmc_len q = Suc (mpmc_len q')"
    using ne by (simp add: mpmc_len_def unat_minus_one unat_gt_0)
  have slot: "mpmc_slot c q' i = (if Suc i < unat c then mpmc_slot c q (Suc i)
      else \<lparr> sequence = dequeue_pos q + c, storage = None \<rparr>)" if "i < unat c" for i
    using ring_at_update [OF p2 len _ pos, of _ "dequeue_pos q"] pos
    by (simp add: mpmc_slot_def q'_def ring_at_advance [OF p2 that])
  have last: "c = 1 + of_nat i" if "i < unat c" "\<not> Suc i < unat c" for i
  proof -
    have "unat c = Suc i" using that by simp
    then show ?thesis by (metis of_nat_Suc of_nat_unat ucast_id)
  qed
  have dq: "dequeue_pos q' = dequeue_pos q + 1" "length (slots q') = length (slots q)"
    by (simp_all add: q'_def)
  have "mpmc_slot_ok c q' i" if i: "i < unat c" for i
  proof (cases "Suc i < unat c")
    case True
    then have "mpmc_slot_ok c q (Suc i)" using inv by (simp add: mpmc_inv_def)
    then show ?thesis using True n slot [OF i] dq by (simp add: mpmc_slot_ok_def add.assoc)
  next
    case False
    moreover have "\<not> i < mpmc_len q'" using False i inv n by (simp add: mpmc_inv_def)
    ultimately show ?thesis
      using slot [OF i] dq last [OF i False] by (simp add: mpmc_slot_ok_def add.assoc)
  qed
  then show "mpmc_inv c q'" using inv n dq by (simp add: mpmc_inv_def)
  show "mpmc_abs c q = the (storage (mpmc_slot c q 0)) # mpmc_abs c q'"
  proof -
    have "mpmc_slot c q' i = mpmc_slot c q (Suc i)" if "i < mpmc_len q'" for i
      using that inv n slot by (simp add: mpmc_inv_def)
    then show ?thesis unfolding mpmc_abs_def n map_upt_Suc by simp
  qed
qed

interpretation mpmc: bounded_queue "unat c" "mpmc_abs c" "mpmc_inv c" "mpmc_try_push c" "mpmc_try_pop c"
  for c
proof unfold_locales
  fix q :: "'a mpmc" and x
  assume inv: "mpmc_inv c q"
  have len: "length (mpmc_abs c q) = mpmc_len q" by (simp add: mpmc_abs_def)
  show "length (mpmc_abs c q) \<le> unat c" using inv by (simp add: len mpmc_inv_def)
  show "\<exists>b q'. mpmc_try_push c x q = Some (b, q') \<and> mpmc_inv c q' \<and>
      list_push (unat c) x (mpmc_abs c q) = (b, mpmc_abs c q')"
    using inv mpmc_push_room [OF inv, of x] mpmc_push_full [OF inv, of x]
    by (cases "mpmc_len q < unat c") (auto simp: list_push_def len mpmc_inv_def)
  show "\<exists>r q'. mpmc_try_pop c q = Some (r, q') \<and> mpmc_inv c q' \<and>
      list_pop (mpmc_abs c q) = (r, mpmc_abs c q')"
  proof (cases "mpmc_len q = 0")
    case True
    then show ?thesis using inv mpmc_pop_empty [OF inv] by (simp add: mpmc_abs_def)
  next
    case False
    then have "mpmc_slot_ok c q 0"
      using inv by (auto simp: mpmc_inv_def mpmc_capacity_ok_iff)
    with False have "storage (mpmc_slot c q 0) \<noteq> None" by (simp add: mpmc_slot_ok_def)
    with False mpmc_pop_some [OF inv] show ?thesis by auto
  qed
qed

text \<open>
  Used by one thread at a time the MPMC queue never spins: every \<open>try_push\<close> and
  \<open>try_pop\<close> returns, and their answers are those of a FIFO list of at most \<open>Capacity\<close> elements.
\<close>

theorem mpmc_refines_fifo:
  assumes "mpmc_capacity_ok c"
  shows "\<exists>q. run_ops (mpmc_try_push c) (mpmc_try_pop c) ops (mpmc_new c) =
    Some (list_answers (unat c) ops [], q)"
  using mpmc.run_refines [OF mpmc_new_inv(1) [OF assms], of ops]
  by (auto simp: mpmc_new_inv(2) [OF assms])

theorem mpmc_refines_fifo_witness:
  "\<exists>q. run_ops (mpmc_try_push 2) (mpmc_try_pop 2)
     [Push 1, Push 2, Push 3, Pop, Push (4::nat), Pop, Pop, Pop] (mpmc_new 2) =
   Some ([Pushed True, Pushed True, Pushed False, Popped (Some 1), Pushed True, Popped (Some 2),
    Popped (Some 4), Popped None], q)"
  using mpmc_refines_fifo [of 2 "[Push 1, Push 2, Push 3, Pop, Push (4::nat), Pop, Pop, Pop]"]
  by (simp add: mpmc_capacity_ok_def list_push_def)

end
