(* ===== verification/Mpmc_Threads.thy ===== *)
theory Mpmc_Threads
  imports Mpmc
begin

text \<open>
  Any number of producers and consumers on one MPMC queue. Each rule is one atomic action of one
  thread, in the order \<^verbatim>\<open>emplace\<close> and \<^verbatim>\<open>try_pop\<close> perform them; the weak compare-and-swap may fail
  at any time. The position loads and the swaps are relaxed, but every access to the storage of a
  slot is ordered by the acquire load and the release store of that slot's sequence number, and the
  steps below touch storage only under that protocol.
\<close>

section \<open>Threads and their steps\<close>

text \<open>
  \<open>E_Load x p\<close>: position \<open>p\<close> loaded, sequence not yet checked; \<open>E_Ready\<close>: check passed,
  about to swap; \<open>E_Claimed\<close>: ticket \<open>p\<close> owned, object not yet constructed; \<open>E_Built\<close>:
  constructed, sequence not yet stored. The \<open>D\<close> counters mirror these for \<^verbatim>\<open>try_pop\<close>.
\<close>

datatype 'a mpc =
    M_Idle
  | E_Load 'a size_t | E_Ready 'a size_t | E_Claimed 'a size_t | E_Built 'a size_t
  | D_Load size_t | D_Ready size_t | D_Claimed size_t | D_Moved size_t 'a

text \<open>
  \<open>claimed\<close> lists the values in the order in which their tickets were taken, \<open>taken\<close> the
  tickets and values of the pops that returned.
\<close>

record 'a mpmc_sys =
  mq :: "'a mpmc"
  pcs :: "nat \<Rightarrow> 'a mpc"
  claimed :: "'a list"
  taken :: "(nat \<times> 'a) list"

definition slot_at :: "size_t \<Rightarrow> 'a mpmc_sys \<Rightarrow> size_t \<Rightarrow> 'a mslot" where
  "slot_at c s p = slots (mq s) ! ring_index c p"

definition goto :: "nat \<Rightarrow> 'a mpc \<Rightarrow> 'a mpmc_sys \<Rightarrow> 'a mpmc_sys" where
  "goto t pc s = s\<lparr> pcs := (pcs s)(t := pc) \<rparr>"

definition set_slot :: "size_t \<Rightarrow> size_t \<Rightarrow> 'a mslot \<Rightarrow> 'a mpmc_sys \<Rightarrow> 'a mpmc_sys" where
  "set_slot c p sl s = s\<lparr> mq := (mq s)\<lparr> slots := (slots (mq s))[ring_index c p := sl] \<rparr> \<rparr>"

definition mpmc_init :: "size_t \<Rightarrow> 'a mpmc_sys \<Rightarrow> bool" where
  "mpmc_init c s \<longleftrightarrow> mpmc_capacity_ok c \<and> mq s = mpmc_new c \<and> pcs s = (\<lambda>t. M_Idle) \<and>
     claimed s = [] \<and> taken s = []"

inductive mpmc_step :: "size_t \<Rightarrow> 'a mpmc_sys \<Rightarrow> 'a mpmc_sys \<Rightarrow> bool" for c where
  push_start: "pcs s t = M_Idle \<Longrightarrow>
    mpmc_step c s (goto t (E_Load x (enqueue_pos (mq s))) s)"
| push_ready: "pcs s t = E_Load x p \<Longrightarrow> sequence (slot_at c s p) - p = 0 \<Longrightarrow>
    mpmc_step c s (goto t (E_Ready x p) s)"
| push_full: "pcs s t = E_Load x p \<Longrightarrow> sequence (slot_at c s p) - p <s 0 \<Longrightarrow>
    mpmc_step c s (goto t M_Idle s)"
| push_reload: "pcs s t = E_Load x p \<Longrightarrow> 0 <s sequence (slot_at c s p) - p \<Longrightarrow>
    mpmc_step c s (goto t (E_Load x (enqueue_pos (mq s))) s)"
| push_claim: "pcs s t = E_Ready x p \<Longrightarrow> enqueue_pos (mq s) = p \<Longrightarrow>
    mpmc_step c s (goto t (E_Claimed x p)
      (s\<lparr> mq := (mq s)\<lparr> enqueue_pos := p + 1 \<rparr>, claimed := claimed s @ [x] \<rparr>))"
| push_claim_fails: "pcs s t = E_Ready x p \<Longrightarrow>
    mpmc_step c s (goto t (E_Load x (enqueue_pos (mq s))) s)"
| push_construct: "pcs s t = E_Claimed x p \<Longrightarrow>
    mpmc_step c s (goto t (E_Built x p) (set_slot c p ((slot_at c s p)\<lparr> storage := Some x \<rparr>) s))"
| push_publish: "pcs s t = E_Built x p \<Longrightarrow>
    mpmc_step c s (goto t M_Idle (set_slot c p ((slot_at c s p)\<lparr> sequence := p + 1 \<rparr>) s))"
| pop_start: "pcs s t = M_Idle \<Longrightarrow>
    mpmc_step c s (goto t (D_Load (dequeue_pos (mq s))) s)"
| pop_ready: "pcs s t = D_Load p \<Longrightarrow> sequence (slot_at c s p) - (p + 1) = 0 \<Longrightarrow>
    mpmc_step c s (goto t (D_Ready p) s)"
| pop_empty: "pcs s t = D_Load p \<Longrightarrow> sequence (slot_at c s p) - (p + 1) <s 0 \<Longrightarrow>
    mpmc_step c s (goto t M_Idle s)"
| pop_reload: "pcs s t = D_Load p \<Longrightarrow> 0 <s sequence (slot_at c s p) - (p + 1) \<Longrightarrow>
    mpmc_step c s (goto t (D_Load (dequeue_pos (mq s))) s)"
| pop_claim: "pcs s t = D_Ready p \<Longrightarrow> dequeue_pos (mq s) = p \<Longrightarrow>
    mpmc_step c s (goto t (D_Claimed p) (s\<lparr> mq := (mq s)\<lparr> dequeue_pos := p + 1 \<rparr> \<rparr>))"
| pop_claim_fails: "pcs s t = D_Ready p \<Longrightarrow>
    mpmc_step c s (goto t (D_Load (dequeue_pos (mq s))) s)"
| pop_move: "pcs s t = D_Claimed p \<Longrightarrow> storage (slot_at c s p) = Some v \<Longrightarrow>
    mpmc_step c s (goto t (D_Moved p v) (set_slot c p ((slot_at c s p)\<lparr> storage := None \<rparr>) s))"
| pop_release: "pcs s t = D_Moved p v \<Longrightarrow>
    mpmc_step c s (goto t M_Idle
      (set_slot c p ((slot_at c s p)\<lparr> sequence := p + (c - 1) + 1 \<rparr>)
        (s\<lparr> taken := taken s @ [(unat p, v)] \<rparr>)))"

section \<open>The invariant\<close>

text \<open>
  Positions and sequence numbers read as natural numbers. A slot always serves exactly one ticket:
  it is free for a future ticket, being written, full, or being read.
\<close>

definition enq :: "'a mpmc_sys \<Rightarrow> nat" where "enq s = unat (enqueue_pos (mq s))"
definition deq :: "'a mpmc_sys \<Rightarrow> nat" where "deq s = unat (dequeue_pos (mq s))"

definition seqno :: "size_t \<Rightarrow> 'a mpmc_sys \<Rightarrow> nat \<Rightarrow> nat" where
  "seqno c s k = unat (sequence (slots (mq s) ! (k mod unat c)))"

definition stored :: "size_t \<Rightarrow> 'a mpmc_sys \<Rightarrow> nat \<Rightarrow> 'a option" where
  "stored c s k = storage (slots (mq s) ! (k mod unat c))"

fun writes :: "'a mpc \<Rightarrow> nat option" where
  "writes (E_Claimed x p) = Some (unat p)"
| "writes (E_Built x p) = Some (unat p)"
| "writes _ = None"

fun reads :: "'a mpc \<Rightarrow> nat option" where
  "reads (D_Claimed p) = Some (unat p)"
| "reads (D_Moved p v) = Some (unat p)"
| "reads _ = None"

lemma one_ticket: "writes pc = Some k \<Longrightarrow> reads pc = None"
  by (cases pc) simp_all

definition ticket_phase :: "size_t \<Rightarrow> 'a mpmc_sys \<Rightarrow> nat \<Rightarrow> bool" where
  "ticket_phase c s k \<longleftrightarrow> enq s \<le> k + unat c \<and> k < deq s + unat c \<and>
     (seqno c s k = k \<and> enq s \<le> k \<and> stored c s k = None \<or>
      seqno c s k = k \<and> deq s \<le> k \<and> k < enq s \<and> (\<exists>t. writes (pcs s t) = Some k) \<or>
      seqno c s k = k + 1 \<and> deq s \<le> k \<and> k < enq s \<and> stored c s k = Some (claimed s ! k) \<or>
      seqno c s k = k + 1 \<and> k < deq s \<and> (\<exists>t. reads (pcs s t) = Some k))"

fun pc_ok :: "size_t \<Rightarrow> 'a mpmc_sys \<Rightarrow> 'a mpc \<Rightarrow> bool" where
  "pc_ok c s M_Idle = True"
| "pc_ok c s (E_Load x p) = (unat p \<le> enq s)"
| "pc_ok c s (E_Ready x p) = (unat p \<le> enq s \<and> (unat p = enq s \<longrightarrow> seqno c s (unat p) = unat p))"
| "pc_ok c s (E_Claimed x p) = (deq s \<le> unat p \<and> unat p < enq s \<and> seqno c s (unat p) = unat p \<and>
     stored c s (unat p) = None \<and> claimed s ! unat p = x)"
| "pc_ok c s (E_Built x p) = (deq s \<le> unat p \<and> unat p < enq s \<and> seqno c s (unat p) = unat p \<and>
     stored c s (unat p) = Some x \<and> claimed s ! unat p = x)"
| "pc_ok c s (D_Load p) = (unat p \<le> deq s)"
| "pc_ok c s (D_Ready p) = (unat p \<le> deq s \<and> (unat p = deq s \<longrightarrow> seqno c s (unat p) = unat p + 1))"
| "pc_ok c s (D_Claimed p) = (unat p < deq s \<and> seqno c s (unat p) = unat p + 1 \<and>
     stored c s (unat p) = Some (claimed s ! unat p))"
| "pc_ok c s (D_Moved p v) = (unat p < deq s \<and> seqno c s (unat p) = unat p + 1 \<and>
     stored c s (unat p) = None \<and> v = claimed s ! unat p)"

definition taken_ok :: "'a mpmc_sys \<Rightarrow> bool" where
  "taken_ok s \<longleftrightarrow> distinct (map fst (taken s)) \<and>
     (\<forall>(k, v) \<in> set (taken s). k < deq s \<and> v = claimed s ! k \<and> (\<forall>t. reads (pcs s t) \<noteq> Some k)) \<and>
     (\<forall>k < deq s. k \<in> fst ` set (taken s) \<or> (\<exists>t. reads (pcs s t) = Some k))"

definition exclusive :: "'a mpmc_sys \<Rightarrow> bool" where
  "exclusive s \<longleftrightarrow>
     (\<forall>t t' k. writes (pcs s t) = Some k \<longrightarrow> writes (pcs s t') = Some k \<longrightarrow> t = t') \<and>
     (\<forall>t t' k. reads (pcs s t) = Some k \<longrightarrow> reads (pcs s t') = Some k \<longrightarrow> t = t')"

definition mpmc_sinv :: "size_t \<Rightarrow> 'a mpmc_sys \<Rightarrow> bool" where
  "mpmc_sinv c s \<longleftrightarrow> mpmc_capacity_ok c \<and> length (slots (mq s)) = unat c \<and>
     length (claimed s) = enq s \<and> deq s \<le> enq s \<and>
     (\<forall>j < unat c. \<exists>k. k mod unat c = j \<and> ticket_phase c s k) \<and>
     (\<forall>t. pc_ok c s (pcs s t)) \<and>
     exclusive s \<and> taken_ok s"

lemma exclusiveD:
  assumes "exclusive s"
  shows "writes (pcs s t) = Some k \<Longrightarrow> writes (pcs s t') = Some k \<Longrightarrow> t = t'"
    and "reads (pcs s t) = Some k \<Longrightarrow> reads (pcs s t') = Some k \<Longrightarrow> t = t'"
  using assms by (simp_all add: exclusive_def)

lemma mpmc_sinvD:
  assumes "mpmc_sinv c s"
  shows "mpmc_capacity_ok c" "length (slots (mq s)) = unat c" "length (claimed s) = enq s"
    "deq s \<le> enq s" "pc_ok c s (pcs s t)" "exclusive s" "taken_ok s"
  using assms by (simp_all add: mpmc_sinv_def)

lemmas sinv_defs = enq_def deq_def seqno_def stored_def slot_at_def goto_def set_slot_def

lemma capacity_bounds: "mpmc_capacity_ok c \<Longrightarrow> 2 \<le> unat c \<and> unat c \<le> 2 ^ 63"
  using is_pow2_dvd(3) [of c] by (simp add: mpmc_capacity_ok_iff)

lemma mpmc_sinv_init:
  assumes init: "mpmc_init c s"
  shows "mpmc_sinv c s"
proof -
  have "ticket_phase c s j" if "j < unat c" for j
  proof -
    have "unat (of_nat j :: size_t) = j"
      using that unat_u64_less [of c] by (simp add: unat_of_nat)
    then have "seqno c s j = j" "stored c s j = None" "enq s = 0" "deq s = 0"
      using init that by (simp_all add: mpmc_init_def mpmc_new_def enq_def deq_def seqno_def stored_def)
    with that show ?thesis by (simp add: ticket_phase_def)
  qed
  then have "\<exists>k. k mod unat c = j \<and> ticket_phase c s k" if "j < unat c" for j
    using that mod_less by blast
  with init show ?thesis
    by (simp add: mpmc_sinv_def mpmc_init_def mpmc_new_def enq_def deq_def taken_ok_def exclusive_def)
qed

text \<open>
  Two tickets that meet in one slot and both fit its sequence number are the same ticket.
\<close>

lemma same_ticket:
  fixes k k' C :: nat
  assumes "2 \<le> C" and "k mod C = k' mod C" and "k = k' \<or> k = k' + 1 \<or> k' = k + 1"
  shows "k = k'"
proof -
  have "Suc m mod C \<noteq> m mod C" for m
    using assms(1) by (simp add: mod_Suc)
  with assms(2,3) show ?thesis by (metis Suc_eq_plus1)
qed

lemma slot_ticket:
  assumes inv: "mpmc_sinv c s"
    and seq: "seqno c s p = p \<or> seqno c s p = p + 1"
  shows "ticket_phase c s p"
proof -
  have C: "2 \<le> unat c" using inv by (simp add: mpmc_sinv_def capacity_bounds)
  then have "p mod unat c < unat c" by simp
  with inv obtain k where k: "k mod unat c = p mod unat c" and ph: "ticket_phase c s k"
    unfolding mpmc_sinv_def by blast
  have "seqno c s k = seqno c s p" using k by (simp add: seqno_def)
  moreover have "seqno c s k = k \<or> seqno c s k = k + 1" using ph by (auto simp: ticket_phase_def)
  ultimately have "k = p \<or> k = p + 1 \<or> p = k + 1" using seq by linarith
  then have "k = p" by (rule same_ticket [OF C k])
  with ph show ?thesis by simp
qed

section \<open>Preservation\<close>

lemma ticket_phase_frame:
  assumes ph: "ticket_phase c s k"
    and "seqno c s' k = seqno c s k" "stored c s' k = stored c s k"
    and cl: "k < enq s \<Longrightarrow> claimed s' ! k = claimed s ! k"
    and "enq s \<le> enq s'" "deq s \<le> deq s'" "enq s' \<le> k + unat c"
    and "enq s \<le> k \<Longrightarrow> enq s' \<le> k" "deq s \<le> k \<Longrightarrow> deq s' \<le> k"
    and wr: "\<And>u. writes (pcs s u) = Some k \<Longrightarrow> writes (pcs s' u) = Some k"
    and rd: "\<And>u. reads (pcs s u) = Some k \<Longrightarrow> reads (pcs s' u) = Some k"
  shows "ticket_phase c s' k"
proof -
  have "(\<exists>u. writes (pcs s' u) = Some k)" if "\<exists>u. writes (pcs s u) = Some k" using that wr by blast
  moreover have "(\<exists>u. reads (pcs s' u) = Some k)" if "\<exists>u. reads (pcs s u) = Some k" using that rd by blast
  ultimately show ?thesis using assms(1-9) unfolding ticket_phase_def by (elim conjE disjE) auto
qed

lemma sinv_local:
  assumes inv: "mpmc_sinv c s"
    and "writes (pcs s t) = None" "reads (pcs s t) = None" "writes pc = None" "reads pc = None"
    and ok: "pc_ok c s pc"
  shows "mpmc_sinv c (goto t pc s)"
proof -
  let ?s = "goto t pc s"
  have same: "enq ?s = enq s" "deq ?s = deq s" "seqno c ?s = seqno c s" "stored c ?s = stored c s"
    "claimed ?s = claimed s" "taken ?s = taken s" "mq ?s = mq s"
    by (simp_all add: sinv_defs fun_eq_iff)
  have rw: "writes (pcs ?s u) = writes (pcs s u)" "reads (pcs ?s u) = reads (pcs s u)" for u
    using assms by (simp_all add: goto_def)
  have pc: "pc_ok c ?s pc' = pc_ok c s pc'" for pc' by (cases pc') (simp_all add: same)
  have "ticket_phase c ?s = ticket_phase c s" by (simp add: ticket_phase_def same rw fun_eq_iff)
  moreover have "pc_ok c ?s (pcs ?s u)" for u
    using inv ok by (simp add: pc) (simp add: goto_def mpmc_sinv_def)
  moreover have "taken_ok ?s = taken_ok s" by (simp add: taken_ok_def same rw)
  ultimately show ?thesis using inv by (simp add: mpmc_sinv_def exclusive_def same rw)
qed

text \<open>Writing the slot of ticket \<open>p\<close> changes what is seen of the tickets of that slot only.\<close>

lemma set_slot_frame:
  assumes "mpmc_sinv c s"
  shows "enq (set_slot c p sl s) = enq s" "deq (set_slot c p sl s) = deq s"
    "claimed (set_slot c p sl s) = claimed s" "taken (set_slot c p sl s) = taken s"
    "pcs (set_slot c p sl s) = pcs s" "length (slots (mq (set_slot c p sl s))) = length (slots (mq s))"
    "seqno c (set_slot c p sl s) k =
       (if k mod unat c = unat p mod unat c then unat (sequence sl) else seqno c s k)"
    "stored c (set_slot c p sl s) k =
       (if k mod unat c = unat p mod unat c then storage sl else stored c s k)"
proof -
  have "is_pow2 c" "length (slots (mq s)) = unat c" using assms by (simp_all add: mpmc_sinv_def mpmc_capacity_ok_iff)
  then show "enq (set_slot c p sl s) = enq s" "deq (set_slot c p sl s) = deq s"
    "claimed (set_slot c p sl s) = claimed s" "taken (set_slot c p sl s) = taken s"
    "pcs (set_slot c p sl s) = pcs s" "length (slots (mq (set_slot c p sl s))) = length (slots (mq s))"
    "seqno c (set_slot c p sl s) k =
       (if k mod unat c = unat p mod unat c then unat (sequence sl) else seqno c s k)"
    "stored c (set_slot c p sl s) k =
       (if k mod unat c = unat p mod unat c then storage sl else stored c s k)"
    by (auto simp: sinv_defs ring_index_mod is_pow2_dvd(1))
qed

lemma claimed_facts:
  assumes "mpmc_sinv c s"
  shows "writes (pcs s t) = Some P \<Longrightarrow> deq s \<le> P \<and> P < enq s \<and> seqno c s P = P"
    and "reads (pcs s t) = Some P \<Longrightarrow> P < deq s \<and> P < enq s \<and> seqno c s P = P + 1"
proof -
  have ok: "pc_ok c s (pcs s t)" and le: "deq s \<le> enq s" using assms by (simp_all add: mpmc_sinv_def)
  show "deq s \<le> P \<and> P < enq s \<and> seqno c s P = P" if "writes (pcs s t) = Some P"
    using ok that by (cases "pcs s t") auto
  show "P < deq s \<and> P < enq s \<and> seqno c s P = P + 1" if "reads (pcs s t) = Some P"
    using ok that le by (cases "pcs s t") auto
qed

text \<open>
  The owner of ticket \<open>P\<close> changes its slot. No other thread's knowledge is about that slot.
\<close>

lemma owner_frame:
  assumes inv: "mpmc_sinv c s"
    and own: "writes (pcs s t) = Some P \<or> reads (pcs s t) = Some P" and u: "u \<noteq> t"
    and same: "enq s' = enq s" "deq s' = deq s" "claimed s' = claimed s"
    and frame: "\<And>k. k mod unat c \<noteq> P mod unat c \<Longrightarrow> seqno c s' k = seqno c s k \<and> stored c s' k = stored c s k"
  shows "pc_ok c s' (pcs s u)"
proof -
  have C: "2 \<le> unat c" using inv by (simp add: mpmc_sinv_def capacity_bounds)
  have P: "deq s \<le> P \<and> P < enq s \<and> seqno c s P = P \<or> P < deq s \<and> P < enq s \<and> seqno c s P = P + 1"
    using own claimed_facts [OF inv] by blast
  have meet: "k = P" if "k mod unat c = P mod unat c" "seqno c s k = k \<or> seqno c s k = k + 1" for k
  proof (rule same_ticket [OF C that(1)])
    have "seqno c s k = seqno c s P" using that(1) by (simp add: seqno_def)
    with P that(2) show "k = P \<or> k = P + 1 \<or> P = k + 1" by linarith
  qed
  have ok: "pc_ok c s (pcs s u)" and le: "deq s \<le> enq s" using inv by (simp_all add: mpmc_sinv_def)
  have w: "writes (pcs s u) \<noteq> Some P" and r: "reads (pcs s u) \<noteq> Some P"
    using own u exclusiveD [OF mpmc_sinvD(6) [OF inv]] claimed_facts [OF inv, of u P]
      claimed_facts [OF inv, of t P] by (metis leD)+
  show ?thesis
  proof (cases "pcs s u")
    case (E_Ready x p)
    with ok meet [of "unat p"] frame [of "unat p"] P show ?thesis
      by (cases "unat p mod unat c = P mod unat c") (auto simp: same)
  next
    case (E_Claimed x p)
    with ok w meet [of "unat p"] frame [of "unat p"] show ?thesis by (auto simp: same)
  next
    case (E_Built x p)
    with ok w meet [of "unat p"] frame [of "unat p"] show ?thesis by (auto simp: same)
  next
    case (D_Ready p)
    with ok meet [of "unat p"] frame [of "unat p"] P show ?thesis
      by (cases "unat p mod unat c = P mod unat c") (auto simp: same)
  next
    case (D_Claimed p)
    with ok r meet [of "unat p"] frame [of "unat p"] show ?thesis by (auto simp: same)
  next
    case (D_Moved p v)
    with ok r meet [of "unat p"] frame [of "unat p"] show ?thesis by (auto simp: same)
  qed (use ok in \<open>simp_all add: same\<close>)
qed

lemma sinv_owner:
  assumes inv: "mpmc_sinv c s"
    and own: "writes (pcs s t) = Some P \<or> reads (pcs s t) = Some P"
    and same: "enq s' = enq s" "deq s' = deq s" "claimed s' = claimed s"
    and frame: "\<And>k. k mod unat c \<noteq> P mod unat c \<Longrightarrow> seqno c s' k = seqno c s k \<and> stored c s' k = stored c s k"
    and len: "length (slots (mq s')) = length (slots (mq s))"
    and pcs: "pcs s' = (pcs s)(t := pc)" and ok: "pc_ok c s' pc"
    and wr: "writes pc = None \<or> writes pc = writes (pcs s t)" "reads pc = None \<or> reads pc = reads (pcs s t)"
    and phase: "k' mod unat c = P mod unat c" "ticket_phase c s' k'"
    and taken: "taken_ok s'"
  shows "mpmc_sinv c s'"
proof -
  have "pc_ok c s' (pcs s' u)" for u
    using ok owner_frame [OF inv own _ same frame] by (simp add: pcs)
  moreover have "\<exists>k. k mod unat c = j \<and> ticket_phase c s' k" if j: "j < unat c" for j
  proof (cases "j = P mod unat c")
    case True
    with phase show ?thesis by blast
  next
    case False
    from inv j obtain k where k: "k mod unat c = j" "ticket_phase c s k" unfolding mpmc_sinv_def by blast
    with False have fr: "seqno c s' k = seqno c s k" "stored c s' k = stored c s k" "k \<noteq> P"
      using frame [of k] by auto
    have "writes (pcs s' u) = Some k" if "writes (pcs s u) = Some k" for u
      using that own fr(3) one_ticket [of "pcs s t"] by (cases "u = t") (auto simp: pcs)
    moreover have "reads (pcs s' u) = Some k" if "reads (pcs s u) = Some k" for u
      using that own fr(3) one_ticket [of "pcs s t"] by (cases "u = t") (auto simp: pcs)
    moreover have "enq s \<le> k + unat c" using k(2) by (simp add: ticket_phase_def)
    ultimately have "ticket_phase c s' k"
      by (intro ticket_phase_frame [OF k(2)]) (simp_all add: fr same)
    with k(1) show ?thesis by blast
  qed
  moreover have w: "writes (pcs s' u) = Some k \<Longrightarrow> writes (pcs s u) = Some k"
    and r: "reads (pcs s' u) = Some k \<Longrightarrow> reads (pcs s u) = Some k" for u k
    using wr by (auto simp: pcs split: if_splits)
  moreover have "exclusive s'"
    unfolding exclusive_def using exclusiveD [OF mpmc_sinvD(6) [OF inv]] w r by blast
  ultimately show ?thesis
    using taken mpmc_sinvD [OF inv] by (simp add: mpmc_sinv_def same len)
qed

lemma goto_frame [simp]:
  "enq (goto t pc s) = enq s" "deq (goto t pc s) = deq s" "seqno c (goto t pc s) = seqno c s"
  "stored c (goto t pc s) = stored c s" "claimed (goto t pc s) = claimed s"
  "taken (goto t pc s) = taken s" "mq (goto t pc s) = mq s" "pcs (goto t pc s) = (pcs s)(t := pc)"
  by (simp_all add: sinv_defs fun_eq_iff)

lemma taken_ok_same_reads:
  assumes "taken_ok s" and "deq s' = deq s" "claimed s' = claimed s" "taken s' = taken s"
    and "\<And>u. reads (pcs s' u) = reads (pcs s u)"
  shows "taken_ok s'"
  using assms by (simp add: taken_ok_def)

lemma slot_at_seqno:
  assumes "mpmc_sinv c s"
  shows "unat (sequence (slot_at c s p)) = seqno c s (unat p)" "storage (slot_at c s p) = stored c s (unat p)"
  using mpmc_sinvD(1) [OF assms]
  by (simp_all add: slot_at_def seqno_def stored_def mpmc_capacity_ok_iff ring_index_mod)

lemma sinv_construct:
  assumes inv: "mpmc_sinv c s" and pc: "pcs s t = E_Claimed x p"
  shows "mpmc_sinv c (goto t (E_Built x p) (set_slot c p ((slot_at c s p)\<lparr> storage := Some x \<rparr>) s))"
    (is "mpmc_sinv c ?s")
proof (rule sinv_owner [OF inv, where t = t and P = "unat p" and k' = "unat p" and pc = "E_Built x p"])
  note fr = set_slot_frame [OF inv] slot_at_seqno [OF inv]
  have ok: "pc_ok c s (E_Claimed x p)" using mpmc_sinvD(5) [OF inv, of t] by (simp add: pc)
  then have "ticket_phase c s (unat p)" by (intro slot_ticket [OF inv]) simp
  moreover have "writes (pcs ?s t) = Some (unat p)" by simp
  ultimately show "ticket_phase c ?s (unat p)" using ok by (auto simp: ticket_phase_def fr)
  show "pc_ok c ?s (E_Built x p)" using ok by (simp add: fr)
  show "taken_ok ?s"
    by (rule taken_ok_same_reads [OF mpmc_sinvD(7) [OF inv]]) (auto simp: fr pc)
qed (simp_all add: pc set_slot_frame [OF inv])

lemma sinv_publish:
  assumes inv: "mpmc_sinv c s" and pc: "pcs s t = E_Built x p" and no_wrap: "enq s < 2 ^ 63"
  shows "mpmc_sinv c (goto t M_Idle (set_slot c p ((slot_at c s p)\<lparr> sequence := p + 1 \<rparr>) s))"
    (is "mpmc_sinv c ?s")
proof (rule sinv_owner [OF inv, where t = t and P = "unat p" and k' = "unat p" and pc = M_Idle])
  note fr = set_slot_frame [OF inv] slot_at_seqno [OF inv]
  have ok: "pc_ok c s (E_Built x p)" using mpmc_sinvD(5) [OF inv, of t] by (simp add: pc)
  then have "unat p < 2 ^ 63" using no_wrap by simp
  then have p1: "unat (p + 1) = unat p + 1" by (simp add: unat_plus_if')
  have "ticket_phase c s (unat p)" using ok by (intro slot_ticket [OF inv]) simp
  then show "ticket_phase c ?s (unat p)" using ok p1 by (auto simp: ticket_phase_def fr)
  show "taken_ok ?s"
    by (rule taken_ok_same_reads [OF mpmc_sinvD(7) [OF inv]]) (auto simp: fr pc)
qed (simp_all add: pc set_slot_frame [OF inv])

lemma sinv_move:
  assumes inv: "mpmc_sinv c s" and pc: "pcs s t = D_Claimed p" and v: "storage (slot_at c s p) = Some v"
  shows "mpmc_sinv c (goto t (D_Moved p v) (set_slot c p ((slot_at c s p)\<lparr> storage := None \<rparr>) s))"
    (is "mpmc_sinv c ?s")
proof (rule sinv_owner [OF inv, where t = t and P = "unat p" and k' = "unat p" and pc = "D_Moved p v"])
  note fr = set_slot_frame [OF inv] slot_at_seqno [OF inv]
  have ok: "pc_ok c s (D_Claimed p)" using mpmc_sinvD(5) [OF inv, of t] by (simp add: pc)
  then have "ticket_phase c s (unat p)" by (intro slot_ticket [OF inv]) simp
  moreover have "reads (pcs ?s t) = Some (unat p)" by simp
  ultimately show "ticket_phase c ?s (unat p)" using ok by (auto simp: ticket_phase_def fr)
  show "pc_ok c ?s (D_Moved p v)" using ok v by (simp add: fr)
  show "taken_ok ?s"
    by (rule taken_ok_same_reads [OF mpmc_sinvD(7) [OF inv]]) (auto simp: fr pc)
qed (simp_all add: pc set_slot_frame [OF inv])

lemma sinv_release:
  assumes inv: "mpmc_sinv c s" and pc: "pcs s t = D_Moved p v" and no_wrap: "enq s < 2 ^ 63"
  shows "mpmc_sinv c (goto t M_Idle (set_slot c p ((slot_at c s p)\<lparr> sequence := p + (c - 1) + 1 \<rparr>)
    (s\<lparr> taken := taken s @ [(unat p, v)] \<rparr>)))" (is "mpmc_sinv c ?s")
proof (rule sinv_owner [OF inv, where t = t and P = "unat p" and k' = "unat p + unat c" and pc = M_Idle])
  let ?tk = "taken s @ [(unat p, v)]"
  have swap: "set_slot c p sl (s\<lparr> taken := ?tk \<rparr>) = (set_slot c p sl s)\<lparr> taken := ?tk \<rparr>" for sl
    by (simp add: set_slot_def)
  have upd [simp]: "enq (u\<lparr> taken := ?tk \<rparr>) = enq u" "deq (u\<lparr> taken := ?tk \<rparr>) = deq u"
    "seqno c (u\<lparr> taken := ?tk \<rparr>) = seqno c u" "stored c (u\<lparr> taken := ?tk \<rparr>) = stored c u" for u
    by (simp_all add: enq_def deq_def seqno_def stored_def fun_eq_iff)
  note fr = swap set_slot_frame [OF inv] slot_at_seqno [OF inv]
  have ok: "pc_ok c s (D_Moved p v)" using mpmc_sinvD(5) [OF inv, of t] by (simp add: pc)
  then have lt: "unat p < deq s" and st: "stored c s (unat p) = None" and v: "claimed s ! unat p = v"
    by simp_all
  have ph: "ticket_phase c s (unat p)" using ok by (intro slot_ticket [OF inv]) simp
  have "unat p < 2 ^ 63" using lt no_wrap mpmc_sinvD(4) [OF inv] by simp
  moreover have "unat c \<le> 2 ^ 63" using mpmc_sinvD(1) [OF inv] capacity_bounds by blast
  ultimately have "unat (p + (c - 1) + 1) = unat p + unat c" by (simp add: unat_plus_if')
  then show "ticket_phase c ?s (unat p + unat c)"
    using lt st ph mpmc_sinvD(4) [OF inv] by (simp add: ticket_phase_def fr)
  have rd: "reads (pcs ?s u) = Some k \<longleftrightarrow> u \<noteq> t \<and> reads (pcs s u) = Some k" for u k
    by (simp add: fr)
  have tk: "taken_ok s" by (rule mpmc_sinvD(7) [OF inv])
  have rt: "reads (pcs s t) = Some (unat p)" by (simp add: pc)
  then have "unat p \<notin> fst ` set (taken s)" using tk by (force simp: taken_ok_def)
  moreover have "reads (pcs s u) \<noteq> Some (unat p)" if "u \<noteq> t" for u
    using that rt exclusiveD(2) [OF mpmc_sinvD(6) [OF inv]] by blast
  moreover have "k \<in> insert (unat p) (fst ` set (taken s)) \<or> (\<exists>u. u \<noteq> t \<and> reads (pcs s u) = Some k)"
    if "k < deq s" for k
    using tk that rt unfolding taken_ok_def by (metis insertCI option.inject)
  ultimately show "taken_ok ?s"
    using tk lt v unfolding taken_ok_def rd by (auto simp: fr)
qed (use mpmc_sinvD(1) [OF inv] in \<open>simp_all add: pc sinv_defs ring_index_mod mpmc_capacity_ok_iff\<close>)

lemma sinv_push_claim:
  assumes inv: "mpmc_sinv c s" and pc: "pcs s t = E_Ready x p" and cur: "enqueue_pos (mq s) = p"
    and no_wrap: "enq s < 2 ^ 63"
  shows "mpmc_sinv c (goto t (E_Claimed x p)
      (s\<lparr> mq := (mq s)\<lparr> enqueue_pos := p + 1 \<rparr>, claimed := claimed s @ [x] \<rparr>))" (is "mpmc_sinv c ?s")
proof -
  have p: "unat p = enq s" by (simp add: enq_def cur)
  then have p1: "unat (p + 1) = enq s + 1" using no_wrap by (simp add: unat_plus_if')
  let ?i = "s\<lparr> mq := (mq s)\<lparr> enqueue_pos := p + 1 \<rparr>, claimed := claimed s @ [x] \<rparr>"
  have fr: "enq ?i = enq s + 1" "deq ?i = deq s" "seqno c ?i = seqno c s" "stored c ?i = stored c s"
    by (simp_all add: enq_def deq_def seqno_def stored_def fun_eq_iff p1)
  note facts = mpmc_sinvD [OF inv]
  have "pc_ok c s (E_Ready x p)" using facts(5) [of t] by (simp add: pc)
  then have seq: "seqno c s (enq s) = enq s" using p by simp
  then have "ticket_phase c s (enq s)" by (intro slot_ticket [OF inv]) simp
  then have win: "enq s < deq s + unat c" and free: "stored c s (enq s) = None" using seq facts(4) by (auto simp: ticket_phase_def)
  have nth: "(claimed s @ [x]) ! k = claimed s ! k" if "k < enq s" for k
    using that facts(3) by (simp add: nth_append)
  have new: "pc_ok c ?s (E_Claimed x p)" using p seq free facts by (simp add: fr nth_append)
  have "pc_ok c ?s (pcs ?s u)" for u
  proof (cases "u = t")
    case True
    with new show ?thesis by simp
  next
    case False
    then show ?thesis using facts(5) [of u] facts(4) by (cases "pcs s u") (auto simp: fr nth)
  qed
  moreover have "\<exists>k. k mod unat c = j \<and> ticket_phase c ?s k" if j: "j < unat c" for j
  proof -
    from inv j obtain k where k: "k mod unat c = j" "ticket_phase c s k" unfolding mpmc_sinv_def by blast
    have wr: "writes (pcs ?s u) = Some k'" if "writes (pcs s u) = Some k'" for u k' using that by (auto simp: pc)
    have rd: "reads (pcs ?s u) = Some k'" if "reads (pcs s u) = Some k'" for u k' using that by (auto simp: pc)
    have "ticket_phase c ?s (enq s)"
      using facts(1,4) seq p win capacity_bounds [of c]
      by (auto simp: ticket_phase_def fr intro!: exI [where x = t])
    moreover have "enq s + 1 \<le> k + unat c \<and> k \<noteq> enq s" if "j \<noteq> enq s mod unat c"
    proof -
      have "enq s \<noteq> k + unat c" "k \<noteq> enq s" using that k(1) by auto
      with k(2) show ?thesis by (simp add: ticket_phase_def)
    qed
    then have "ticket_phase c ?s k" if "j \<noteq> enq s mod unat c"
      using that by (intro ticket_phase_frame [OF k(2)] wr rd) (simp_all add: fr nth)
    ultimately show ?thesis using k(1) by blast
  qed
  moreover have "exclusive ?s"
    using exclusiveD [OF facts(6)] claimed_facts [OF inv] unfolding exclusive_def
    by (auto simp: p) (metis nat_neq_iff)+
  moreover have "taken_ok ?s"
  proof -
    have "reads (pcs ?s u) = reads (pcs s u)" for u by (simp add: pc)
    then show ?thesis using facts(4,7) nth by (fastforce simp: taken_ok_def fr)
  qed
  ultimately show ?thesis using facts by (simp add: mpmc_sinv_def fr)
qed

lemma sinv_pop_claim:
  assumes inv: "mpmc_sinv c s" and pc: "pcs s t = D_Ready p" and cur: "dequeue_pos (mq s) = p"
    and no_wrap: "enq s < 2 ^ 63"
  shows "mpmc_sinv c (goto t (D_Claimed p) (s\<lparr> mq := (mq s)\<lparr> dequeue_pos := p + 1 \<rparr> \<rparr>))"
    (is "mpmc_sinv c ?s")
proof -
  note facts = mpmc_sinvD [OF inv]
  let ?i = "s\<lparr> mq := (mq s)\<lparr> dequeue_pos := p + 1 \<rparr> \<rparr>"
  have p: "unat p = deq s" by (simp add: deq_def cur)
  then have p1: "unat (p + 1) = deq s + 1" using no_wrap facts(4) by (simp add: unat_plus_if')
  have fr: "enq ?i = enq s" "deq ?i = deq s + 1" "seqno c ?i = seqno c s" "stored c ?i = stored c s"
    by (simp_all add: enq_def deq_def seqno_def stored_def fun_eq_iff p1)
  have "pc_ok c s (D_Ready p)" using facts(5) [of t] by (simp add: pc)
  then have seq: "seqno c s (deq s) = deq s + 1" using p by simp
  then have "ticket_phase c s (deq s)" by (intro slot_ticket [OF inv]) simp
  then have full: "deq s < enq s" "stored c s (deq s) = Some (claimed s ! deq s)"
    and win: "enq s \<le> deq s + unat c" using seq by (auto simp: ticket_phase_def)
  have "pc_ok c ?s (pcs ?s u)" for u
  proof (cases "u = t")
    case True
    then show ?thesis using seq full p by (simp add: fr)
  next
    case False
    have "k \<noteq> deq s" if "writes (pcs s u) = Some k" for k
      using claimed_facts(1) [OF inv that] seq by auto
    with False show ?thesis using facts(5) [of u] by (cases "pcs s u") (auto simp: fr Suc_le_eq le_neq_implies_less)
  qed
  moreover have "\<exists>k. k mod unat c = j \<and> ticket_phase c ?s k" if j: "j < unat c" for j
  proof (cases "j = deq s mod unat c")
    case True
    have "ticket_phase c ?s (deq s)"
      using seq full win p by (auto simp: ticket_phase_def fr intro!: exI [where x = t])
    with True show ?thesis by blast
  next
    case False
    from inv j obtain k where k: "k mod unat c = j" "ticket_phase c s k" unfolding mpmc_sinv_def by blast
    have wr: "writes (pcs ?s u) = Some k'" if "writes (pcs s u) = Some k'" for u k' using that by (auto simp: pc)
    have rd: "reads (pcs ?s u) = Some k'" if "reads (pcs s u) = Some k'" for u k' using that by (auto simp: pc)
    have "k \<noteq> deq s" using False k(1) by auto
    moreover have "enq s \<le> k + unat c" using k(2) by (simp add: ticket_phase_def)
    ultimately have "ticket_phase c ?s k"
      by (intro ticket_phase_frame [OF k(2)] wr rd) (simp_all add: fr)
    with k(1) show ?thesis by blast
  qed
  moreover have "exclusive ?s"
    using exclusiveD [OF facts(6)] claimed_facts [OF inv] unfolding exclusive_def
    by (auto simp: p) (metis nat_neq_iff)+
  moreover have "taken_ok ?s"
  proof -
    have rd: "reads (pcs ?s u) = (if u = t then Some (deq s) else reads (pcs s u))" for u by (simp add: p)
    have tk: "taken_ok s" and rt: "reads (pcs s t) = None" using facts(7) by (simp_all add: pc)
    have "k \<in> fst ` set (taken s) \<or> (\<exists>u. reads (pcs ?s u) = Some k)" if "k < deq s + 1" for k
    proof (cases "k = deq s")
      case False
      with tk that rt show ?thesis unfolding taken_ok_def rd by (metis add.commute less_Suc_eq option.distinct(1) plus_1_eq_Suc)
    next
      case True
      then show ?thesis using rd [of t] by auto
    qed
    then show ?thesis using tk unfolding taken_ok_def rd by (auto simp: fr)
  qed
  ultimately show ?thesis using facts full by (simp add: mpmc_sinv_def fr Suc_le_eq)
qed

lemma claimed_grows: "mpmc_step c s s' \<Longrightarrow> length (claimed s) \<le> length (claimed s')"
  by (induction rule: mpmc_step.induct) (simp_all add: set_slot_def)

lemma seq_ready:
  assumes "mpmc_sinv c s" and "sequence (slot_at c s p) - w = 0"
  shows "seqno c s (unat p) = unat w"
  using assms slot_at_seqno(1) [OF assms(1), of p] by simp

lemma mpmc_sinv_step:
  assumes "mpmc_step c s s'" and inv: "mpmc_sinv c s" and no_wrap: "enq s < 2 ^ 63"
  shows "mpmc_sinv c s'"
proof -
  have ok: "pc_ok c s (pcs s t)" for t by (rule mpmc_sinvD(5) [OF inv])
  have le: "deq s \<le> enq s" by (rule mpmc_sinvD(4) [OF inv])
  have cur: "pc_ok c s (E_Load x (enqueue_pos (mq s)))" "pc_ok c s (D_Load (dequeue_pos (mq s)))" for x
    by (simp_all add: enq_def deq_def)
  show ?thesis
    using assms(1)
  proof cases
    case (push_ready t x p)
    with ok [of t] seq_ready [OF inv, of p p] show ?thesis by (auto intro!: sinv_local [OF inv])
  next
    case (pop_release t p v)
    show ?thesis unfolding pop_release(1) by (rule sinv_release [OF inv pop_release(2) no_wrap])
  next
    case (pop_ready t p)
    have "unat p < 2 ^ 63" using ok [of t] le no_wrap by (simp add: pop_ready)
    then have "unat (p + 1) = unat p + 1" by (simp add: unat_plus_if')
    with pop_ready ok [of t] seq_ready [OF inv, of p "p + 1"] show ?thesis
      by (auto intro!: sinv_local [OF inv])
  qed (auto intro!: sinv_local [OF inv] sinv_construct [OF inv] sinv_publish [OF inv _ no_wrap]
      sinv_move [OF inv] sinv_push_claim [OF inv _ _ no_wrap]
      sinv_pop_claim [OF inv _ _ no_wrap] simp: cur simp del: pc_ok.simps(2,6))
qed

interpretation mpmc_run: inductive_invariant "mpmc_init c" "mpmc_step c"
  "\<lambda>s. length (claimed s) < 2 ^ 63 \<longrightarrow> mpmc_sinv c s" for c
proof unfold_locales
  fix s s' :: "'a mpmc_sys"
  assume inv: "length (claimed s) < 2 ^ 63 \<longrightarrow> mpmc_sinv c s" and st: "mpmc_step c s s'"
  show "length (claimed s') < 2 ^ 63 \<longrightarrow> mpmc_sinv c s'"
  proof
    assume "length (claimed s') < 2 ^ 63"
    with claimed_grows [OF st] have "length (claimed s) < 2 ^ 63" by simp
    with inv have 1: "mpmc_sinv c s" and 2: "enq s < 2 ^ 63" using mpmc_sinvD(3) [of c s] by simp_all
    show "mpmc_sinv c s'" by (rule mpmc_sinv_step [OF st 1 2])
  qed
qed (simp add: mpmc_sinv_init)

lemma outstanding:
  assumes inv: "mpmc_sinv c s"
  shows "enq s \<le> deq s + unat c"
proof -
  have "0 < unat c" using capacity_bounds mpmc_sinvD(1) [OF inv] by fastforce
  then have "deq s mod unat c < unat c" by simp
  with inv obtain k where k: "k mod unat c = deq s mod unat c" and ph: "ticket_phase c s k"
    unfolding mpmc_sinv_def by blast
  have "k \<le> deq s" using mod_gap [of "deq s" "unat c" k] k ph by (force simp: ticket_phase_def)
  with ph show ?thesis by (simp add: ticket_phase_def)
qed

section \<open>Linearity of the tickets\<close>


lemma mpmc_reach_claimed:
  "reach (mpmc_init 2) (mpmc_step 2)
    \<lparr> mq = (mpmc_new 2)\<lparr> enqueue_pos := 1 \<rparr>, pcs = (\<lambda>t. M_Idle)(0 := E_Claimed (5::nat) 0),
      claimed = [5], taken = [] \<rparr>"
proof -
  let ?R = "reach (mpmc_init 2) (mpmc_step 2)"
  let ?s = "\<lambda>pc. \<lparr> mq = mpmc_new 2, pcs = (\<lambda>t. M_Idle)(0 := pc), claimed = [] :: nat list, taken = [] \<rparr>"
  have e0: "enqueue_pos (mpmc_new 2 :: nat mpmc) = 0" by (simp add: mpmc_new_def)
  have "mpmc_init 2 (?s M_Idle)" by (simp add: mpmc_init_def mpmc_capacity_ok_def fun_eq_iff)
  then have "?R (?s M_Idle)" by (rule reach_init)
  then have "?R (goto 0 (E_Load 5 (enqueue_pos (mq (?s M_Idle)))) (?s M_Idle))"
    by (rule reach_step) (rule push_start, simp)
  then have "?R (?s (E_Load 5 0))" by (simp add: goto_def e0)
  then have "?R (goto 0 (E_Ready 5 0) (?s (E_Load 5 0)))"
    by (rule reach_step) (rule push_ready, simp_all add: slot_at_def ring_index_def mpmc_new_def)
  then have "?R (?s (E_Ready 5 0))" by (simp add: goto_def)
  then have "?R (goto 0 (E_Claimed 5 0) ((?s (E_Ready 5 0))
      \<lparr> mq := (mpmc_new 2)\<lparr> enqueue_pos := 0 + 1 \<rparr>, claimed := [] @ [5] \<rparr>))"
    by (rule reach_step) (use push_claim [of "?s (E_Ready 5 0)" 0 5 0 2] in \<open>simp add: e0\<close>)
  then show ?thesis by (simp add: goto_def)
qed


end
