(* ===== verification/Ticket_Queue.thy ===== *)
theory Ticket_Queue
  imports Prelude
begin

text \<open>
  The contract of the MPMC queue towards threads that use it at the same time. A push first takes a ticket and only
  then publishes its value; pops take tickets in order and find nothing while the oldest ticket
  is unpublished, even if later ones are. A slot is reusable only when the pop that emptied it has released it, so a push
  can be refused a moment longer than the queue is full. \<open>Mpmc_Refines\<close> proves that the queue keeps this contract; the executor and the
  reactor are built on it.
\<close>

section \<open>Tickets\<close>

text \<open>A ticket is its value and whether it is published.\<close>

type_synonym 'a tickets = "('a \<times> bool) list"

definition claim_ticket :: "nat \<Rightarrow> 'a \<Rightarrow> 'a tickets \<Rightarrow> 'a tickets option" where
  "claim_ticket cap x q = (if length q < cap then Some (q @ [(x, False)]) else None)"

definition publish_ticket :: "nat \<Rightarrow> 'a tickets \<Rightarrow> 'a tickets" where
  "publish_ticket i q = q[i := (fst (q ! i), True)]"

fun take_ticket :: "'a tickets \<Rightarrow> ('a \<times> 'a tickets) option" where
  "take_ticket ((x, True) # q) = Some (x, q)"
| "take_ticket _ = None"

lemma take_ticket_Some [simp]: "take_ticket q = Some (x, q') \<longleftrightarrow> q = (x, True) # q'"
  by (cases q rule: take_ticket.cases) auto

lemma take_ticket_None [simp]: "take_ticket q = None \<longleftrightarrow> q = [] \<or> \<not> snd (hd q)"
  by (cases q rule: take_ticket.cases) auto

lemma claim_ticket_Some [simp]: "claim_ticket cap x q = Some q' \<longleftrightarrow> length q < cap \<and> q' = q @ [(x, False)]"
  by (auto simp: claim_ticket_def)

lemma publish_ticket_values [simp]: "map fst (publish_ticket i q) = map fst q" "length (publish_ticket i q) = length q"
  by (auto simp: publish_ticket_def map_update list_update_id) (metis list_update_beyond list_update_id linorder_not_less map_update nth_map)

text \<open>The tickets that can be taken without another publication.\<close>

definition ready_tickets :: "'a tickets \<Rightarrow> 'a list" where
  "ready_tickets q = map fst (takeWhile snd q)"

lemma ready_tickets_simps [simp]:
  "ready_tickets [] = []" "ready_tickets ((x, True) # q) = x # ready_tickets q" "ready_tickets ((x, False) # q) = []"
  by (simp_all add: ready_tickets_def)

lemma ready_tickets_le: "length (ready_tickets q) \<le> length q"
  by (simp add: ready_tickets_def length_takeWhile_le)

lemma ready_tickets_claim [simp]: "ready_tickets (q @ [(x, False)]) = ready_tickets q"
  by (simp add: ready_tickets_def takeWhile_tail)

lemma ready_tickets_publish: "length (ready_tickets q) \<le> length (ready_tickets (publish_ticket i q))"
proof (induction q arbitrary: i)
  case (Cons e q)
  obtain x b where e: "e = (x, b)" by (cases e)
  have "publish_ticket (Suc j) (e # q) = e # publish_ticket j q" for j by (simp add: publish_ticket_def)
  moreover have "publish_ticket 0 (e # q) = (x, True) # q" by (simp add: publish_ticket_def e)
  ultimately show ?case using Cons.IH by (cases i; cases b) (simp_all add: e)
qed (simp add: publish_ticket_def)

lemma ready_tickets_all: "(\<And>i. i < length q \<Longrightarrow> snd (q ! i)) \<Longrightarrow> ready_tickets q = map fst q"
proof -
  assume "\<And>i. i < length q \<Longrightarrow> snd (q ! i)"
  then have "takeWhile snd q = q" unfolding takeWhile_eq_all_conv by (metis in_set_conv_nth)
  then show ?thesis unfolding ready_tickets_def by (simp only:)
qed

lemma ready_tickets_none: "take_ticket q = None \<Longrightarrow> ready_tickets q = []"
  by (cases q) (auto simp: ready_tickets_def)

lemma publish_ticket_nth:
  "i < length q \<Longrightarrow> j < length q \<Longrightarrow> publish_ticket i q ! j = (fst (q ! j), if j = i then True else snd (q ! j))"
  by (simp add: publish_ticket_def nth_list_update)

section \<open>The contract\<close>

record 'a ticket_queue =
  first_ticket :: nat
  tickets :: "'a tickets"
  releasing :: "nat set"

lemma ticket_queue_upd:
  "first_ticket q' = first_ticket q \<Longrightarrow> releasing q' = releasing q \<Longrightarrow> tickets q' = ts \<Longrightarrow> q' = q\<lparr> tickets := ts \<rparr>"
  for q :: "'a ticket_queue"
  by (cases q; cases q') simp

definition ticket_queue_new :: "'a ticket_queue" where
  "ticket_queue_new = \<lparr> first_ticket = 0, tickets = [], releasing = {} \<rparr>"

inductive ticket_step :: "nat \<Rightarrow> 'a ticket_queue \<Rightarrow> 'a ticket_queue \<Rightarrow> bool" for cap where
  ticket_claim: "claim_ticket cap x (tickets q) = Some q' \<Longrightarrow> ticket_step cap q (q\<lparr> tickets := q' \<rparr>)"
| ticket_publish: "i < length (tickets q) \<Longrightarrow> ticket_step cap q (q\<lparr> tickets := publish_ticket i (tickets q) \<rparr>)"
| ticket_take: "take_ticket (tickets q) = Some (x, q') \<Longrightarrow>
    ticket_step cap q \<lparr> first_ticket = Suc (first_ticket q), tickets = q', releasing = insert (first_ticket q) (releasing q) \<rparr>"
| ticket_release: "k \<in> releasing q \<Longrightarrow> ticket_step cap q (q\<lparr> releasing := releasing q - {k} \<rparr>)"

text \<open>When a push may be told that the queue is full, and a pop that it is empty.\<close>

definition may_refuse :: "nat \<Rightarrow> 'a ticket_queue \<Rightarrow> bool" where
  "may_refuse cap q \<longleftrightarrow> length (tickets q) = cap \<or>
     (\<exists>k \<in> releasing q. k + cap = first_ticket q + length (tickets q))"

definition may_miss :: "'a ticket_queue \<Rightarrow> bool" where
  "may_miss q \<longleftrightarrow> take_ticket (tickets q) = None"

end
