(* ===== verification/Mpmc_Refines.thy ===== *)
theory Mpmc_Refines
  imports Mpmc_Threads Ticket_Queue
begin

text \<open>
  The MPMC queue under any interleaving of threads keeps the contract of \<open>Ticket_Queue\<close>: every atomic action is a step of
  the contract or invisible, and the answers full and empty are given only when the contract
  allows them.
\<close>

section \<open>The tickets of a state\<close>

definition mpmc_tickets :: "size_t \<Rightarrow> 'a mpmc_sys \<Rightarrow> 'a ticket_queue" where
  "mpmc_tickets c s = \<lparr> first_ticket = deq s,
     tickets = map (\<lambda>k. (claimed s ! k, seqno c s k = k + 1)) [deq s..<enq s],
     releasing = {k. \<exists>t. reads (pcs s t) = Some k} \<rparr>"

lemma mpmc_tickets_frame:
  assumes "deq s' = deq s" "enq s' = enq s" "claimed s' = claimed s"
    and "\<And>k. deq s \<le> k \<Longrightarrow> k < enq s \<Longrightarrow> seqno c s' k = seqno c s k"
    and "\<And>t. reads (pcs s' t) = reads (pcs s t)"
  shows "mpmc_tickets c s' = mpmc_tickets c s"
  using assms by (simp add: mpmc_tickets_def)

lemma mpmc_tickets_simps [simp]:
  "first_ticket (mpmc_tickets c s) = deq s" "releasing (mpmc_tickets c s) = {k. \<exists>t. reads (pcs s t) = Some k}"
  "length (tickets (mpmc_tickets c s)) = enq s - deq s"
  by (simp_all add: mpmc_tickets_def)

lemma same_readers:
  assumes "\<And>t. reads (pcs s' t) = reads (pcs s t)"
  shows "releasing (mpmc_tickets c s') = releasing (mpmc_tickets c s)"
  using assms by simp

text \<open>Outstanding tickets have slots of their own.\<close>

lemma window_slot:
  assumes inv: "mpmc_sinv c s" and k: "deq s \<le> k" "k < enq s" and p: "deq s \<le> p" "p < enq s"
    and "k mod unat c = p mod unat c"
  shows "k = p"
proof -
  have le: "enq s \<le> deq s + unat c" by (rule outstanding [OF inv])
  have "a = b" if "a mod unat c = b mod unat c" "b \<le> a" "a < b + unat c" for a b
  proof -
    have "unat c dvd a - b" using that(1,2) by (simp add: mod_eq_dvd_iff_nat)
    moreover have "a - b < unat c" using that(2,3) by linarith
    ultimately show ?thesis using that(2) by (metis dvd_imp_le le_antisym linorder_not_less nat_less_le diff_is_0_eq neq0_conv)
  qed
  from this [of k p] this [of p k] show ?thesis using assms le by (cases "p \<le> k") auto
qed

section \<open>Visible steps\<close>

lemma refine_claim:
  assumes inv: "mpmc_sinv c s" and pc: "pcs s t = E_Ready x p" and cur: "enqueue_pos (mq s) = p" and no_wrap: "enq s < 2 ^ 63"
  shows "ticket_step (unat c) (mpmc_tickets c s) (mpmc_tickets c
    (goto t (E_Claimed x p) (s\<lparr> mq := (mq s)\<lparr> enqueue_pos := p + 1 \<rparr>, claimed := claimed s @ [x] \<rparr>)))" (is "ticket_step _ ?q (mpmc_tickets c ?s)")
proof -
  note facts = mpmc_sinvD [OF inv]
  have p: "unat p = enq s" by (simp add: enq_def cur)
  then have p1: "unat (p + 1) = enq s + 1" using no_wrap by (simp add: unat_plus_if')
  let ?i = "s\<lparr> mq := (mq s)\<lparr> enqueue_pos := p + 1 \<rparr>, claimed := claimed s @ [x] \<rparr>"
  have fr: "enq ?i = enq s + 1" "deq ?i = deq s" "seqno c ?i = seqno c s"
    by (simp_all add: enq_def deq_def seqno_def fun_eq_iff p1)
  have "pc_ok c s (E_Ready x p)" using facts(5) [of t] by (simp add: pc)
  then have seq: "seqno c s (enq s) = enq s" using p by simp
  then have "ticket_phase c s (enq s)" by (intro slot_ticket [OF inv]) simp
  then have win: "enq s < deq s + unat c" by (simp add: ticket_phase_def)
  have "releasing (mpmc_tickets c ?s) = releasing ?q" by (rule same_readers) (simp add: pc)
  moreover have "tickets (mpmc_tickets c ?s) = tickets ?q @ [(x, False)]"
    using facts(3,4) seq by (simp add: mpmc_tickets_def fr nth_append)
  ultimately have "mpmc_tickets c ?s = ?q\<lparr> tickets := tickets ?q @ [(x, False)] \<rparr>"
    by (intro ticket_queue_upd) (simp_all only: mpmc_tickets_simps(1) goto_frame fr)
  moreover have "claim_ticket (unat c) x (tickets ?q) = Some (tickets ?q @ [(x, False)])"
    using win facts(4) by (auto simp: mpmc_tickets_def)
  ultimately show ?thesis using ticket_claim by metis
qed

lemma refine_publish:
  assumes inv: "mpmc_sinv c s" and pc: "pcs s t = E_Built x p" and no_wrap: "enq s < 2 ^ 63"
  shows "ticket_step (unat c) (mpmc_tickets c s) (mpmc_tickets c
    (goto t M_Idle (set_slot c p ((slot_at c s p)\<lparr> sequence := p + 1 \<rparr>) s)))" (is "ticket_step _ ?q (mpmc_tickets c ?s)")
proof -
  note fr = set_slot_frame [OF inv]
  have ok: "pc_ok c s (E_Built x p)" using mpmc_sinvD(5) [OF inv, of t] by (simp add: pc)
  then have P: "deq s \<le> unat p" "unat p < enq s" by simp_all
  then have p1: "unat (p + 1) = unat p + 1" using no_wrap by (simp add: unat_plus_if')
  let ?i = "unat p - deq s"
  have s1: "deq ?s = deq s" "enq ?s = enq s" "claimed ?s = claimed s" by (simp_all add: fr)
  have "seqno c ?s k = (if k = unat p then unat p + 1 else seqno c s k)" if "deq s \<le> k" "k < enq s" for k
    using window_slot [OF inv that P] p1 by (auto simp: fr)
  then have "tickets (mpmc_tickets c ?s) = map (\<lambda>k. (claimed s ! k, k = unat p \<or> seqno c s k = k + 1)) [deq s..<enq s]"
    unfolding mpmc_tickets_def s1 by (auto simp del: goto_frame)
  also have "\<dots> = publish_ticket ?i (tickets ?q)"
    using P by (intro nth_equalityI) (auto simp: mpmc_tickets_def publish_ticket_def nth_list_update)
  finally have "tickets (mpmc_tickets c ?s) = publish_ticket ?i (tickets ?q)" .
  moreover have "releasing (mpmc_tickets c ?s) = releasing ?q" by (rule same_readers) (simp add: fr pc)
  ultimately have "mpmc_tickets c ?s = ?q\<lparr> tickets := publish_ticket ?i (tickets ?q) \<rparr>"
    by (intro ticket_queue_upd) (simp_all only: mpmc_tickets_simps(1) s1)
  moreover have "?i < length (tickets ?q)" using P by (simp add: mpmc_tickets_def)
  ultimately show ?thesis using ticket_publish by metis
qed

lemma refine_take:
  assumes inv: "mpmc_sinv c s" and pc: "pcs s t = D_Ready p" and cur: "dequeue_pos (mq s) = p" and no_wrap: "enq s < 2 ^ 63"
  shows "ticket_step (unat c) (mpmc_tickets c s) (mpmc_tickets c
    (goto t (D_Claimed p) (s\<lparr> mq := (mq s)\<lparr> dequeue_pos := p + 1 \<rparr> \<rparr>)))" (is "ticket_step _ ?q (mpmc_tickets c ?s)")
proof -
  note facts = mpmc_sinvD [OF inv]
  let ?i = "s\<lparr> mq := (mq s)\<lparr> dequeue_pos := p + 1 \<rparr> \<rparr>"
  have p: "unat p = deq s" by (simp add: deq_def cur)
  then have p1: "unat (p + 1) = deq s + 1" using no_wrap facts(4) by (simp add: unat_plus_if')
  have fr: "enq ?i = enq s" "deq ?i = deq s + 1" "seqno c ?i = seqno c s"
    by (simp_all add: enq_def deq_def seqno_def fun_eq_iff p1)
  have "pc_ok c s (D_Ready p)" using facts(5) [of t] by (simp add: pc)
  then have seq: "seqno c s (deq s) = deq s + 1" using p by simp
  then have "ticket_phase c s (deq s)" by (intro slot_ticket [OF inv]) simp
  then have lt: "deq s < enq s" using seq by (auto simp: ticket_phase_def)
  have "{k. \<exists>u. reads (pcs ?s u) = Some k} = insert (deq s) {k. \<exists>u. reads (pcs s u) = Some k}"
  proof -
    have "reads (pcs ?s u) = (if u = t then Some (deq s) else reads (pcs s u))" for u by (simp add: p)
    moreover have "reads (pcs s t) = None" by (simp add: pc)
    ultimately show ?thesis by (auto split: if_splits) (metis option.distinct(1))
  qed
  then have "mpmc_tickets c ?s = \<lparr> first_ticket = Suc (first_ticket ?q),
      tickets = map (\<lambda>k. (claimed s ! k, seqno c s k = k + 1)) [Suc (deq s)..<enq s],
      releasing = insert (first_ticket ?q) (releasing ?q) \<rparr>"
    by (simp add: mpmc_tickets_def fr)
  moreover have "tickets ?q = (claimed s ! deq s, True) # map (\<lambda>k. (claimed s ! k, seqno c s k = k + 1)) [Suc (deq s)..<enq s]"
    using lt seq by (simp add: mpmc_tickets_def upt_conv_Cons)
  ultimately show ?thesis using ticket_take [of ?q "claimed s ! deq s"] by simp
qed

lemma refine_release:
  assumes inv: "mpmc_sinv c s" and pc: "pcs s t = D_Moved p v" and no_wrap: "enq s < 2 ^ 63"
  shows "ticket_step (unat c) (mpmc_tickets c s) (mpmc_tickets c
    (goto t M_Idle (set_slot c p ((slot_at c s p)\<lparr> sequence := p + (c - 1) + 1 \<rparr>)
      (s\<lparr> taken := taken s @ [(unat p, v)] \<rparr>))))" (is "ticket_step _ ?q (mpmc_tickets c ?s)")
proof -
  let ?tk = "taken s @ [(unat p, v)]"
  have swap: "set_slot c p sl (s\<lparr> taken := ?tk \<rparr>) = (set_slot c p sl s)\<lparr> taken := ?tk \<rparr>" for sl
    by (simp add: set_slot_def)
  have upd [simp]: "enq (u\<lparr> taken := ?tk \<rparr>) = enq u" "deq (u\<lparr> taken := ?tk \<rparr>) = deq u"
    "seqno c (u\<lparr> taken := ?tk \<rparr>) = seqno c u" for u
    by (simp_all add: enq_def deq_def seqno_def fun_eq_iff)
  note fr = swap set_slot_frame [OF inv]
  have ok: "pc_ok c s (D_Moved p v)" using mpmc_sinvD(5) [OF inv, of t] by (simp add: pc)
  then have lt: "unat p < deq s" by simp
  have "ticket_phase c s (unat p)" using ok by (intro slot_ticket [OF inv]) simp
  then have win: "enq s \<le> unat p + unat c" by (simp add: ticket_phase_def)
  have other: "k mod unat c \<noteq> unat p mod unat c" if "deq s \<le> k" "k < enq s" for k
  proof
    assume "k mod unat c = unat p mod unat c"
    then have "unat c dvd k - unat p" using that lt by (simp add: mod_eq_dvd_iff_nat)
    then have "unat c \<le> k - unat p" using that lt by (intro dvd_imp_le) simp_all
    then show False using that win lt by linarith
  qed
  have rt: "reads (pcs s t) = Some (unat p)" by (simp add: pc)
  have "{k. \<exists>u. reads (pcs ?s u) = Some k} = {k. \<exists>u. reads (pcs s u) = Some k} - {unat p}"
  proof -
    have "reads (pcs ?s u) = (if u = t then None else reads (pcs s u))" for u by (simp add: fr)
    moreover have "reads (pcs s u) \<noteq> Some (unat p)" if "u \<noteq> t" for u
      using that rt exclusiveD(2) [OF mpmc_sinvD(6) [OF inv]] by blast
    ultimately show ?thesis using rt by (auto split: if_splits) (metis option.inject)
  qed
  moreover have "tickets (mpmc_tickets c ?s) = tickets ?q" using other by (auto simp: mpmc_tickets_def fr)
  ultimately have "mpmc_tickets c ?s = ?q\<lparr> releasing := releasing ?q - {unat p} \<rparr>" by (simp add: mpmc_tickets_def fr)
  moreover have "unat p \<in> releasing ?q" using rt by (auto simp: mpmc_tickets_def)
  ultimately show ?thesis using ticket_release by metis
qed

section \<open>The answers full and empty\<close>

lemma not_signed_less:
  fixes a b :: u64
  assumes "unat b \<le> unat a" "unat a - unat b < 2 ^ 63"
  shows "\<not> a - b <s 0"
proof -
  have "unat (a - b) = unat a - unat b" using assms(1) by (simp add: unat_sub word_le_nat_alt)
  then have "unat (a - b) < 2 ^ 63" using assms(2) by simp
  then have "uint (a - b) < 2 ^ 63" by (metis nat_less_numeral_power_cancel_iff unat_eq_nat_uint)
  then have "sint (a - b) = uint (a - b)"
    using order_trans [OF _ uint_ge_0 [of "a - b"]] by (simp add: sint_uint) (intro signed_take_bit_int_eq_self, simp_all)
  then show ?thesis by (simp add: word_sless_alt)
qed

lemma slot_phase:
  assumes inv: "mpmc_sinv c s"
  obtains k where "k mod unat c = p mod unat c" "ticket_phase c s k" "seqno c s p = seqno c s k"
proof -
  have "0 < unat c" using capacity_bounds mpmc_sinvD(1) [OF inv] by fastforce
  then have "p mod unat c < unat c" by simp
  with inv obtain k where "k mod unat c = p mod unat c" "ticket_phase c s k" unfolding mpmc_sinv_def by blast
  then show thesis using that [of k] by (simp add: seqno_def)
qed

lemma next_round:
  fixes k p :: nat
  assumes "k mod C = p mod C" "k < p"
  shows "k + C \<le> p"
proof -
  have "C dvd p - k" using assms by (simp add: mod_eq_dvd_iff_nat [symmetric])
  then have "C \<le> p - k" using assms(2) by (intro dvd_imp_le) simp_all
  with assms(2) show ?thesis by linarith
qed

lemma full_answer:
  assumes inv: "mpmc_sinv c s" and pc: "pcs s t = E_Load x p" and neg: "sequence (slot_at c s p) - p <s 0"
    and small: "enq s + unat c < 2 ^ 63"
  shows "may_refuse (unat c) (mpmc_tickets c s)"
proof -
  have p: "unat p \<le> enq s" using mpmc_sinvD(5) [OF inv, of t] by (simp add: pc)
  obtain k where k: "k mod unat c = unat p mod unat c" "ticket_phase c s k" "seqno c s (unat p) = seqno c s k"
    by (rule slot_phase [OF inv])
  have seq: "k \<le> seqno c s k" "seqno c s k \<le> k + 1" "k < deq s + unat c" "deq s \<le> enq s"
    using k(2) mpmc_sinvD(4) [OF inv] by (auto simp: ticket_phase_def)
  have "k < unat p"
  proof (rule ccontr)
    assume "\<not> k < unat p"
    then have "\<not> sequence (slot_at c s p) - p <s 0"
      using seq small slot_at_seqno(1) [OF inv, of p] k(3) by (intro not_signed_less) simp_all
    with neg show False by simp
  qed
  then have "k + unat c \<le> unat p" by (rule next_round [OF k(1)])
  then have e: "enq s = k + unat c" using p k(2) by (simp add: ticket_phase_def)
  show ?thesis
  proof (cases "deq s \<le> k")
    case True
    then have "enq s - deq s = unat c" using e outstanding [OF inv] by linarith
    then show ?thesis by (simp add: may_refuse_def)
  next
    case False
    then have "k \<in> releasing (mpmc_tickets c s)" using k(2) seq(4) by (auto simp: ticket_phase_def)
    moreover have "k + unat c = first_ticket (mpmc_tickets c s) + length (tickets (mpmc_tickets c s))" using e seq(4) by simp
    ultimately show ?thesis unfolding may_refuse_def by blast
  qed
qed

lemma empty_answer:
  assumes inv: "mpmc_sinv c s" and pc: "pcs s t = D_Load p" and neg: "sequence (slot_at c s p) - (p + 1) <s 0"
    and small: "enq s + unat c < 2 ^ 63"
  shows "may_miss (mpmc_tickets c s)"
proof -
  have le: "deq s \<le> enq s" by (rule mpmc_sinvD(4) [OF inv])
  have p: "unat p \<le> deq s" using mpmc_sinvD(5) [OF inv, of t] by (simp add: pc)
  then have p1: "unat (p + 1) = unat p + 1" using small le by (simp add: unat_plus_if')
  obtain k where k: "k mod unat c = unat p mod unat c" "ticket_phase c s k" "seqno c s (unat p) = seqno c s k"
    by (rule slot_phase [OF inv])
  have win: "enq s \<le> k + unat c" "k \<le> seqno c s k" "seqno c s k \<le> k + 1" "k < deq s + unat c" using k(2) by (auto simp: ticket_phase_def)
  have seq: "seqno c s k \<le> unat p"
  proof (rule ccontr)
    assume "\<not> seqno c s k \<le> unat p"
    then have "\<not> sequence (slot_at c s p) - (p + 1) <s 0"
      using win small le slot_at_seqno(1) [OF inv, of p] k(3) p1 by (intro not_signed_less) simp_all
    with neg show False by simp
  qed
  have "deq s = enq s \<or> seqno c s (deq s) \<noteq> deq s + 1"
  proof (cases "k < unat p")
    case True
    then have "k + unat c \<le> unat p" by (rule next_round [OF k(1)])
    then show ?thesis using win(1) p le by linarith
  next
    case False
    then have "k = unat p" "seqno c s k = k" using seq win by simp_all
    then show ?thesis using k(2) p le by (auto simp: ticket_phase_def)
  qed
  moreover have "tickets (mpmc_tickets c s) = (claimed s ! deq s, seqno c s (deq s) = deq s + 1) #
      map (\<lambda>k. (claimed s ! k, seqno c s k = k + 1)) [Suc (deq s)..<enq s]" if "deq s \<noteq> enq s"
    using that le by (simp add: mpmc_tickets_def upt_conv_Cons)
  moreover have "tickets (mpmc_tickets c s) = []" if "deq s = enq s" using that by (simp add: mpmc_tickets_def)
  ultimately show ?thesis unfolding may_miss_def by (cases "deq s = enq s") simp_all
qed

section \<open>The refinement\<close>

text \<open>Thread \<open>t\<close> is told in a step that the queue is full, or that it is empty.\<close>

definition answers_full :: "'a mpmc_sys \<Rightarrow> nat \<Rightarrow> 'a mpmc_sys \<Rightarrow> bool" where
  "answers_full s t s' \<longleftrightarrow> (\<exists>x p. pcs s t = E_Load x p \<and> pcs s' t = M_Idle)"

definition answers_empty :: "'a mpmc_sys \<Rightarrow> nat \<Rightarrow> 'a mpmc_sys \<Rightarrow> bool" where
  "answers_empty s t s' \<longleftrightarrow> (\<exists>p. pcs s t = D_Load p \<and> pcs s' t = M_Idle)"

lemma invisible_goto:
  assumes "reads (pcs s t) = None" "reads pc = None"
  shows "mpmc_tickets c (goto t pc s) = mpmc_tickets c s"
  using assms by (intro mpmc_tickets_frame) simp_all

lemma invisible_storage:
  assumes inv: "mpmc_sinv c s" and "reads (pcs s t) = reads pc"
  shows "mpmc_tickets c (goto t pc (set_slot c p ((slot_at c s p)\<lparr> storage := v \<rparr>) s)) = mpmc_tickets c s"
proof -
  let ?s = "set_slot c p ((slot_at c s p)\<lparr> storage := v \<rparr>) s"
  have "seqno c ?s k = seqno c s k" for k
    by (cases "k mod unat c = unat p mod unat c") (simp_all add: set_slot_frame [OF inv] slot_at_seqno(1) [OF inv], simp add: seqno_def)
  then show ?thesis using assms(2)
    by (intro mpmc_tickets_frame) (simp_all add: set_slot_frame(1-5) [OF inv])
qed

lemma mpmc_step_refines:
  assumes "mpmc_step c s s'" and inv: "mpmc_sinv c s" and no_wrap: "enq s < 2 ^ 63"
  shows "mpmc_tickets c s' = mpmc_tickets c s \<or> ticket_step (unat c) (mpmc_tickets c s) (mpmc_tickets c s')"
  using assms(1)
proof cases
  case (push_claim t x p)
  show ?thesis unfolding push_claim(1) using refine_claim [OF inv push_claim(2,3) no_wrap] by blast
next
  case (push_publish t x p)
  show ?thesis unfolding push_publish(1) using refine_publish [OF inv push_publish(2) no_wrap] by blast
next
  case (pop_claim t p)
  show ?thesis unfolding pop_claim(1) using refine_take [OF inv pop_claim(2,3) no_wrap] by blast
next
  case (pop_release t p v)
  show ?thesis unfolding pop_release(1) using refine_release [OF inv pop_release(2) no_wrap] by blast
qed (rule disjI1, simp only:, ((rule invisible_goto, simp_all only: reads.simps)[1] |
    (rule invisible_storage [OF inv], simp only: reads.simps)[1]))+

lemma mpmc_step_answers:
  assumes "mpmc_step c s s'" and inv: "mpmc_sinv c s" and small: "enq s + unat c < 2 ^ 63"
  shows "answers_full s t s' \<Longrightarrow> may_refuse (unat c) (mpmc_tickets c s)"
    and "answers_empty s t s' \<Longrightarrow> may_miss (mpmc_tickets c s)"
proof -
  show "may_refuse (unat c) (mpmc_tickets c s)" if "answers_full s t s'"
    using assms(1) that by cases
      (auto simp: answers_full_def set_slot_def goto_def intro: full_answer [OF inv _ _ small] split: if_splits)
  show "may_miss (mpmc_tickets c s)" if "answers_empty s t s'"
    using assms(1) that by cases
      (auto simp: answers_empty_def set_slot_def goto_def intro: empty_answer [OF inv _ _ small] split: if_splits)
qed

text \<open>Runs that hand out fewer than \<open>2 ^ 63\<close> tickets.\<close>

definition mpmc_bounded_step :: "size_t \<Rightarrow> 'a mpmc_sys \<Rightarrow> 'a mpmc_sys \<Rightarrow> bool" where
  "mpmc_bounded_step c s s' \<longleftrightarrow> mpmc_step c s s' \<and> length (claimed s') < 2 ^ 63"

lemma bounded_enq:
  assumes "mpmc_sinv c s" "mpmc_bounded_step c s s'"
  shows "enq s < 2 ^ 63"
  using assms claimed_grows [of c s s'] mpmc_sinvD(3) [OF assms(1)] unfolding mpmc_bounded_step_def by linarith

interpretation mpmc_sim: stuttering_simulation "mpmc_init c" "mpmc_bounded_step c" "mpmc_sinv c"
  "mpmc_tickets c" "\<lambda>q. q = ticket_queue_new" "ticket_step (unat c)" for c
proof
  fix s t :: "'a mpmc_sys"
  show "mpmc_tickets c s = ticket_queue_new" if "mpmc_init c s"
    using that by (simp add: mpmc_tickets_def ticket_queue_new_def mpmc_init_def mpmc_new_def enq_def deq_def)
  assume inv: "mpmc_sinv c s" and st: "mpmc_bounded_step c s t"
  note step = conjunct1 [OF st [unfolded mpmc_bounded_step_def]]
  show "mpmc_sinv c t" by (rule mpmc_sinv_step [OF step inv bounded_enq [OF inv st]])
  show "mpmc_tickets c t = mpmc_tickets c s \<or> ticket_step (unat c) (mpmc_tickets c s) (mpmc_tickets c t)"
    by (rule mpmc_step_refines [OF step inv bounded_enq [OF inv st]])
qed (rule mpmc_sinv_init)

lemma mpmc_reach_bounded:
  "reach (mpmc_init c) (mpmc_step c) s \<Longrightarrow> length (claimed s) < 2 ^ 63 \<Longrightarrow> reach (mpmc_init c) (mpmc_bounded_step c) s"
proof (induction rule: reach.induct)
  case (reach_step s t)
  have "length (claimed s) < 2 ^ 63" using claimed_grows [OF reach_step(2)] reach_step(4) by linarith
  from reach.reach_step [OF reach_step(3) [OF this], of t] show ?case using reach_step(2,4) by (simp add: mpmc_bounded_step_def)
qed (rule reach.reach_init)

text \<open>
  C6. The MPMC queue under any interleaving of threads refines the ticket contract: what has happened so far is a run of the contract from its empty state,
  every further atomic action is invisible or one step of it, and a push is told that the queue is full, or a pop that it is empty, only when
  the contract allows that answer at this moment: all tickets are outstanding or a pop still holds the slot, respectively
  no ticket is outstanding or the oldest is not yet published.
\<close>

theorem mpmc_refines_tickets:
  assumes "reach (mpmc_init c) (mpmc_step c) s" and "length (claimed s) + unat c < 2 ^ 63"
  shows "reach (\<lambda>q. q = ticket_queue_new) (ticket_step (unat c)) (mpmc_tickets c s) \<and>
    (\<forall>s'. mpmc_step c s s' \<longrightarrow>
      (mpmc_tickets c s' = mpmc_tickets c s \<or> ticket_step (unat c) (mpmc_tickets c s) (mpmc_tickets c s')) \<and>
      (\<forall>t. (answers_full s t s' \<longrightarrow> may_refuse (unat c) (mpmc_tickets c s)) \<and>
           (answers_empty s t s' \<longrightarrow> may_miss (mpmc_tickets c s))))"
proof -
  have inv: "mpmc_sinv c s" using mpmc_run.reach_inv [OF assms(1)] assms(2) by simp
  then have small: "enq s + unat c < 2 ^ 63" using mpmc_sinvD(3) assms(2) by metis
  have "reach (\<lambda>q. q = ticket_queue_new) (ticket_step (unat c)) (mpmc_tickets c s)" using assms(2) by (intro mpmc_sim.abs_reach mpmc_reach_bounded [OF assms(1)]) simp
  moreover have "enq s < 2 ^ 63" using small by linarith
  ultimately show ?thesis using mpmc_step_refines [OF _ inv] mpmc_step_answers [OF _ inv small] by blast
qed

text \<open>A ticket is claimed and not published: a pop may miss although the value is on its way.\<close>

theorem mpmc_refines_tickets_witness:
  "\<exists>s. reach (mpmc_init 2) (mpmc_step 2) s \<and> claimed s = [5::nat] \<and>
     reach (\<lambda>q. q = ticket_queue_new) (ticket_step 2) (mpmc_tickets 2 s) \<and> may_miss (mpmc_tickets 2 s)"
proof -
  let ?s = "\<lparr> mq = (mpmc_new 2)\<lparr> enqueue_pos := 1 \<rparr>, pcs = (\<lambda>t. M_Idle)(0 := E_Claimed (5::nat) 0),
      claimed = [5], taken = [] \<rparr>"
  have "reach (\<lambda>q. q = ticket_queue_new) (ticket_step 2) (mpmc_tickets 2 ?s)"
    using mpmc_refines_tickets [OF mpmc_reach_claimed] by simp
  moreover have "tickets (mpmc_tickets 2 ?s) = [(5, False)]"
    by (simp add: mpmc_tickets_def deq_def enq_def seqno_def mpmc_new_def)
  then have "may_miss (mpmc_tickets 2 ?s)" by (simp add: may_miss_def)
  ultimately show ?thesis using mpmc_reach_claimed by (metis mpmc_sys.select_convs(3))
qed

end
