(* ===== verification/Mpmc_Weak.thy ===== *)
theory Mpmc_Weak
  imports Mpmc_Threads Release_Acquire
begin

text \<open>
  \<^verbatim>\<open>concurrency/mpmc_queue.hpp\<close> under the memory orders that it asks for: positions are loaded and swapped relaxed, the sequence number of a slot is
  loaded with acquire and stored with release, the elements are ordinary memory. Loads may return stale positions and stale sequence numbers; a
  compare-and-swap succeeds only on the latest store, as the language guarantees.
\<close>

section \<open>The steps\<close>

datatype mvar = M_Enq | M_Deq | M_Seq nat

text \<open>
  \<open>now\<close> has the program counters, the elements, the histories and, of each atomic variable, the latest store; \<open>wmem\<close> has all
  stores. Loads and swaps look at \<open>wmem\<close> only.
\<close>

record 'a weak_mpmc =
  now :: "'a mpmc_sys"
  wmem :: "(mvar, size_t, nat) ra_memory"

fun initial_value :: "mvar \<Rightarrow> size_t" where
  "initial_value (M_Seq i) = of_nat i"
| "initial_value _ = 0"

definition weak_mpmc_init :: "size_t \<Rightarrow> 'a weak_mpmc \<Rightarrow> bool" where
  "weak_mpmc_init c s \<longleftrightarrow> mpmc_init c (now s) \<and> wmem s = ra_new initial_value"

definition latest :: "mvar \<Rightarrow> (mvar, size_t, nat) ra_memory \<Rightarrow> size_t" where
  "latest v m = fst (last (stores m v))"

text \<open>A thread reads position \<open>v\<close> (store \<open>i\<close>), or the sequence number of the slot of \<open>p\<close>.\<close>

definition load_pos :: "nat \<Rightarrow> mvar \<Rightarrow> nat \<Rightarrow> 'a weak_mpmc \<Rightarrow> 'a weak_mpmc" where
  "load_pos t v i s = s\<lparr> wmem := ra_load Relaxed t v i (wmem s) \<rparr>"

definition load_seq :: "size_t \<Rightarrow> nat \<Rightarrow> size_t \<Rightarrow> nat \<Rightarrow> 'a weak_mpmc \<Rightarrow> 'a weak_mpmc" where
  "load_seq c t p i s = s\<lparr> wmem := ra_load Acquire t (M_Seq (ring_index c p)) i (wmem s) \<rparr>"

definition at :: "nat \<Rightarrow> 'a mpc \<Rightarrow> 'a weak_mpmc \<Rightarrow> 'a weak_mpmc" where
  "at t pc s = s\<lparr> now := goto t pc (now s) \<rparr>"

abbreviation (input) seq_var :: "size_t \<Rightarrow> size_t \<Rightarrow> mvar" where "seq_var c p \<equiv> M_Seq (ring_index c p)"

inductive push_step :: "size_t \<Rightarrow> 'a weak_mpmc \<Rightarrow> 'a weak_mpmc \<Rightarrow> bool" for c where
  e_start: "pcs (now s) t = M_Idle \<Longrightarrow> readable t M_Enq i (wmem s) \<Longrightarrow>
    push_step c s (at t (E_Load x (value_at M_Enq i (wmem s))) (load_pos t M_Enq i s))"
| e_ready: "pcs (now s) t = E_Load x p \<Longrightarrow> readable t (seq_var c p) i (wmem s) \<Longrightarrow> value_at (seq_var c p) i (wmem s) - p = 0 \<Longrightarrow>
    push_step c s (at t (E_Ready x p) (load_seq c t p i s))"
| e_full: "pcs (now s) t = E_Load x p \<Longrightarrow> readable t (seq_var c p) i (wmem s) \<Longrightarrow> value_at (seq_var c p) i (wmem s) - p <s 0 \<Longrightarrow>
    push_step c s (at t M_Idle (load_seq c t p i s))"
| e_reload: "pcs (now s) t = E_Load x p \<Longrightarrow> readable t (seq_var c p) i (wmem s) \<Longrightarrow> 0 <s value_at (seq_var c p) i (wmem s) - p \<Longrightarrow>
    readable t M_Enq j (wmem s) \<Longrightarrow> push_step c s (at t (E_Load x (value_at M_Enq j (wmem s))) (load_pos t M_Enq j (load_seq c t p i s)))"
| e_claim: "pcs (now s) t = E_Ready x p \<Longrightarrow> latest M_Enq (wmem s) = p \<Longrightarrow> push_step c s
    (s\<lparr> now := goto t (E_Claimed x p) ((now s)\<lparr> mq := (mq (now s))\<lparr> enqueue_pos := p + 1 \<rparr>, claimed := claimed (now s) @ [x] \<rparr>),
        wmem := ra_store Relaxed t M_Enq (p + 1) (wmem s) \<rparr>)"
| e_claim_fails: "pcs (now s) t = E_Ready x p \<Longrightarrow> readable t M_Enq j (wmem s) \<Longrightarrow>
    push_step c s (at t (E_Load x (value_at M_Enq j (wmem s))) (load_pos t M_Enq j s))"
| e_construct: "pcs (now s) t = E_Claimed x p \<Longrightarrow> push_step c s
    (s\<lparr> now := goto t (E_Built x p) (set_slot c p ((slot_at c (now s) p)\<lparr> storage := Some x \<rparr>) (now s)), wmem := access t (ring_index c p) (wmem s) \<rparr>)"
| e_publish: "pcs (now s) t = E_Built x p \<Longrightarrow> push_step c s
    (s\<lparr> now := goto t M_Idle (set_slot c p ((slot_at c (now s) p)\<lparr> sequence := p + 1 \<rparr>) (now s)),
        wmem := ra_store Release t (seq_var c p) (p + 1) (wmem s) \<rparr>)"

inductive pop_step :: "size_t \<Rightarrow> 'a weak_mpmc \<Rightarrow> 'a weak_mpmc \<Rightarrow> bool" for c where
  d_start: "pcs (now s) t = M_Idle \<Longrightarrow> readable t M_Deq i (wmem s) \<Longrightarrow>
    pop_step c s (at t (D_Load (value_at M_Deq i (wmem s))) (load_pos t M_Deq i s))"
| d_ready: "pcs (now s) t = D_Load p \<Longrightarrow> readable t (seq_var c p) i (wmem s) \<Longrightarrow> value_at (seq_var c p) i (wmem s) - (p + 1) = 0 \<Longrightarrow>
    pop_step c s (at t (D_Ready p) (load_seq c t p i s))"
| d_empty: "pcs (now s) t = D_Load p \<Longrightarrow> readable t (seq_var c p) i (wmem s) \<Longrightarrow> value_at (seq_var c p) i (wmem s) - (p + 1) <s 0 \<Longrightarrow>
    pop_step c s (at t M_Idle (load_seq c t p i s))"
| d_reload: "pcs (now s) t = D_Load p \<Longrightarrow> readable t (seq_var c p) i (wmem s) \<Longrightarrow> 0 <s value_at (seq_var c p) i (wmem s) - (p + 1) \<Longrightarrow>
    readable t M_Deq j (wmem s) \<Longrightarrow> pop_step c s (at t (D_Load (value_at M_Deq j (wmem s))) (load_pos t M_Deq j (load_seq c t p i s)))"
| d_claim: "pcs (now s) t = D_Ready p \<Longrightarrow> latest M_Deq (wmem s) = p \<Longrightarrow> pop_step c s
    (s\<lparr> now := goto t (D_Claimed p) ((now s)\<lparr> mq := (mq (now s))\<lparr> dequeue_pos := p + 1 \<rparr> \<rparr>), wmem := ra_store Relaxed t M_Deq (p + 1) (wmem s) \<rparr>)"
| d_claim_fails: "pcs (now s) t = D_Ready p \<Longrightarrow> readable t M_Deq j (wmem s) \<Longrightarrow>
    pop_step c s (at t (D_Load (value_at M_Deq j (wmem s))) (load_pos t M_Deq j s))"
| d_move: "pcs (now s) t = D_Claimed p \<Longrightarrow> storage (slot_at c (now s) p) = Some v \<Longrightarrow> pop_step c s
    (s\<lparr> now := goto t (D_Moved p v) (set_slot c p ((slot_at c (now s) p)\<lparr> storage := None \<rparr>) (now s)), wmem := access t (ring_index c p) (wmem s) \<rparr>)"
| d_release: "pcs (now s) t = D_Moved p v \<Longrightarrow> pop_step c s
    (s\<lparr> now := goto t M_Idle (set_slot c p ((slot_at c (now s) p)\<lparr> sequence := p + (c - 1) + 1 \<rparr>) ((now s)\<lparr> taken := taken (now s) @ [(unat p, v)] \<rparr>)),
        wmem := ra_store Release t (seq_var c p) (p + (c - 1) + 1) (wmem s) \<rparr>)"

text \<open>Runs that hand out fewer than \<open>2 ^ 63\<close> tickets.\<close>

definition weak_mpmc_step :: "size_t \<Rightarrow> 'a weak_mpmc \<Rightarrow> 'a weak_mpmc \<Rightarrow> bool" where
  "weak_mpmc_step c s s' \<longleftrightarrow> (push_step c s s' \<or> pop_step c s s') \<and> length (claimed (now s')) < 2 ^ 63"

section \<open>The invariant\<close>

text \<open>The ticket a thread owns, and whether it has touched the slot of its ticket without having stored the sequence number.\<close>

definition owned_ticket :: "'a mpc \<Rightarrow> nat option" where
  "owned_ticket pc = (case writes pc of None \<Rightarrow> reads pc | Some k \<Rightarrow> Some k)"

fun midway :: "'a mpc \<Rightarrow> nat option" where
  "midway (E_Built x p) = Some (unat p)"
| "midway (D_Moved p v) = Some (unat p)"
| "midway _ = None"

text \<open>The stores of the variables: positions never exceed the latest one, sequence numbers grow.\<close>

definition stores_ok :: "size_t \<Rightarrow> 'a weak_mpmc \<Rightarrow> bool" where
  "stores_ok c s \<longleftrightarrow> (\<forall>v. stores (wmem s) v \<noteq> []) \<and>
     latest M_Enq (wmem s) = enqueue_pos (mq (now s)) \<and> (\<forall>w \<in> set (stores (wmem s) M_Enq). unat (fst w) \<le> enq (now s)) \<and>
     latest M_Deq (wmem s) = dequeue_pos (mq (now s)) \<and> (\<forall>w \<in> set (stores (wmem s) M_Deq). unat (fst w) \<le> deq (now s)) \<and>
     (\<forall>i < unat c. latest (M_Seq i) (wmem s) = sequence (slots (mq (now s)) ! i) \<and>
       sorted_wrt (<) (map (\<lambda>w. unat (fst w)) (stores (wmem s) (M_Seq i))))"

text \<open>What thread \<open>t\<close> knows: it has read the sequence number \<open>w\<close> of slot \<open>i\<close> and everything that happened before it was stored.\<close>

definition read_from :: "nat \<Rightarrow> nat \<Rightarrow> size_t \<Rightarrow> (mvar, size_t, nat) ra_memory \<Rightarrow> bool" where
  "read_from t i w m \<longleftrightarrow> (let n = seen m t (M_Seq i) in n < length (stores m (M_Seq i)) \<and>
     fst (stores m (M_Seq i) ! n) = w \<and> snd (stores m (M_Seq i) ! n) \<le> clock m t)"

definition up_to_date :: "nat \<Rightarrow> nat \<Rightarrow> (mvar, size_t, nat) ra_memory \<Rightarrow> bool" where
  "up_to_date t i m \<longleftrightarrow> Suc (seen m t (M_Seq i)) = length (stores m (M_Seq i))"

fun knows :: "size_t \<Rightarrow> nat \<Rightarrow> 'a mpc \<Rightarrow> (mvar, size_t, nat) ra_memory \<Rightarrow> bool" where
  "knows c t (E_Ready x p) m = read_from t (ring_index c p) p m"
| "knows c t (D_Ready p) m = read_from t (ring_index c p) (p + 1) m"
| "knows c t (E_Claimed x p) m = (up_to_date t (ring_index c p) m \<and> snd (last (stores m (M_Seq (ring_index c p)))) \<le> clock m t)"
| "knows c t (D_Claimed p) m = (up_to_date t (ring_index c p) m \<and> snd (last (stores m (M_Seq (ring_index c p)))) \<le> clock m t)"
| "knows c t (E_Built x p) m = (up_to_date t (ring_index c p) m \<and> touched m (ring_index c p) \<le> clock m t)"
| "knows c t (D_Moved p v) m = (up_to_date t (ring_index c p) m \<and> touched m (ring_index c p) \<le> clock m t)"
| "knows c t _ m = True"

text \<open>Between two owners the latest store of a slot's sequence number announces all accesses to the slot.\<close>

definition announced :: "size_t \<Rightarrow> 'a weak_mpmc \<Rightarrow> bool" where
  "announced c s \<longleftrightarrow> (\<forall>i < unat c. (\<forall>t k. midway (pcs (now s) t) = Some k \<longrightarrow> k mod unat c \<noteq> i) \<longrightarrow>
     touched (wmem s) i \<le> snd (last (stores (wmem s) (M_Seq i))))"

definition weak_mpmc_inv :: "size_t \<Rightarrow> 'a weak_mpmc \<Rightarrow> bool" where
  "weak_mpmc_inv c s \<longleftrightarrow> mpmc_sinv c (now s) \<and> stores_ok c s \<and> (\<forall>t. knows c t (pcs (now s) t) (wmem s)) \<and> announced c s"


lemma weak_mpmc_invD:
  assumes "weak_mpmc_inv c s"
  shows "mpmc_sinv c (now s)" "stores_ok c s" "knows c t (pcs (now s) t) (wmem s)" "announced c s"
  using assms by (simp_all add: weak_mpmc_inv_def)

lemma stores_okD:
  assumes "stores_ok c s"
  shows "stores (wmem s) v \<noteq> []" "latest M_Enq (wmem s) = enqueue_pos (mq (now s))" "latest M_Deq (wmem s) = dequeue_pos (mq (now s))"
    "i < length (stores (wmem s) M_Enq) \<Longrightarrow> unat (value_at M_Enq i (wmem s)) \<le> enq (now s)"
    "i < length (stores (wmem s) M_Deq) \<Longrightarrow> unat (value_at M_Deq i (wmem s)) \<le> deq (now s)"
    "k < unat c \<Longrightarrow> latest (M_Seq k) (wmem s) = sequence (slots (mq (now s)) ! k)"
    "k < unat c \<Longrightarrow> sorted_wrt (<) (map (\<lambda>w. unat (fst w)) (stores (wmem s) (M_Seq k)))"
  using assms by (simp_all add: stores_ok_def value_at_def)

section \<open>Stale values\<close>

lemma slot_of:
  assumes "mpmc_sinv c s"
  shows "ring_index c p = unat p mod unat c" "ring_index c p < unat c"
  using mpmc_sinvD(1) [OF assms] capacity_bounds [of c] by (simp_all add: mpmc_capacity_ok_iff ring_index_mod)

lemma sequence_stores:
  assumes sinv: "mpmc_sinv c (now s)" and st: "stores_ok c s" and i: "i < length (stores (wmem s) (seq_var c p))"
  shows "unat (value_at (seq_var c p) i (wmem s)) \<le> seqno c (now s) (unat p)"
    "unat (value_at (seq_var c p) i (wmem s)) = seqno c (now s) (unat p) \<Longrightarrow> Suc i = length (stores (wmem s) (seq_var c p))"
proof -
  let ?l = "map (\<lambda>w. unat (fst w)) (stores (wmem s) (seq_var c p))"
  have sorted: "sorted_wrt (<) ?l" and last: "last ?l = seqno c (now s) (unat p)"
    using stores_okD [OF st] slot_of [OF sinv, of p] by (simp_all add: last_map latest_def seqno_def)
  have ne: "?l \<noteq> []" using i by auto
  have at: "?l ! i = unat (value_at (seq_var c p) i (wmem s))" using i by (simp add: value_at_def)
  have "?l ! i < last ?l" if "Suc i < length ?l"
    using sorted_wrt_nth_less [OF sorted, of i "length ?l - 1"] that i ne by (simp add: last_conv_nth)
  moreover have "?l ! i = last ?l" if "Suc i = length ?l" using that ne last_conv_nth [of ?l] by (metis diff_Suc_1)
  ultimately have "?l ! i \<le> last ?l" "?l ! i = last ?l \<Longrightarrow> Suc i = length ?l" using i by (cases "Suc i = length ?l"; fastforce)+
  then show "unat (value_at (seq_var c p) i (wmem s)) \<le> seqno c (now s) (unat p)"
    "unat (value_at (seq_var c p) i (wmem s)) = seqno c (now s) (unat p) \<Longrightarrow> Suc i = length (stores (wmem s) (seq_var c p))"
    unfolding at last by simp_all
qed

text \<open>A stale sequence number that fits a position that is not stale is not stale either.\<close>

lemma tickets_apart:
  assumes "k mod c = j mod c" "k \<noteq> (j :: nat)"
  shows "k + c \<le> j \<or> j + c \<le> k"
  using mod_gap [of k c j] mod_gap [of j c k] assms by (metis linorder_neqE_nat)

lemma sequence_current:
  assumes inv: "mpmc_sinv c s"
  shows "enq s \<le> seqno c s (enq s) \<Longrightarrow> seqno c s (enq s) = enq s"
    "deq s + 1 \<le> seqno c s (deq s) \<Longrightarrow> seqno c s (deq s) = deq s + 1"
proof -
  have C: "2 \<le> unat c" using inv by (simp add: mpmc_sinv_def capacity_bounds)
  have ph: "\<exists>k. k mod unat c = n mod unat c \<and> ticket_phase c s k" for n
    using inv C mod_less_divisor [of "unat c" n] unfolding mpmc_sinv_def by (metis gr0I not_numeral_le_zero)
  have same: "seqno c s k = seqno c s n" if "k mod unat c = n mod unat c" for k n using that by (simp add: seqno_def)
  have le: "deq s \<le> enq s" "enq s \<le> deq s + unat c" using mpmc_sinvD(4) [OF inv] outstanding [OF inv] by simp_all
  show "seqno c s (enq s) = enq s" if "enq s \<le> seqno c s (enq s)"
  proof -
    obtain k where k: "k mod unat c = enq s mod unat c" "ticket_phase c s k" using ph by blast
    then show ?thesis using that tickets_apart [OF k(1)] same [OF k(1)] C le unfolding ticket_phase_def by (cases "k = enq s") auto
  qed
  show "seqno c s (deq s) = deq s + 1" if "deq s + 1 \<le> seqno c s (deq s)"
  proof -
    obtain k where k: "k mod unat c = deq s mod unat c" "ticket_phase c s k" using ph by blast
    then show ?thesis using that tickets_apart [OF k(1)] same [OF k(1)] C le unfolding ticket_phase_def by (cases "k = deq s") auto
  qed
qed

section \<open>Owners\<close>

lemma owned_ticketD:
  assumes "owned_ticket pc = Some k"
  shows "writes pc = Some k \<or> reads pc = Some k"
  using assms by (auto simp: owned_ticket_def split: option.splits)

lemma midway_owned: "midway pc = Some k \<Longrightarrow> owned_ticket pc = Some k"
  by (cases pc) (simp_all add: owned_ticket_def)

text \<open>A slot has one owner at a time.\<close>

lemma one_owner:
  assumes inv: "mpmc_sinv c s" and t: "owned_ticket (pcs s t) = Some k" and u: "owned_ticket (pcs s u) = Some j"
    and slot: "k mod unat c = j mod unat c"
  shows "t = u"
proof -
  have "seqno c s k = seqno c s j" using slot by (simp add: seqno_def)
  moreover have "seqno c s k = k \<or> seqno c s k = k + 1" "seqno c s j = j \<or> seqno c s j = j + 1"
    using owned_ticketD [OF t] owned_ticketD [OF u] claimed_facts [OF inv] by blast+
  ultimately have "k = j \<or> k = j + 1 \<or> j = k + 1" by linarith
  then have "k = j" using same_ticket [OF _ slot] inv by (simp add: mpmc_sinv_def capacity_bounds)
  then show ?thesis
    using owned_ticketD [OF t] owned_ticketD [OF u] exclusiveD [OF mpmc_sinvD(6) [OF inv]] claimed_facts [OF inv]
    by (metis leD)
qed

text \<open>What a thread knows survives actions of others that leave its slot alone.\<close>

lemma knows_cong:
  assumes "\<And>i. stores m' (M_Seq i) = stores m (M_Seq i)" "\<And>i. seen m' u (M_Seq i) = seen m u (M_Seq i)" "clock m' u = clock m u" "touched m' = touched m"
  shows "knows c u pc m' = knows c u pc m"
  by (cases pc) (simp_all add: assms read_from_def up_to_date_def Let_def)

lemma knows_other_slot:
  assumes K: "knows c u pc m" and frame: "\<And>i. i \<noteq> j \<Longrightarrow> stores m' (M_Seq i) = stores m (M_Seq i) \<and> touched m' i = touched m i"
    and j: "stores m' (M_Seq j) = stores m (M_Seq j) @ ws" and u: "seen m' u = seen m u" "clock m' u = clock m u"
    and free: "\<And>k. owned_ticket pc = Some k \<Longrightarrow> k mod unat c \<noteq> j" and c: "\<And>p. ring_index c p = unat p mod unat c"
  shows "knows c u pc m'"
proof -
  have "read_from u i w m'" if "read_from u i w m" for i w
    using that frame [of i] j u by (cases "i = j") (auto simp: read_from_def Let_def nth_append)
  moreover have "up_to_date u i m' = up_to_date u i m" "touched m' i = touched m i" "stores m' (M_Seq i) = stores m (M_Seq i)" if "i \<noteq> j" for i
    using frame [OF that] u by (simp_all add: up_to_date_def)
  ultimately show ?thesis using K free u by (cases pc) (auto simp: owned_ticket_def c)
qed

section \<open>Every step keeps the invariant\<close>

text \<open>Loads change what their thread has seen, and nothing else.\<close>

lemma weak_local:
  assumes inv: "weak_mpmc_inv c s"
    and none: "writes (pcs (now s) t) = None" "reads (pcs (now s) t) = None" "writes pc = None" "reads pc = None"
    and ok: "pc_ok c (now s) pc" and s': "now s' = goto t pc (now s)"
    and m: "stores (wmem s') = stores (wmem s)" "touched (wmem s') = touched (wmem s)"
      "\<And>u. u \<noteq> t \<Longrightarrow> seen (wmem s') u = seen (wmem s) u \<and> clock (wmem s') u = clock (wmem s) u"
    and K: "knows c t pc (wmem s')"
  shows "weak_mpmc_inv c s'"
proof -
  note I = weak_mpmc_invD [OF inv]
  have "knows c u (pcs (now s') u) (wmem s')" for u
    using K I(3) [of u] m knows_cong [of "wmem s'" "wmem s" u c "pcs (now s) u"] by (cases "u = t") (simp_all add: s')
  moreover have "midway pc = None" "midway (pcs (now s) t) = None" using none by (cases pc; simp) (cases "pcs (now s) t"; use none in simp)
  then have "midway (pcs (now s') u) = midway (pcs (now s) u)" for u by (simp add: s')
  then have "announced c s'" using I(4) by (simp add: announced_def m)
  moreover have "stores_ok c s'" using I(2) by (simp add: stores_ok_def latest_def m s')
  ultimately show ?thesis using sinv_local [OF I(1) none ok] by (simp add: weak_mpmc_inv_def s')
qed

text \<open>A swap of a position.\<close>

lemma weak_claim:
  assumes inv: "weak_mpmc_inv c s" and sinv: "mpmc_sinv c (now s')" and pcs: "pcs (now s') = (pcs (now s))(t := pc)"
    and none: "midway (pcs (now s) t) = None" "midway pc = None"
    and m: "wmem s' = ra_store Relaxed t v w (wmem s)" and v: "v \<in> {M_Enq, M_Deq}" and st: "stores_ok c s'" and K: "knows c t pc (wmem s)"
  shows "weak_mpmc_inv c s'"
proof -
  note I = weak_mpmc_invD [OF inv]
  have "knows c u pc' (wmem s') = knows c u pc' (wmem s)" for u and pc' :: "'a mpc"
    by (rule knows_cong) (use v in \<open>auto simp: m ra_store_def\<close>)
  then have "knows c u (pcs (now s') u) (wmem s')" for u using K I(3) [of u] by (simp add: pcs)
  moreover have "midway (pcs (now s') u) = midway (pcs (now s) u)" for u using none by (simp add: pcs)
  then have "announced c s'" using I(4) v by (auto simp: announced_def m ra_store_def)
  ultimately show ?thesis using sinv st by (simp add: weak_mpmc_inv_def)
qed

text \<open>A thread whose swap succeeded had read the latest sequence number of its slot.\<close>

lemma knows_claimed:
  assumes inv: "weak_mpmc_inv c s" and r: "read_from t (ring_index c p) w (wmem s)" and w: "unat w = seqno c (now s) (unat p)"
  shows "up_to_date t (ring_index c p) (wmem s)" "snd (last (stores (wmem s) (seq_var c p))) \<le> clock (wmem s) t"
proof -
  let ?n = "seen (wmem s) t (seq_var c p)"
  have n: "?n < length (stores (wmem s) (seq_var c p))" "value_at (seq_var c p) ?n (wmem s) = w"
    "snd (stores (wmem s) (seq_var c p) ! ?n) \<le> clock (wmem s) t" using r by (simp_all add: read_from_def Let_def value_at_def)
  have "Suc ?n = length (stores (wmem s) (seq_var c p))"
    using sequence_stores(2) [OF weak_mpmc_invD(1) [OF inv] weak_mpmc_invD(2) [OF inv] n(1)] n(2) w by simp
  moreover from this have "last (stores (wmem s) (seq_var c p)) = stores (wmem s) (seq_var c p) ! ?n"
    by (metis diff_Suc_1 last_conv_nth length_0_conv nat.distinct(1))
  ultimately show "up_to_date t (ring_index c p) (wmem s)" "snd (last (stores (wmem s) (seq_var c p))) \<le> clock (wmem s) t"
    using n(3) by (simp_all add: up_to_date_def)
qed

lemma announced_owner:
  assumes A: "announced c s" and pcs: "pcs (now s') = (pcs (now s))(t := pc)" and own: "owned_ticket (pcs (now s) t) = Some k"
    and frame: "\<And>j. j \<noteq> k mod unat c \<Longrightarrow> stores (wmem s') (M_Seq j) = stores (wmem s) (M_Seq j) \<and> touched (wmem s') j = touched (wmem s) j"
    and new: "midway pc = Some k \<or> touched (wmem s') (k mod unat c) \<le> snd (last (stores (wmem s') (M_Seq (k mod unat c))))"
  shows "announced c s'"
  unfolding announced_def
proof (intro allI impI)
  fix j assume j: "j < unat c" and no: "\<forall>u k. midway (pcs (now s') u) = Some k \<longrightarrow> k mod unat c \<noteq> j"
  show "touched (wmem s') j \<le> snd (last (stores (wmem s') (M_Seq j)))"
  proof (cases "j = k mod unat c")
    case True
    have "midway pc \<noteq> Some k" using no [rule_format, of t k] True by (auto simp: pcs)
    then show ?thesis using new True by simp
  next
    case False
    have "k' mod unat c \<noteq> j" if "midway (pcs (now s) u) = Some k'" for u k'
      using that no [rule_format, of u k'] own False midway_owned [OF that] by (cases "u = t") (simp_all add: pcs)
    then show ?thesis using A j frame [OF False] by (auto simp: announced_def)
  qed
qed

text \<open>The owner of a slot accesses its storage, and then stores the sequence number.\<close>

lemma weak_access:
  assumes inv: "weak_mpmc_inv c s" and sinv: "mpmc_sinv c (now s')" and pcs: "pcs (now s') = (pcs (now s))(t := pc)"
    and own: "owned_ticket (pcs (now s) t) = Some k" "midway pc = Some k" and i: "i = k mod unat c"
    and m: "wmem s' = access t i (wmem s)" and st: "stores_ok c s'" and K: "knows c t pc (wmem s')"
  shows "weak_mpmc_inv c s'"
proof -
  note I = weak_mpmc_invD [OF inv]
  have "knows c u (pcs (now s) u) (wmem s')" if "u \<noteq> t" for u
    by (rule knows_other_slot [OF I(3) [of u], where j = i and ws = "[]"])
      (use that own(1) one_owner [OF I(1), of t k u] slot_of [OF I(1)] in \<open>auto simp: m ra_frame i\<close>)
  then have "knows c u (pcs (now s') u) (wmem s')" for u using K by (simp add: pcs)
  moreover have "announced c s'"
    by (rule announced_owner [OF I(4) pcs own(1)]) (use own(2) i in \<open>simp_all add: m ra_frame\<close>)
  ultimately show ?thesis using sinv st by (simp add: weak_mpmc_inv_def)
qed

lemma weak_announce:
  assumes inv: "weak_mpmc_inv c s" and sinv: "mpmc_sinv c (now s')" and pcs: "pcs (now s') = (pcs (now s))(t := M_Idle)"
    and own: "owned_ticket (pcs (now s) t) = Some k" and i: "i = k mod unat c"
    and m: "wmem s' = ra_store Release t (M_Seq i) w (wmem s)" and st: "stores_ok c s'" and K: "touched (wmem s) i \<le> clock (wmem s) t"
  shows "weak_mpmc_inv c s'"
proof -
  note I = weak_mpmc_invD [OF inv]
  have "knows c u (pcs (now s) u) (wmem s')" if "u \<noteq> t" for u
    by (rule knows_other_slot [OF I(3) [of u], where j = i and ws = "[(w, clock (wmem s) t)]"])
      (use that own(1) one_owner [OF I(1), of t k u] slot_of [OF I(1)] in \<open>auto simp: m ra_frame i\<close>)
  then have "knows c u (pcs (now s') u) (wmem s')" for u by (simp add: pcs)
  moreover have "announced c s'"
    by (rule announced_owner [OF I(4) pcs own]) (use K i in \<open>simp_all add: m ra_frame\<close>)
  ultimately show ?thesis using sinv st by (simp add: weak_mpmc_inv_def)
qed

text \<open>The stores stay in order.\<close>

lemma stores_ok_claim:
  assumes st: "stores_ok c s" and p: "unat (p + 1) = unat p + 1" and slots: "slots (mq (now s')) = slots (mq (now s))"
  shows "latest M_Enq (wmem s) = p \<Longrightarrow> enqueue_pos (mq (now s')) = p + 1 \<Longrightarrow> dequeue_pos (mq (now s')) = dequeue_pos (mq (now s)) \<Longrightarrow>
      wmem s' = ra_store Relaxed t M_Enq (p + 1) (wmem s) \<Longrightarrow> stores_ok c s'"
    "latest M_Deq (wmem s) = p \<Longrightarrow> dequeue_pos (mq (now s')) = p + 1 \<Longrightarrow> enqueue_pos (mq (now s')) = enqueue_pos (mq (now s)) \<Longrightarrow>
      wmem s' = ra_store Relaxed t M_Deq (p + 1) (wmem s) \<Longrightarrow> stores_ok c s'"
  using st p slots by (auto simp: stores_ok_def ra_store_def latest_def enq_def deq_def intro: le_SucI)

lemma stores_ok_slot:
  assumes st: "stores_ok c s" and pos: "enqueue_pos (mq (now s')) = enqueue_pos (mq (now s))" "dequeue_pos (mq (now s')) = dequeue_pos (mq (now s))"
    and len: "length (slots (mq (now s))) = unat c" and slots: "slots (mq (now s')) = (slots (mq (now s)))[i := sl]" and i: "i < unat c"
  shows "sequence sl = sequence (slots (mq (now s)) ! i) \<Longrightarrow> wmem s' = access t x (wmem s) \<Longrightarrow> stores_ok c s'"
    "unat (sequence (slots (mq (now s)) ! i)) < unat (sequence sl) \<Longrightarrow> wmem s' = ra_store Release t (M_Seq i) (sequence sl) (wmem s) \<Longrightarrow> stores_ok c s'"
proof -
  show "stores_ok c s'" if "sequence sl = sequence (slots (mq (now s)) ! i)" "wmem s' = access t x (wmem s)"
    using st that i len by (simp add: stores_ok_def latest_def enq_def deq_def ra_frame pos slots nth_list_update)
  show "stores_ok c s'" if lt: "unat (sequence (slots (mq (now s)) ! i)) < unat (sequence sl)"
    and m: "wmem s' = ra_store Release t (M_Seq i) (sequence sl) (wmem s)"
  proof -
    let ?l = "map (\<lambda>w. unat (fst w)) (stores (wmem s) (M_Seq i))"
    have s: "sorted_wrt (<) ?l" and l: "last ?l = unat (sequence (slots (mq (now s)) ! i))" "?l \<noteq> []"
      using stores_okD(1,6,7) [OF st] i by (simp_all add: latest_def last_map)
    have "w < unat (sequence sl)" if "w \<in> set ?l" for w
    proof -
      obtain ys y where "?l = ys @ [y]" using l(2) rev_exhaust by blast
      then have "w \<le> last ?l" using s that by (auto simp: sorted_wrt_append)
      then show ?thesis using lt l(1) by simp
    qed
    then have "sorted_wrt (<) (?l @ [unat (sequence sl)])" using s by (simp add: sorted_wrt_append)
    then show ?thesis using st i len by (simp add: stores_ok_def latest_def enq_def deq_def ra_frame pos slots m nth_list_update)
  qed
qed

lemma loaded_ready:
  assumes inv: "weak_mpmc_inv c s" and r: "readable t (seq_var c p) i (wmem s)"
  shows "value_at (seq_var c p) i (wmem s) = p \<Longrightarrow> unat p = enq (now s) \<Longrightarrow> seqno c (now s) (unat p) = unat p"
    "value_at (seq_var c p) i (wmem s) = p + 1 \<Longrightarrow> unat (p + 1) = unat p + 1 \<Longrightarrow> unat p = deq (now s) \<Longrightarrow> seqno c (now s) (unat p) = unat p + 1"
    "read_from t (ring_index c p) (value_at (seq_var c p) i (wmem s)) (ra_load Acquire t (seq_var c p) i (wmem s))"
proof -
  have i: "i < length (stores (wmem s) (seq_var c p))" using r by (simp add: readable_def)
  note le = sequence_stores(1) [OF weak_mpmc_invD(1) [OF inv] weak_mpmc_invD(2) [OF inv] i] and cur = sequence_current [OF weak_mpmc_invD(1) [OF inv]]
  show "value_at (seq_var c p) i (wmem s) = p \<Longrightarrow> unat p = enq (now s) \<Longrightarrow> seqno c (now s) (unat p) = unat p" using le cur(1) by simp
  show "value_at (seq_var c p) i (wmem s) = p + 1 \<Longrightarrow> unat (p + 1) = unat p + 1 \<Longrightarrow> unat p = deq (now s) \<Longrightarrow> seqno c (now s) (unat p) = unat p + 1"
    using le cur(2) by simp
  show "read_from t (ring_index c p) (value_at (seq_var c p) i (wmem s)) (ra_load Acquire t (seq_var c p) i (wmem s))"
    using i by (simp add: read_from_def Let_def value_at_def ra_frame le_fun_def)
qed

lemmas load_defs = at_def load_pos_def load_seq_def

lemma touched_le_clock:
  assumes inv: "weak_mpmc_inv c s" and own: "owned_ticket (pcs (now s) t) = Some (unat p)" "midway (pcs (now s) t) = None"
    and K: "snd (last (stores (wmem s) (seq_var c p))) \<le> clock (wmem s) t"
  shows "touched (wmem s) (ring_index c p) \<le> clock (wmem s) t"
proof -
  note I = weak_mpmc_invD [OF inv] and slot = slot_of [OF weak_mpmc_invD(1) [OF inv], of p]
  have "k mod unat c \<noteq> ring_index c p" if "midway (pcs (now s) u) = Some k" for u k
    using one_owner [OF I(1) own(1) midway_owned [OF that]] that own(2) slot by auto
  then have "touched (wmem s) (ring_index c p) \<le> snd (last (stores (wmem s) (seq_var c p)))" using I(4) slot(2) by (auto simp: announced_def)
  then show ?thesis using K by (rule order_trans)
qed

lemma access_le_clock: "touched m x \<le> clock m t \<Longrightarrow> touched (access t x m) x \<le> clock (access t x m) t"
  by (simp add: ra_frame le_fun_def)

lemma weak_push:
  assumes step: "push_step c s s'" and inv: "weak_mpmc_inv c s" and small: "enq (now s) < 2 ^ 63"
  shows "weak_mpmc_inv c s'"
proof -
  note I = weak_mpmc_invD [OF inv] and D = stores_okD [OF weak_mpmc_invD(2) [OF inv]] and slot = slot_of [OF weak_mpmc_invD(1) [OF inv]]
  have ok: "pc_ok c (now s) (pcs (now s) t)" for t by (rule mpmc_sinvD(5) [OF I(1)])
  have len: "length (slots (mq (now s))) = unat c" by (rule mpmc_sinvD(2) [OF I(1)])
  show ?thesis using step
  proof cases
    case (e_start t i x)
    then show ?thesis using D(4) [of i] by (intro weak_local [OF inv, where t = t]) (auto simp: load_defs ra_frame readable_def)
  next
    case (e_ready t x p i)
    have v: "value_at (seq_var c p) i (wmem s) = p" using e_ready(4) by simp
    then show ?thesis using e_ready ok [of t] loaded_ready(1,3) [OF inv e_ready(3)]
      by (intro weak_local [OF inv, where t = t and pc = "E_Ready x p"]) (auto simp: load_defs ra_frame)
  next
    case (e_full t x p i)
    then show ?thesis by (intro weak_local [OF inv, where t = t and pc = M_Idle]) (auto simp: load_defs ra_frame)
  next
    case (e_reload t x p i j)
    then show ?thesis using D(4) [of j] by (intro weak_local [OF inv, where t = t]) (auto simp: load_defs ra_frame readable_def)
  next
    case (e_claim_fails t x p j)
    then show ?thesis using D(4) [of j] by (intro weak_local [OF inv, where t = t]) (auto simp: load_defs ra_frame readable_def)
  next
    case (e_claim t x p)
    have p: "enqueue_pos (mq (now s)) = p" "unat p = enq (now s)" using e_claim(3) D(2) by (simp_all add: enq_def)
    have "unat (p + 1) = unat p + 1" using p small by (simp add: unat_plus_if')
    then have "stores_ok c s'" using e_claim by (intro stores_ok_claim(1) [OF I(2)]) simp_all
    moreover have "knows c t (E_Claimed x p) (wmem s)"
      using knows_claimed [OF inv, of t p p] I(3) [of t] ok [of t] e_claim(2) p(2) by simp
    ultimately show ?thesis using sinv_push_claim [OF I(1) e_claim(2) p(1) small] e_claim
      by (intro weak_claim [OF inv, where t = t and pc = "E_Claimed x p" and v = M_Enq and w = "p + 1"]) simp_all
  next
    case (e_construct t x p)
    have K: "knows c t (E_Claimed x p) (wmem s)" using I(3) [of t] e_construct(2) by simp
    have "touched (wmem s) (ring_index c p) \<le> clock (wmem s) t"
      using K e_construct(2) by (intro touched_le_clock [OF inv]) (simp_all add: owned_ticket_def)
    then have "knows c t (E_Built x p) (wmem s')" using K access_le_clock e_construct(1) by (simp add: up_to_date_def ra_frame)
    moreover have "stores_ok c s'" using e_construct slot(2) [of p]
      by (intro stores_ok_slot(1) [OF I(2) _ _ len, where sl = "(slot_at c (now s) p)\<lparr> storage := Some x \<rparr>"]) (simp_all add: set_slot_def slot_at_def)
    ultimately show ?thesis using sinv_construct [OF I(1) e_construct(2)] e_construct slot(1) [of p]
      by (intro weak_access [OF inv, where t = t and pc = "E_Built x p"]) (simp_all add: owned_ticket_def set_slot_def)
  next
    case (e_publish t x p)
    have K: "knows c t (E_Built x p) (wmem s)" and P: "pc_ok c (now s) (E_Built x p)" using I(3) [of t] ok [of t] e_publish(2) by simp_all
    have "unat (p + 1) = unat p + 1" using P small by (simp add: unat_plus_if')
    then have "unat (sequence (slots (mq (now s)) ! ring_index c p)) < unat (p + 1)" using P slot_at_seqno(1) [OF I(1), of p] by (simp add: slot_at_def)
    then have "stores_ok c s'" using e_publish slot(2) [of p]
      by (intro stores_ok_slot(2) [OF I(2) _ _ len, where sl = "(slot_at c (now s) p)\<lparr> sequence := p + 1 \<rparr>"]) (simp_all add: set_slot_def)
    then show ?thesis using K sinv_publish [OF I(1) e_publish(2) small] e_publish slot(1) [of p]
      by (intro weak_announce [OF inv, where t = t and k = "unat p" and i = "ring_index c p"]) (simp_all add: owned_ticket_def set_slot_def)
  qed
qed

lemma weak_pop:
  assumes step: "pop_step c s s'" and inv: "weak_mpmc_inv c s" and small: "enq (now s) < 2 ^ 63"
  shows "weak_mpmc_inv c s'"
proof -
  note I = weak_mpmc_invD [OF inv] and D = stores_okD [OF weak_mpmc_invD(2) [OF inv]] and slot = slot_of [OF weak_mpmc_invD(1) [OF inv]]
  have ok: "pc_ok c (now s) (pcs (now s) t)" for t by (rule mpmc_sinvD(5) [OF I(1)])
  have len: "length (slots (mq (now s))) = unat c" and le: "deq (now s) \<le> enq (now s)" using mpmc_sinvD(2,4) [OF I(1)] by simp_all
  show ?thesis using step
  proof cases
    case (d_start t i)
    then show ?thesis using D(5) [of i] by (intro weak_local [OF inv, where t = t]) (auto simp: load_defs ra_frame readable_def)
  next
    case (d_ready t p i)
    have v: "value_at (seq_var c p) i (wmem s) = p + 1" using d_ready(4) by simp
    have "unat (p + 1) = unat p + 1" using ok [of t] d_ready(2) le small by (simp add: unat_plus_if')
    then show ?thesis using v d_ready ok [of t] loaded_ready(2,3) [OF inv d_ready(3)]
      by (intro weak_local [OF inv, where t = t and pc = "D_Ready p"]) (auto simp: load_defs ra_frame)
  next
    case (d_empty t p i)
    then show ?thesis by (intro weak_local [OF inv, where t = t and pc = M_Idle]) (auto simp: load_defs ra_frame)
  next
    case (d_reload t p i j)
    then show ?thesis using D(5) [of j] by (intro weak_local [OF inv, where t = t]) (auto simp: load_defs ra_frame readable_def)
  next
    case (d_claim_fails t p j)
    then show ?thesis using D(5) [of j] by (intro weak_local [OF inv, where t = t]) (auto simp: load_defs ra_frame readable_def)
  next
    case (d_claim t p)
    have p: "dequeue_pos (mq (now s)) = p" "unat p = deq (now s)" using d_claim(3) D(3) by (simp_all add: deq_def)
    have suc: "unat (p + 1) = unat p + 1" using p small le by (simp add: unat_plus_if')
    then have "stores_ok c s'" using d_claim by (intro stores_ok_claim(2) [OF I(2)]) simp_all
    moreover have "knows c t (D_Claimed p) (wmem s)"
      using knows_claimed [OF inv, of t p "p + 1"] I(3) [of t] ok [of t] d_claim(2) p(2) suc by simp
    ultimately show ?thesis using sinv_pop_claim [OF I(1) d_claim(2) p(1) small] d_claim
      by (intro weak_claim [OF inv, where t = t and pc = "D_Claimed p" and v = M_Deq and w = "p + 1"]) simp_all
  next
    case (d_move t p v)
    have K: "knows c t (D_Claimed p) (wmem s)" using I(3) [of t] d_move(2) by simp
    have "touched (wmem s) (ring_index c p) \<le> clock (wmem s) t"
      using K d_move(2) by (intro touched_le_clock [OF inv]) (simp_all add: owned_ticket_def)
    then have "knows c t (D_Moved p v) (wmem s')" using K access_le_clock d_move(1) by (simp add: up_to_date_def ra_frame)
    moreover have "stores_ok c s'" using d_move slot(2) [of p]
      by (intro stores_ok_slot(1) [OF I(2) _ _ len, where sl = "(slot_at c (now s) p)\<lparr> storage := None \<rparr>"]) (simp_all add: set_slot_def slot_at_def)
    ultimately show ?thesis using sinv_move [OF I(1) d_move(2,3)] d_move slot(1) [of p]
      by (intro weak_access [OF inv, where t = t and pc = "D_Moved p v"]) (simp_all add: owned_ticket_def set_slot_def)
  next
    case (d_release t p v)
    have K: "knows c t (D_Moved p v) (wmem s)" and P: "pc_ok c (now s) (D_Moved p v)" using I(3) [of t] ok [of t] d_release(2) by simp_all
    have "2 \<le> unat c" "unat c \<le> 2 ^ 63" using capacity_bounds mpmc_sinvD(1) [OF I(1)] by blast+
    then have "unat (p + (c - 1) + 1) = unat p + unat c" using P le small by (simp add: unat_plus_if')
    then have "unat (sequence (slots (mq (now s)) ! ring_index c p)) < unat (p + (c - 1) + 1)"
      using P slot_at_seqno(1) [OF I(1), of p] \<open>2 \<le> unat c\<close> by (simp add: slot_at_def)
    then have "stores_ok c s'" using d_release slot(2) [of p]
      by (intro stores_ok_slot(2) [OF I(2) _ _ len, where sl = "(slot_at c (now s) p)\<lparr> sequence := p + (c - 1) + 1 \<rparr>"]) (simp_all add: set_slot_def)
    then show ?thesis using K sinv_release [OF I(1) d_release(2) small] d_release slot(1) [of p]
      by (intro weak_announce [OF inv, where t = t and k = "unat p" and i = "ring_index c p"]) (simp_all add: owned_ticket_def set_slot_def)
  qed
qed

interpretation weak_mpmc_run: inductive_invariant "weak_mpmc_init c" "weak_mpmc_step c" "\<lambda>s. weak_mpmc_inv c s \<and> length (claimed (now s)) < 2 ^ 63" for c
proof unfold_locales
  fix s :: "'a weak_mpmc" assume init: "weak_mpmc_init c s"
  have "mpmc_sinv c (now s)" using init mpmc_sinv_init [of c "now s"] by (simp add: weak_mpmc_init_def)
  with init show "weak_mpmc_inv c s \<and> length (claimed (now s)) < 2 ^ 63"
    by (auto simp: weak_mpmc_init_def weak_mpmc_inv_def mpmc_init_def mpmc_new_def stores_ok_def announced_def ra_new_def latest_def enq_def deq_def)
next
  fix s s' :: "'a weak_mpmc" assume "weak_mpmc_inv c s \<and> length (claimed (now s)) < 2 ^ 63" "weak_mpmc_step c s s'"
  then show "weak_mpmc_inv c s' \<and> length (claimed (now s')) < 2 ^ 63"
    using weak_push [of c s s'] weak_pop [of c s s'] mpmc_sinvD(3) [OF weak_mpmc_invD(1), of c s] by (auto simp: weak_mpmc_step_def)
qed

section \<open>Properties\<close>

text \<open>
  C13. The memory orders of the queue are enough. Any number of producers and consumers, in any interleaving, with loads that return any value the language allows and
  swaps that may fail, as long as fewer than \<open>2 ^ 63\<close> tickets are handed out: a producer about to construct finds its slot empty, a consumer about to move finds the element of its ticket there, and
  every earlier access of another thread to the slot happened before, although the positions are loaded and swapped relaxed. A thread about to store a sequence number has seen the latest
  one, so that these stores are ordered as the tickets are. No ticket is taken twice, and each gives the value that was pushed with it.
\<close>

theorem mpmc_race_free:
  assumes "reach (weak_mpmc_init c) (weak_mpmc_step c) s"
  shows "distinct (map fst (taken (now s))) \<and> (\<forall>(k, v) \<in> set (taken (now s)). k < length (claimed (now s)) \<and> v = claimed (now s) ! k) \<and>
    (\<forall>t x p. pcs (now s) t = E_Claimed x p \<longrightarrow> storage (slot_at c (now s) p) = None \<and> ordered t (ring_index c p) (wmem s)) \<and>
    (\<forall>t p. pcs (now s) t = D_Claimed p \<longrightarrow> storage (slot_at c (now s) p) = Some (claimed (now s) ! unat p) \<and> ordered t (ring_index c p) (wmem s)) \<and>
    (\<forall>t x p. pcs (now s) t = E_Built x p \<longrightarrow> up_to_date t (ring_index c p) (wmem s)) \<and>
    (\<forall>t p v. pcs (now s) t = D_Moved p v \<longrightarrow> up_to_date t (ring_index c p) (wmem s))"
proof -
  have inv: "weak_mpmc_inv c s" using weak_mpmc_run.reach_inv [OF assms] by blast
  note I = weak_mpmc_invD [OF inv] and F = mpmc_sinvD [OF weak_mpmc_invD(1) [OF inv]]
  have le: "ordered t (ring_index c p) (wmem s)" if "touched (wmem s) (ring_index c p) \<le> clock (wmem s) t" for t p
    using that by (simp add: ordered_def le_fun_def)
  have "storage (slot_at c (now s) p) = None \<and> ordered t (ring_index c p) (wmem s)" if "pcs (now s) t = E_Claimed x p" for t x p
    using I(3) [of t] F(5) [of t] slot_at_seqno(2) [OF I(1)] that le [OF touched_le_clock [OF inv, of t]] by (simp add: owned_ticket_def)
  moreover have "storage (slot_at c (now s) p) = Some (claimed (now s) ! unat p) \<and> ordered t (ring_index c p) (wmem s)" if "pcs (now s) t = D_Claimed p" for t p
    using I(3) [of t] F(5) [of t] slot_at_seqno(2) [OF I(1)] that le [OF touched_le_clock [OF inv, of t]] by (simp add: owned_ticket_def)
  moreover have "up_to_date t (ring_index c p) (wmem s)" if "pcs (now s) t = E_Built x p \<or> pcs (now s) t = D_Moved p v" for t x p v
    using I(3) [of t] that by auto
  moreover have "distinct (map fst (taken (now s)))" "\<forall>(k, v) \<in> set (taken (now s)). k < length (claimed (now s)) \<and> v = claimed (now s) ! k"
    using F(3,4,7) by (auto simp: taken_ok_def)
  ultimately show ?thesis by blast
qed

text \<open>Thread 0 pushes the number 5 into a queue of two slots; thread 2 claims it.\<close>

lemma weak_mpmc_go:
  assumes "reach (weak_mpmc_init c) (weak_mpmc_step c) s" "push_step c s s' \<or> pop_step c s s'" "length (claimed (now s')) \<le> 1"
  shows "reach (weak_mpmc_init c) (weak_mpmc_step c) s'"
  using assms by (auto intro: reach_step simp: weak_mpmc_step_def)

lemmas run_defs = load_defs goto_def set_slot_def slot_at_def ra_load_def ra_store_def access_def readable_def value_at_def latest_def

lemma weak_first_push:
  "\<exists>(s :: nat weak_mpmc) k. reach (weak_mpmc_init 2) (weak_mpmc_step 2) s \<and> pcs (now s) 2 = M_Idle \<and> stores (wmem s) M_Deq = [(0, \<lambda>u. 0)] \<and> stores (wmem s) (M_Seq 0) = [(0, \<lambda>u. 0), (1, k)] \<and>
     seen (wmem s) 2 (M_Seq 0) = 0 \<and> seen (wmem s) 2 M_Deq = 0 \<and> claimed (now s) = [5]"
proof -
  let ?R = "reach (weak_mpmc_init 2) (weak_mpmc_step 2)"
  define s0 :: "nat weak_mpmc" where "s0 = \<lparr> now = \<lparr> mq = mpmc_new 2, pcs = (\<lambda>t. M_Idle), claimed = [], taken = [] \<rparr>, wmem = ra_new initial_value \<rparr>"
  define s1 where "s1 = at 0 (E_Load 5 (value_at M_Enq 0 (wmem s0))) (load_pos 0 M_Enq 0 s0)"
  define s2 where "s2 = at 0 (E_Ready 5 0) (load_seq 2 0 0 0 s1)"
  define s3 where "s3 = s2\<lparr> now := goto 0 (E_Claimed 5 0) ((now s2)\<lparr> mq := (mq (now s2))\<lparr> enqueue_pos := 0 + 1 \<rparr>, claimed := claimed (now s2) @ [5] \<rparr>),
        wmem := ra_store Relaxed 0 M_Enq (0 + 1) (wmem s2) \<rparr>"
  define s4 where "s4 = s3\<lparr> now := goto 0 (E_Built 5 0) (set_slot 2 0 ((slot_at 2 (now s3) 0)\<lparr> storage := Some 5 \<rparr>) (now s3)), wmem := access 0 (ring_index 2 0) (wmem s3) \<rparr>"
  define s5 where "s5 = s4\<lparr> now := goto 0 M_Idle (set_slot 2 0 ((slot_at 2 (now s4) 0)\<lparr> sequence := 0 + 1 \<rparr>) (now s4)),
        wmem := ra_store Release 0 (M_Seq (ring_index 2 0)) (0 + 1) (wmem s4) \<rparr>"
  have ri: "ring_index 2 0 = 0" by (simp add: ring_index_def)
  note ev = run_defs ri
  have f0: "pcs (now s0) 0 = M_Idle" "pcs (now s0) 2 = M_Idle" "stores (wmem s0) M_Enq = [(0, \<lambda>u. 0)]" "stores (wmem s0) M_Deq = [(0, \<lambda>u. 0)]"
    "stores (wmem s0) (M_Seq 0) = [(0, \<lambda>u. 0)]" "seen (wmem s0) 0 (M_Seq 0) = 0" "seen (wmem s0) 2 (M_Seq 0) = 0" "seen (wmem s0) 2 M_Deq = 0" "claimed (now s0) = []"
    by (simp_all add: s0_def ra_new_def)
  have f1: "pcs (now s1) 0 = E_Load 5 0" "pcs (now s1) 2 = M_Idle" "stores (wmem s1) M_Enq = [(0, \<lambda>u. 0)]" "stores (wmem s1) M_Deq = [(0, \<lambda>u. 0)]"
    "stores (wmem s1) (M_Seq 0) = [(0, \<lambda>u. 0)]" "seen (wmem s1) 0 (M_Seq 0) = 0" "seen (wmem s1) 2 (M_Seq 0) = 0" "seen (wmem s1) 2 M_Deq = 0" "claimed (now s1) = []"
    by (simp_all add: f0 ev s1_def)
  have f2: "pcs (now s2) 0 = E_Ready 5 0" "pcs (now s2) 2 = M_Idle" "stores (wmem s2) M_Enq = [(0, \<lambda>u. 0)]" "stores (wmem s2) M_Deq = [(0, \<lambda>u. 0)]"
    "stores (wmem s2) (M_Seq 0) = [(0, \<lambda>u. 0)]" "seen (wmem s2) 0 (M_Seq 0) = 0" "seen (wmem s2) 2 (M_Seq 0) = 0" "seen (wmem s2) 2 M_Deq = 0" "claimed (now s2) = []"
    by (simp_all add: f1 ev s2_def)
  have f3: "pcs (now s3) 0 = E_Claimed 5 0" "pcs (now s3) 2 = M_Idle" "stores (wmem s3) M_Enq = [(0, \<lambda>u. 0), (1, \<lambda>u. 0)]" "stores (wmem s3) M_Deq = [(0, \<lambda>u. 0)]"
    "stores (wmem s3) (M_Seq 0) = [(0, \<lambda>u. 0)]" "seen (wmem s3) 0 (M_Seq 0) = 0" "seen (wmem s3) 2 (M_Seq 0) = 0" "seen (wmem s3) 2 M_Deq = 0" "claimed (now s3) = [5]"
    by (simp_all add: f2 ev s3_def)
  have f4: "pcs (now s4) 0 = E_Built 5 0" "pcs (now s4) 2 = M_Idle" "stores (wmem s4) M_Enq = [(0, \<lambda>u. 0), (1, \<lambda>u. 0)]" "stores (wmem s4) M_Deq = [(0, \<lambda>u. 0)]"
    "stores (wmem s4) (M_Seq 0) = [(0, \<lambda>u. 0)]" "seen (wmem s4) 0 (M_Seq 0) = 0" "seen (wmem s4) 2 (M_Seq 0) = 0" "seen (wmem s4) 2 M_Deq = 0" "claimed (now s4) = [5]"
    by (simp_all add: f3 ev s4_def)
  have f5: "pcs (now s5) 2 = M_Idle" "stores (wmem s5) M_Deq = [(0, \<lambda>u. 0)]" "stores (wmem s5) (M_Seq 0) = [(0, \<lambda>u. 0), (1, clock (wmem s4) 0)]"
    "seen (wmem s5) 2 (M_Seq 0) = 0" "seen (wmem s5) 2 M_Deq = 0" "claimed (now s5) = [5]"
    by (simp_all add: f4 ev s5_def)
  have push1: "push_step 2 s0 s1" unfolding s1_def by (rule e_start) (simp_all add: f0 ev s0_def ra_new_def)
  have push2: "push_step 2 s1 s2" unfolding s2_def by (rule e_ready) (simp_all add: f1 ev)
  have push3: "push_step 2 s2 s3" unfolding s3_def by (rule e_claim) (simp_all add: f2 ev)
  have push4: "push_step 2 s3 s4" unfolding s4_def by (rule e_construct) (simp_all add: f3 ev)
  have push5: "push_step 2 s4 s5" unfolding s5_def by (rule e_publish) (simp_all add: f4 ev)
  have "?R s0" by (rule reach_init) (simp add: weak_mpmc_init_def mpmc_init_def mpmc_capacity_ok_def s0_def)
  then have "?R s1" by (rule weak_mpmc_go) (simp_all add: f1 push1)
  then have "?R s2" by (rule weak_mpmc_go) (simp_all add: f2 push2)
  then have "?R s3" by (rule weak_mpmc_go) (simp_all add: f3 push3)
  then have "?R s4" by (rule weak_mpmc_go) (simp_all add: f4 push4)
  then have "?R s5" by (rule weak_mpmc_go) (simp_all add: f5 push5)
  then show ?thesis using f5 by blast
qed

lemma weak_first_pop:
  "\<exists>s :: nat weak_mpmc. reach (weak_mpmc_init 2) (weak_mpmc_step 2) s \<and> pcs (now s) 2 = D_Claimed 0 \<and> claimed (now s) = [5]"
proof -
  let ?R = "reach (weak_mpmc_init 2) (weak_mpmc_step 2)"
  obtain s5 :: "nat weak_mpmc" and k where "?R s5" and f5: "pcs (now s5) 2 = M_Idle" "stores (wmem s5) M_Deq = [(0, \<lambda>u. 0)]"
    "stores (wmem s5) (M_Seq 0) = [(0, \<lambda>u. 0), (1, k)]" "seen (wmem s5) 2 (M_Seq 0) = 0" "seen (wmem s5) 2 M_Deq = 0" "claimed (now s5) = [5]"
    using weak_first_push by blast
  define s6 where "s6 = at 2 (D_Load (value_at M_Deq 0 (wmem s5))) (load_pos 2 M_Deq 0 s5)"
  define s7 where "s7 = at 2 (D_Ready 0) (load_seq 2 2 0 1 s6)"
  define s8 where "s8 = s7\<lparr> now := goto 2 (D_Claimed 0) ((now s7)\<lparr> mq := (mq (now s7))\<lparr> dequeue_pos := 0 + 1 \<rparr> \<rparr>), wmem := ra_store Relaxed 2 M_Deq (0 + 1) (wmem s7) \<rparr>"
  have ri: "ring_index 2 0 = 0" by (simp add: ring_index_def)
  note ev = run_defs ri
  have f6: "pcs (now s6) 2 = D_Load 0" "stores (wmem s6) M_Deq = [(0, \<lambda>u. 0)]" "stores (wmem s6) (M_Seq 0) = [(0, \<lambda>u. 0), (1, k)]"
    "seen (wmem s6) 2 (M_Seq 0) = 0" "seen (wmem s6) 2 M_Deq = 0" "claimed (now s6) = [5]"
    by (simp_all add: f5 ev s6_def)
  have f7: "pcs (now s7) 2 = D_Ready 0" "stores (wmem s7) M_Deq = [(0, \<lambda>u. 0)]" "claimed (now s7) = [5]" by (simp_all add: f6 ev s7_def)
  have f8: "pcs (now s8) 2 = D_Claimed 0" "claimed (now s8) = [5]" by (simp_all add: f7 ev s8_def)
  have pop_6: "pop_step 2 s5 s6" unfolding s6_def by (rule d_start) (simp_all add: f5 ev)
  have pop_7: "pop_step 2 s6 s7" unfolding s7_def by (rule d_ready) (simp_all add: f6 ev)
  have pop_8: "pop_step 2 s7 s8" unfolding s8_def by (rule d_claim) (simp_all add: f7 ev)
  from \<open>?R s5\<close> have "?R s6" by (rule weak_mpmc_go) (simp_all add: f6 pop_6)
  then have "?R s7" by (rule weak_mpmc_go) (simp_all add: f7 pop_7)
  then have "?R s8" by (rule weak_mpmc_go) (simp_all add: f8 pop_8)
  then show ?thesis using f8 by blast
qed

theorem mpmc_race_free_witness:
  "\<exists>s :: nat weak_mpmc. reach (weak_mpmc_init 2) (weak_mpmc_step 2) s \<and> pcs (now s) 2 = D_Claimed 0 \<and>
     storage (slot_at 2 (now s) 0) = Some 5 \<and> ordered 2 (ring_index 2 0) (wmem s)"
proof -
  obtain s :: "nat weak_mpmc" where s: "reach (weak_mpmc_init 2) (weak_mpmc_step 2) s" "pcs (now s) 2 = D_Claimed 0" "claimed (now s) = [5]"
    using weak_first_pop by blast
  then have "storage (slot_at 2 (now s) 0) = Some (claimed (now s) ! unat (0 :: size_t)) \<and> ordered 2 (ring_index 2 0) (wmem s)"
    using mpmc_race_free [OF s(1)] by blast
  then show ?thesis using s by auto
qed

end
