(* ===== verification/Seqlock.thy ===== *)
theory Seqlock
  imports Prelude
begin

text \<open>
  \<^verbatim>\<open>concurrency/seqlock.hpp\<close> with any number of writers and readers. The protected data are the cells
  that the callbacks access: \<^verbatim>\<open>write\<close> runs a callback that stores into some of them one by one, \<^verbatim>\<open>read\<close>
  one that copies them one by one, so a reader can observe a half-finished write. The fences and the
  acquire and release accesses of the source keep these accesses between the two accesses to the
  counter, and the steps below are interleaved in that order.
\<close>

section \<open>Threads and their steps\<close>

text \<open>
  \<open>W_Spin\<close> and \<open>R_Spin\<close> are the heads of the two loops. \<open>W_Loaded st s\<close>: an even \<open>s\<close> was
  loaded; \<open>W_Writing st s\<close>: the swap succeeded and the stores \<open>st\<close> of the callback remain;
  \<open>R_Reading b s acc\<close>: the cells copied so far. \<open>b\<close> counts the writes that had completed when
  \<^verbatim>\<open>read\<close> was called.
\<close>

datatype 'a spc =
    S_Idle
  | W_Spin "(nat \<times> 'a) list"
  | W_Loaded "(nat \<times> 'a) list" u64
  | W_Writing "(nat \<times> 'a) list" u64
  | R_Spin nat
  | R_Reading nat u64 "'a list"

record 'a seq_sys =
  seq :: u64
  cells :: "'a list"
  spcs :: "nat \<Rightarrow> 'a spc"
  committed :: "'a list list"
  returned :: "(nat \<times> u64 \<times> 'a list) list"

definition seq_goto :: "nat \<Rightarrow> 'a spc \<Rightarrow> 'a seq_sys \<Rightarrow> 'a seq_sys" where
  "seq_goto t pc s = s\<lparr> spcs := (spcs s)(t := pc) \<rparr>"

definition writer_active :: "u64 \<Rightarrow> bool" where
  "writer_active s \<longleftrightarrow> s AND 1 \<noteq> 0"

definition seq_init :: "'a seq_sys \<Rightarrow> bool" where
  "seq_init s \<longleftrightarrow> seq s = 0 \<and> spcs s = (\<lambda>t. S_Idle) \<and> committed s = [cells s] \<and> returned s = []"

inductive seq_step :: "'a seq_sys \<Rightarrow> 'a seq_sys \<Rightarrow> bool" where
  write_start: "spcs s t = S_Idle \<Longrightarrow> seq_step s (seq_goto t (W_Spin st) s)"
| write_busy: "spcs s t = W_Spin st \<Longrightarrow> writer_active (seq s) \<Longrightarrow> seq_step s s"
| write_loaded: "spcs s t = W_Spin st \<Longrightarrow> \<not> writer_active (seq s) \<Longrightarrow>
    seq_step s (seq_goto t (W_Loaded st (seq s)) s)"
| write_swap: "spcs s t = W_Loaded st v \<Longrightarrow> seq s = v \<Longrightarrow>
    seq_step s (seq_goto t (W_Writing st v) (s\<lparr> seq := v + 1 \<rparr>))"
| write_swap_fails: "spcs s t = W_Loaded st v \<Longrightarrow> seq_step s (seq_goto t (W_Spin st) s)"
| write_cell: "spcs s t = W_Writing ((i, x) # st) v \<Longrightarrow>
    seq_step s (seq_goto t (W_Writing st v) (s\<lparr> cells := (cells s)[i := x] \<rparr>))"
| write_done: "spcs s t = W_Writing [] v \<Longrightarrow>
    seq_step s (seq_goto t S_Idle (s\<lparr> seq := v + 2, committed := committed s @ [cells s] \<rparr>))"
| read_start: "spcs s t = S_Idle \<Longrightarrow> seq_step s (seq_goto t (R_Spin (length (committed s) - 1)) s)"
| read_busy: "spcs s t = R_Spin b \<Longrightarrow> writer_active (seq s) \<Longrightarrow> seq_step s s"
| read_loaded: "spcs s t = R_Spin b \<Longrightarrow> \<not> writer_active (seq s) \<Longrightarrow>
    seq_step s (seq_goto t (R_Reading b (seq s) []) s)"
| read_cell: "spcs s t = R_Reading b v acc \<Longrightarrow> length acc < length (cells s) \<Longrightarrow>
    seq_step s (seq_goto t (R_Reading b v (acc @ [cells s ! length acc])) s)"
| read_return: "spcs s t = R_Reading b v acc \<Longrightarrow> length acc = length (cells s) \<Longrightarrow> seq s = v \<Longrightarrow>
    seq_step s (seq_goto t S_Idle (s\<lparr> returned := returned s @ [(b, v, acc)] \<rparr>))"
| read_retry: "spcs s t = R_Reading b v acc \<Longrightarrow> length acc = length (cells s) \<Longrightarrow> seq s \<noteq> v \<Longrightarrow>
    seq_step s (seq_goto t (R_Spin b) s)"

inductive_cases seq_step_cases: "seq_step s s'"

section \<open>The invariant\<close>

lemma writer_active_odd: "writer_active s \<longleftrightarrow> odd (unat s)"
proof -
  have "unat (s AND 1) = unat s mod 2" using unat_and_pow2_minus_1 [of s 1] by simp
  moreover have "s AND 1 = 0 \<longleftrightarrow> unat (s AND 1) = 0" by (simp only: unat_eq_zero)
  ultimately show ?thesis by (simp add: writer_active_def even_iff_mod_2_eq_zero)
qed

fun writing :: "'a spc \<Rightarrow> bool" where
  "writing (W_Writing st v) = True"
| "writing _ = False"

text \<open>The number of completed writes, and the snapshot that is current while no writer is active.\<close>

definition epoch :: "'a seq_sys \<Rightarrow> nat" where
  "epoch s = length (committed s) - 1"

lemma seq_goto_frame [simp]:
  "seq (seq_goto t pc s) = seq s" "cells (seq_goto t pc s) = cells s"
  "committed (seq_goto t pc s) = committed s" "returned (seq_goto t pc s) = returned s"
  "spcs (seq_goto t pc s) = (spcs s)(t := pc)" "epoch (seq_goto t pc s) = epoch s"
  by (simp_all add: seq_goto_def epoch_def)

fun spc_ok :: "'a seq_sys \<Rightarrow> 'a spc \<Rightarrow> bool" where
  "spc_ok s S_Idle = True"
| "spc_ok s (W_Spin st) = True"
| "spc_ok s (W_Loaded st v) = even (unat v)"
| "spc_ok s (W_Writing st v) = (unat v = 2 * epoch s \<and> unat (seq s) = 2 * epoch s + 1)"
| "spc_ok s (R_Spin b) = (b \<le> epoch s)"
| "spc_ok s (R_Reading b v acc) = (\<exists>k. unat v = 2 * k \<and> b \<le> k \<and> k \<le> epoch s \<and>
     length acc \<le> length (cells s) \<and> (seq s = v \<longrightarrow> acc = take (length acc) (committed s ! k)))"

definition seq_sinv :: "'a seq_sys \<Rightarrow> bool" where
  "seq_sinv s \<longleftrightarrow> committed s \<noteq> [] \<and>
     unat (seq s) = 2 * epoch s + (if \<exists>t. writing (spcs s t) then 1 else 0) \<and>
     ((\<forall>t. \<not> writing (spcs s t)) \<longrightarrow> cells s = last (committed s)) \<and>
     (\<forall>xs \<in> set (committed s). length xs = length (cells s)) \<and>
     (\<forall>t t'. writing (spcs s t) \<longrightarrow> writing (spcs s t') \<longrightarrow> t = t') \<and>
     (\<forall>t. spc_ok s (spcs s t)) \<and>
     (\<forall>(b, v, xs) \<in> set (returned s). \<exists>k. unat v = 2 * k \<and> b \<le> k \<and> k \<le> epoch s \<and> xs = committed s ! k)"

lemma seq_sinvD:
  assumes "seq_sinv s"
  shows "committed s \<noteq> []" "unat (seq s) = 2 * epoch s + (if \<exists>t. writing (spcs s t) then 1 else 0)"
    "(\<forall>t. \<not> writing (spcs s t)) \<Longrightarrow> cells s = last (committed s)"
    "xs \<in> set (committed s) \<Longrightarrow> length xs = length (cells s)"
    "writing (spcs s t) \<Longrightarrow> writing (spcs s t') \<Longrightarrow> t = t'" "spc_ok s (spcs s t)"
  using assms by (simp_all add: seq_sinv_def)

lemma idle_iff:
  assumes "seq_sinv s"
  shows "writer_active (seq s) \<longleftrightarrow> (\<exists>t. writing (spcs s t))"
  using seq_sinvD(2) [OF assms] by (simp add: writer_active_odd)

lemma seq_sinv_init: "seq_init s \<Longrightarrow> seq_sinv s"
  by (simp add: seq_init_def seq_sinv_def epoch_def)

lemma seq_local:
  assumes inv: "seq_sinv s" and "\<not> writing (spcs s t)" "\<not> writing pc" and ok: "spc_ok s pc"
  shows "seq_sinv (seq_goto t pc s)"
proof -
  let ?s = "seq_goto t pc s"
  have w: "writing (spcs ?s u) = writing (spcs s u)" for u using assms by (simp add: seq_goto_def)
  have pc: "spc_ok ?s p = spc_ok s p" for p by (cases p) simp_all
  have "spc_ok ?s (spcs ?s u)" for u
    using ok seq_sinvD(6) [OF inv] by (simp add: pc)
  then show ?thesis using inv unfolding seq_sinv_def w by simp
qed

lemma seq_swap:
  assumes inv: "seq_sinv s" and pc: "spcs s t = W_Loaded st (seq s)" and wrap: "epoch s < 2 ^ 63"
  shows "seq_sinv (seq_goto t (W_Writing st (seq s)) (s\<lparr> seq := seq s + 1 \<rparr>))" (is "seq_sinv ?s")
proof -
  have "even (unat (seq s))" using seq_sinvD(6) [OF inv, of t] by (simp add: pc)
  then have idle: "\<not> writing (spcs s u)" for u using idle_iff [OF inv] by (auto simp: writer_active_odd)
  then have sq: "unat (seq s) = 2 * epoch s" using seq_sinvD(2) [OF inv] by simp
  then have sq1: "unat (seq s + 1) = 2 * epoch s + 1" using wrap by (simp add: unat_plus_if')
  have ep: "epoch (s\<lparr> seq := seq s + 1 \<rparr>) = epoch s" by (simp add: epoch_def)
  have "spc_ok ?s (spcs ?s u)" for u
  proof (cases "spcs s u")
    case (R_Reading b w acc)
    with seq_sinvD(6) [OF inv, of u] obtain k where
      k: "unat w = 2 * k" "b \<le> k" "k \<le> epoch s" "length acc \<le> length (cells s)" by auto
    then have "seq s + 1 \<noteq> w" using sq1 by auto
    with k show ?thesis using R_Reading sq sq1 by (auto simp: ep)
  qed (use seq_sinvD(6) [OF inv, of u] idle [of u] sq sq1 in \<open>auto simp: ep\<close>)
  moreover have wr: "writing (spcs ?s u) \<longleftrightarrow> u = t" for u using idle by simp
  ultimately show ?thesis using inv sq1 unfolding seq_sinv_def wr by (simp add: ep)
qed

lemma seq_cell:
  assumes inv: "seq_sinv s" and pc: "spcs s t = W_Writing ((i, x) # st) v"
  shows "seq_sinv (seq_goto t (W_Writing st v) (s\<lparr> cells := (cells s)[i := x] \<rparr>))" (is "seq_sinv ?s")
proof -
  have ep: "epoch (s\<lparr> cells := (cells s)[i := x] \<rparr>) = epoch s" by (simp add: epoch_def)
  have t: "unat v = 2 * epoch s" "unat (seq s) = 2 * epoch s + 1"
    using seq_sinvD(6) [OF inv, of t] by (simp_all add: pc)
  have "spc_ok ?s (spcs ?s u)" for u
    using seq_sinvD(6) [OF inv, of u] t by (cases "spcs s u") (auto simp: ep pc)
  moreover have wr: "writing (spcs ?s u) = writing (spcs s u)" for u by (simp add: pc)
  moreover have "\<not> (\<forall>u. \<not> writing (spcs s u))" by (metis pc writing.simps(1))
  ultimately show ?thesis
    using inv unfolding seq_sinv_def wr by (auto simp: ep)
qed

lemma seq_done:
  assumes inv: "seq_sinv s" and pc: "spcs s t = W_Writing [] v" and wrap: "epoch s + 1 < 2 ^ 63"
  shows "seq_sinv (seq_goto t S_Idle (s\<lparr> seq := v + 2, committed := committed s @ [cells s] \<rparr>))" (is "seq_sinv ?s")
proof -
  have ne: "committed s \<noteq> []" by (rule seq_sinvD(1) [OF inv])
  then have ep: "epoch (s\<lparr> seq := v + 2, committed := committed s @ [cells s] \<rparr>) = epoch s + 1"
    "epoch s < length (committed s)"
    by (simp_all add: epoch_def)
  have t: "unat v = 2 * epoch s" "unat (seq s) = 2 * epoch s + 1"
    using seq_sinvD(6) [OF inv, of t] by (simp_all add: pc)
  then have v2: "unat (v + 2) = 2 * epoch s + 2" using wrap by (simp add: unat_plus_if')
  have lone: "\<not> writing (spcs s u)" if "u \<noteq> t" for u using seq_sinvD(5) [OF inv, of t u] that pc by auto
  have old: "(committed s @ [cells s]) ! k = committed s ! k" if "k \<le> epoch s" for k
    using that ep(2) by (simp add: nth_append)
  have "spc_ok ?s (spcs ?s u)" for u
  proof (cases "spcs s u")
    case (R_Reading b w acc)
    with seq_sinvD(6) [OF inv, of u] obtain k where
      k: "unat w = 2 * k" "b \<le> k" "k \<le> epoch s" "length acc \<le> length (cells s)" by auto
    then have "v + 2 \<noteq> w" using v2 by auto
    with k show ?thesis using R_Reading pc by (auto simp: ep)
  qed (use seq_sinvD(6) [OF inv, of u] lone [of u] in \<open>auto simp: ep\<close>)
  moreover have wr: "writing (spcs ?s u) \<longleftrightarrow> False" for u using lone by simp
  moreover have "\<exists>k. unat w = 2 * k \<and> b \<le> k \<and> k \<le> epoch ?s \<and> xs = committed ?s ! k"
    if "(b, w, xs) \<in> set (returned s)" for b w xs
  proof -
    from inv that obtain k where "unat w = 2 * k" "b \<le> k" "k \<le> epoch s" "xs = committed s ! k"
      unfolding seq_sinv_def by fast
    with old [of k] show ?thesis by (auto simp: ep)
  qed
  moreover have "\<forall>xs \<in> set (committed ?s). length xs = length (cells ?s)" using seq_sinvD(4) [OF inv] by auto
  ultimately show ?thesis
    using v2 unfolding seq_sinv_def wr by (auto simp: ep)
qed

lemma seq_read_cell:
  assumes inv: "seq_sinv s" and pc: "spcs s t = R_Reading b v acc" and "length acc < length (cells s)"
  shows "spc_ok s (R_Reading b v (acc @ [cells s ! length acc]))"
proof -
  from seq_sinvD(6) [OF inv, of t] obtain k where k: "unat v = 2 * k" "b \<le> k" "k \<le> epoch s"
    and pre: "seq s = v \<longrightarrow> acc = take (length acc) (committed s ! k)" by (auto simp: pc)
  have step: "acc @ [cells s ! length acc] = take (Suc (length acc)) (committed s ! k)" if "seq s = v"
  proof -
    have "even (unat (seq s))" using that k by simp
    then have "\<forall>u. \<not> writing (spcs s u)" using idle_iff [OF inv] by (auto simp: writer_active_odd)
    moreover from this have "k = epoch s" using seq_sinvD(2) [OF inv] that k(1) by simp
    ultimately have "cells s = committed s ! k"
      using seq_sinvD(1,3) [OF inv] by (simp add: last_conv_nth epoch_def)
    with pre that assms(3) show ?thesis by (metis take_Suc_conv_app_nth)
  qed
  have "acc @ [cells s ! length acc] = take (length (acc @ [cells s ! length acc])) (committed s ! k)"
    if "seq s = v"
    by (simp only: step [OF that] length_append_singleton)
      (simp only: step [OF that, symmetric] length_append_singleton)
  moreover have "length (acc @ [cells s ! length acc]) \<le> length (cells s)" using assms(3) by simp
  ultimately show ?thesis
    unfolding spc_ok.simps using k by blast
qed

lemma seq_log:
  fixes u :: "'a seq_sys"
  assumes "seq_sinv u" and "\<exists>k. unat v = 2 * k \<and> b \<le> k \<and> k \<le> epoch u \<and> xs = committed u ! k"
  shows "seq_sinv (u\<lparr> returned := returned u @ [(b, v, xs)] \<rparr>)"
proof -
  have ep: "epoch (u\<lparr> returned := r \<rparr>) = epoch u" for r by (simp add: epoch_def)
  then have "spc_ok (u\<lparr> returned := r \<rparr>) p = spc_ok u p" for r p by (cases p) simp_all
  with assms show ?thesis by (simp only: seq_sinv_def ep) simp
qed

lemma seq_return:
  assumes inv: "seq_sinv s" and pc: "spcs s t = R_Reading b (seq s) acc" and "length acc = length (cells s)"
  shows "seq_sinv (seq_goto t S_Idle (s\<lparr> returned := returned s @ [(b, seq s, acc)] \<rparr>))"
proof -
  have loc: "seq_sinv (seq_goto t S_Idle s)" by (rule seq_local [OF inv]) (simp_all add: pc)
  from seq_sinvD(6) [OF inv, of t] obtain k where k: "unat (seq s) = 2 * k" "b \<le> k" "k \<le> epoch s"
    and acc: "acc = take (length acc) (committed s ! k)" by (auto simp: pc)
  have "k < length (committed s)" using k(3) seq_sinvD(1) [OF inv] by (cases "committed s") (auto simp: epoch_def)
  then have "committed s ! k \<in> set (committed s)" by simp
  then have "acc = committed s ! k" using seq_sinvD(4) [OF inv] assms(3) acc by simp
  then have "\<exists>k. unat (seq s) = 2 * k \<and> b \<le> k \<and> k \<le> epoch s \<and> acc = committed s ! k" using k by blast
  then have "seq_sinv ((seq_goto t S_Idle s)\<lparr> returned := returned (seq_goto t S_Idle s) @ [(b, seq s, acc)] \<rparr>)"
    by (intro seq_log [OF loc]) simp
  moreover have "seq_goto t S_Idle (s\<lparr> returned := r \<rparr>) = (seq_goto t S_Idle s)\<lparr> returned := r \<rparr>" for r
    by (cases s) (simp add: seq_goto_def)
  ultimately show ?thesis by (simp only: seq_goto_frame)
qed

lemma committed_grows: "seq_step s s' \<Longrightarrow> length (committed s) \<le> length (committed s')"
  by (induction rule: seq_step.induct) (simp_all add: seq_goto_def)

lemma seq_sinv_step:
  assumes "seq_step s s'" and inv: "seq_sinv s" and bound: "length (committed s') \<le> 2 ^ 63"
  shows "seq_sinv s'"
proof -
  have ep: "epoch s < 2 ^ 63"
    using committed_grows [OF assms(1)] bound seq_sinvD(1) [OF inv] by (cases "committed s") (auto simp: epoch_def)
  have ok: "spc_ok s (spcs s u)" for u by (rule seq_sinvD(6) [OF inv])
  show ?thesis
    using assms(1)
  proof cases
    case (write_swap t st v)
    with seq_swap [OF inv _ ep] show ?thesis by simp
  next
    case (write_done t v)
    have "epoch s + 1 < 2 ^ 63"
      using bound seq_sinvD(1) [OF inv] unfolding write_done(1) by (cases "committed s") (auto simp: epoch_def seq_goto_def)
    with write_done show ?thesis using seq_done [OF inv] by simp
  next
    case (read_loaded t b)
    have idle: "\<forall>u. \<not> writing (spcs s u)" using read_loaded idle_iff [OF inv] by blast
    then have "unat (seq s) = 2 * epoch s" using seq_sinvD(2) [OF inv] by simp
    with read_loaded ok [of t] show ?thesis by (auto intro!: seq_local [OF inv])
  next
    case (read_cell t b v acc)
    with seq_read_cell [OF inv, of t] show ?thesis by (auto intro!: seq_local [OF inv] simp del: spc_ok.simps(6))
  next
    case (read_retry t b v acc)
    with ok [of t] show ?thesis by (auto intro!: seq_local [OF inv])
  qed (auto intro!: seq_local [OF inv] seq_cell [OF inv] seq_return [OF inv] inv
      simp: writer_active_odd epoch_def)
qed

interpretation seq_run: inductive_invariant seq_init seq_step
  "\<lambda>s. length (committed s) \<le> 2 ^ 63 \<longrightarrow> seq_sinv s"
proof unfold_locales
  fix s s' :: "'a seq_sys"
  assume inv: "length (committed s) \<le> 2 ^ 63 \<longrightarrow> seq_sinv s" and st: "seq_step s s'"
  show "length (committed s') \<le> 2 ^ 63 \<longrightarrow> seq_sinv s'"
  proof
    assume b: "length (committed s') \<le> 2 ^ 63"
    with committed_grows [OF st] inv have "seq_sinv s" by simp
    from seq_sinv_step [OF st this b] show "seq_sinv s'" .
  qed
qed (simp add: seq_sinv_init)

section \<open>Consistent snapshots\<close>

text \<open>
  As long as the counter has not gone round (fewer than \<open>2 ^ 63\<close> writes), every value that
  \<^verbatim>\<open>Seqlock::read\<close> returned is the complete state left by one finished write, never a mixture, and
  a write not older than the last one that had finished when the read began; and two writers
  are never inside their callbacks together.
\<close>

theorem seqlock_snapshot:
  assumes "reach seq_init seq_step s" and "length (committed s) \<le> 2 ^ 63"
  shows "(\<forall>(b, v, xs) \<in> set (returned s). \<exists>k < length (committed s).
      unat v = 2 * k \<and> b \<le> k \<and> xs = committed s ! k) \<and>
    (\<forall>t t' st st' v v'. spcs s t = W_Writing st v \<and> spcs s t' = W_Writing st' v' \<longrightarrow> t = t')"
proof -
  have inv: "seq_sinv s" using seq_run.reach_inv [OF assms(1)] assms(2) by blast
  have "k < length (committed s)" if "k \<le> epoch s" for k
    using that seq_sinvD(1) [OF inv] by (cases "committed s") (auto simp: epoch_def)
  then have "\<forall>(b, v, xs) \<in> set (returned s). \<exists>k < length (committed s).
      unat v = 2 * k \<and> b \<le> k \<and> xs = committed s ! k"
    using inv unfolding seq_sinv_def by fast
  moreover have "t = t'" if "spcs s t = W_Writing st v" "spcs s t' = W_Writing st' v'" for t t' st st' v v'
    by (rule seq_sinvD(5) [OF inv]) (simp_all add: that)
  ultimately show ?thesis by blast
qed

lemma seq_reach_returned:
  "reach seq_init seq_step
    \<lparr> seq = 0, cells = [7::nat], spcs = (\<lambda>t. S_Idle), committed = [[7]], returned = [(0, 0, [7])] \<rparr>"
proof -
  let ?R = "reach seq_init seq_step"
  let ?s = "\<lambda>pc. \<lparr> seq = 0, cells = [7::nat], spcs = (\<lambda>t. S_Idle)(0 := pc), committed = [[7]], returned = [] \<rparr>"
  have "?R (?s S_Idle)" by (rule reach_init) (simp add: seq_init_def fun_eq_iff)
  then have "?R (seq_goto 0 (R_Spin (length (committed (?s S_Idle)) - 1)) (?s S_Idle))"
    by (rule reach_step) (rule read_start, simp)
  then have "?R (?s (R_Spin 0))" by (simp add: seq_goto_def)
  then have "?R (seq_goto 0 (R_Reading 0 (seq (?s (R_Spin 0))) []) (?s (R_Spin 0)))"
    by (rule reach_step) (rule read_loaded, simp_all add: writer_active_def)
  then have "?R (?s (R_Reading 0 0 []))" by (simp add: seq_goto_def)
  then have "?R (seq_goto 0 (R_Reading 0 0 ([] @ [cells (?s (R_Reading 0 0 [])) ! length ([]::nat list)])) (?s (R_Reading 0 0 [])))"
    by (rule reach_step) (rule read_cell, simp_all)
  then have "?R (?s (R_Reading 0 0 [7]))" by (simp add: seq_goto_def)
  then have "?R (seq_goto 0 S_Idle ((?s (R_Reading 0 0 [7]))\<lparr> returned := returned (?s (R_Reading 0 0 [7])) @ [(0, 0, [7])] \<rparr>))"
    by (rule reach_step) (rule read_return, simp_all)
  then show ?thesis by (simp add: seq_goto_def fun_upd_idem)
qed

theorem seqlock_snapshot_witness: "\<exists>k < length [[7::nat]]. unat (0::u64) = 2 * k \<and> [7] = [[7::nat]] ! k"
  using seqlock_snapshot [OF seq_reach_returned] by auto

end
