(* ===== verification/Fences.thy ===== *)
theory Fences
  imports Release_Acquire
begin

text \<open>
  A memory with fences, for code that orders relaxed accesses to shared data by \<^verbatim>\<open>std::atomic_thread_fence\<close>. A view gives, for every variable, the oldest store that may still be read. Each thread has
  its current view, the view an acquire fence would give it, and the view of its latest release fence. A store carries a view: that of its thread when the store is a release,
  otherwise that of the latest release fence. As in \<open>Release_Acquire\<close>, stores are appended, which is the only place for a store of a thread that has seen the latest one,
  and a load returns a store that was made before it (the language leaves load buffering of relaxed accesses open; no implementation of these fences exhibits it).
\<close>

section \<open>Views\<close>

type_synonym 'l view = "'l \<Rightarrow> nat"

definition vjoin :: "'l view \<Rightarrow> 'l view \<Rightarrow> 'l view" where
  "vjoin a b = (\<lambda>l. max (a l) (b l))"

lemma vjoin_apply [simp]: "vjoin a b l = max (a l) (b l)"
  by (simp add: vjoin_def)

record ('l, 'v) fmemory =
  msgs :: "'l \<Rightarrow> ('v \<times> 'l view) list"
  cur :: "nat \<Rightarrow> 'l view"
  acq :: "nat \<Rightarrow> 'l view"
  rel :: "nat \<Rightarrow> 'l view"

definition fm_new :: "('l \<Rightarrow> 'v) \<Rightarrow> ('l, 'v) fmemory" where
  "fm_new init = \<lparr> msgs = (\<lambda>l. [(init l, \<lambda>l. 0)]), cur = (\<lambda>t l. 0), acq = (\<lambda>t l. 0), rel = (\<lambda>t l. 0) \<rparr>"

definition visible :: "nat \<Rightarrow> 'l \<Rightarrow> nat \<Rightarrow> ('l, 'v) fmemory \<Rightarrow> bool" where
  "visible t l i m \<longleftrightarrow> cur m t l \<le> i \<and> i < length (msgs m l)"

definition fm_load :: "memory_order \<Rightarrow> nat \<Rightarrow> 'l \<Rightarrow> nat \<Rightarrow> ('l, 'v) fmemory \<Rightarrow> ('l, 'v) fmemory" where
  "fm_load ord t l i m = (let c = (cur m t)(l := i); w = snd (msgs m l ! i) in
     m\<lparr> cur := (cur m)(t := if ord = Acquire then vjoin c w else c), acq := (acq m)(t := vjoin (acq m t) (vjoin c w)) \<rparr>)"

definition fm_store :: "memory_order \<Rightarrow> nat \<Rightarrow> 'l \<Rightarrow> 'v \<Rightarrow> ('l, 'v) fmemory \<Rightarrow> ('l, 'v) fmemory" where
  "fm_store ord t l v m = (let n = length (msgs m l); w = (if ord = Release then cur m t else rel m t) in
     m\<lparr> msgs := (msgs m)(l := msgs m l @ [(v, w(l := n))]), cur := (cur m)(t := (cur m t)(l := n)), acq := (acq m)(t := (acq m t)(l := n)) \<rparr>)"

text \<open>A successful compare-and-swap with \<^verbatim>\<open>memory_order_acq_rel\<close>: it reads the latest store and is the next one.\<close>

definition fm_swap :: "nat \<Rightarrow> 'l \<Rightarrow> 'v \<Rightarrow> ('l, 'v) fmemory \<Rightarrow> ('l, 'v) fmemory" where
  "fm_swap t l v m = fm_store Release t l v (fm_load Acquire t l (length (msgs m l) - 1) m)"

definition acquire_fence :: "nat \<Rightarrow> ('l, 'v) fmemory \<Rightarrow> ('l, 'v) fmemory" where
  "acquire_fence t m = m\<lparr> cur := (cur m)(t := acq m t) \<rparr>"

definition release_fence :: "nat \<Rightarrow> ('l, 'v) fmemory \<Rightarrow> ('l, 'v) fmemory" where
  "release_fence t m = m\<lparr> rel := (rel m)(t := cur m t) \<rparr>"

lemmas fm_defs = fm_load_def fm_store_def fm_swap_def acquire_fence_def release_fence_def Let_def

section \<open>Views stay within the stores\<close>

text \<open>No view goes beyond the latest store, so that there is always something to read, and an acquire fence only adds to the current view.\<close>

definition views_ok :: "('l, 'v) fmemory \<Rightarrow> bool" where
  "views_ok m \<longleftrightarrow> (\<forall>t l. acq m t l < length (msgs m l) \<and> cur m t l \<le> acq m t l \<and> rel m t l < length (msgs m l)) \<and>
     (\<forall>l j l'. j < length (msgs m l) \<longrightarrow> snd (msgs m l ! j) l' < length (msgs m l'))"

lemma views_okD:
  assumes "views_ok m"
  shows "acq m t l < length (msgs m l)" "cur m t l \<le> acq m t l" "cur m t l < length (msgs m l)" "rel m t l < length (msgs m l)"
    "j < length (msgs m l) \<Longrightarrow> snd (msgs m l ! j) l' < length (msgs m l')"
  using assms by (auto simp: views_ok_def intro: le_less_trans)

lemma views_ok_new: "views_ok (fm_new init)"
  by (simp add: views_ok_def fm_new_def)

lemma views_ok_load:
  assumes "views_ok m" "visible t l i m"
  shows "views_ok (fm_load ord t l i m)"
  using views_okD [OF assms(1)] assms(2) unfolding views_ok_def by (auto simp: fm_load_def Let_def visible_def le_max_iff_disj)

lemma views_ok_store:
  assumes "views_ok m"
  shows "views_ok (fm_store ord t l v m)"
proof -
  note V = views_okD [OF assms]
  have "snd (msgs (fm_store ord t l v m) k ! j) k' < length (msgs (fm_store ord t l v m) k')" if "j < length (msgs (fm_store ord t l v m) k)" for j k k'
    using that V(3,4) [of t k'] V(5) [of j k k'] by (auto simp: fm_store_def Let_def nth_append less_Suc_eq)
  then show ?thesis using V(1,2,4) unfolding views_ok_def by (auto simp: fm_store_def Let_def less_Suc_eq)
qed

lemma views_ok_fences: "views_ok m \<Longrightarrow> views_ok (acquire_fence t m)" "views_ok m \<Longrightarrow> views_ok (release_fence t m)"
  by (auto simp: views_ok_def acquire_fence_def release_fence_def intro: le_less_trans)

lemma visible_last:
  assumes "views_ok m"
  shows "visible t l (length (msgs m l) - 1) m"
proof -
  have "cur m t l < length (msgs m l)" by (rule views_okD(3) [OF assms])
  then show ?thesis unfolding visible_def by linarith
qed

lemma views_ok_swap: "views_ok m \<Longrightarrow> views_ok (fm_swap t l v m)"
  unfolding fm_swap_def by (intro views_ok_store views_ok_load visible_last)

end
