(* ===== verification/Seqlock_Weak.thy ===== *)
theory Seqlock_Weak
  imports Seqlock Fences
begin

text \<open>
  \<^verbatim>\<open>concurrency/seqlock.hpp\<close> under the memory orders and fences that it asks for, with callbacks that access the shared data by relaxed atomics. Readers may see the stores of a
  write in any order, and before the counter shows that a write is going on.
\<close>

section \<open>The steps\<close>

datatype lock_var = Counter | Cell nat

datatype 'a lock_val = Count (count: u64) | Datum (datum: 'a)

text \<open>
  The program counters refine those of \<open>Seqlock\<close>: \<open>V_Swapped\<close> is before the first release fence of \<^verbatim>\<open>write\<close>, \<open>V_Checking\<close> behind the acquire fence of \<^verbatim>\<open>read\<close>. In \<open>V_Reading b s acc\<close> the
  number \<open>b\<close> is that of the writes the thread knew to be finished when it called \<^verbatim>\<open>read\<close>.
\<close>

datatype 'a vpc =
    V_Idle
  | V_Spin "(nat \<times> 'a) list" | V_Loaded "(nat \<times> 'a) list" u64 | V_Swapped "(nat \<times> 'a) list" u64 | V_Writing "(nat \<times> 'a) list" u64
  | V_Reader nat | V_Reading nat u64 "'a list" | V_Checking nat u64 "'a list"

text \<open>The last three fields are histories: which write made each store of a cell, the state each finished write left, and what the reads returned.\<close>

record 'a weak_seq =
  lockmem :: "(lock_var, 'a lock_val) fmemory"
  vpcs :: "nat \<Rightarrow> 'a vpc"
  maker :: "nat \<Rightarrow> nat list"
  finished :: "'a list list"
  results :: "(nat \<times> u64 \<times> 'a list) list"

definition vgoto :: "nat \<Rightarrow> 'a vpc \<Rightarrow> 'a weak_seq \<Rightarrow> 'a weak_seq" where
  "vgoto t pc s = s\<lparr> vpcs := (vpcs s)(t := pc) \<rparr>"

definition mem_at :: "(lock_var, 'a lock_val) fmemory \<Rightarrow> 'a weak_seq \<Rightarrow> 'a weak_seq" where
  "mem_at m s = s\<lparr> lockmem := m \<rparr>"

abbreviation counter_at :: "nat \<Rightarrow> 'a weak_seq \<Rightarrow> u64" where
  "counter_at i s \<equiv> count (fst (msgs (lockmem s) Counter ! i))"

abbreviation cell_at :: "nat \<Rightarrow> nat \<Rightarrow> 'a weak_seq \<Rightarrow> 'a" where
  "cell_at i j s \<equiv> datum (fst (msgs (lockmem s) (Cell i) ! j))"

definition newest :: "nat \<Rightarrow> 'a weak_seq \<Rightarrow> 'a list" where
  "newest n s = map (\<lambda>i. cell_at i (length (msgs (lockmem s) (Cell i)) - 1) s) [0..<n]"

fun start_value :: "(nat \<Rightarrow> 'a) \<Rightarrow> lock_var \<Rightarrow> 'a lock_val" where
  "start_value d Counter = Count 0"
| "start_value d (Cell i) = Datum (d i)"

definition weak_seq_init :: "nat \<Rightarrow> (nat \<Rightarrow> 'a) \<Rightarrow> 'a weak_seq \<Rightarrow> bool" where
  "weak_seq_init n d s \<longleftrightarrow> s = \<lparr> lockmem = fm_new (start_value d), vpcs = (\<lambda>t. V_Idle), maker = (\<lambda>i. [0]), finished = [map d [0..<n]], results = [] \<rparr>"

inductive write_step :: "nat \<Rightarrow> 'a weak_seq \<Rightarrow> 'a weak_seq \<Rightarrow> bool" for n where
  v_write: "vpcs s t = V_Idle \<Longrightarrow> write_step n s (vgoto t (V_Spin st) s)"
| v_busy: "vpcs s t = V_Spin st \<Longrightarrow> visible t Counter i (lockmem s) \<Longrightarrow> writer_active (counter_at i s) \<Longrightarrow>
    write_step n s (mem_at (fm_load Relaxed t Counter i (lockmem s)) s)"
| v_loaded: "vpcs s t = V_Spin st \<Longrightarrow> visible t Counter i (lockmem s) \<Longrightarrow> \<not> writer_active (counter_at i s) \<Longrightarrow>
    write_step n s (vgoto t (V_Loaded st (counter_at i s)) (mem_at (fm_load Relaxed t Counter i (lockmem s)) s))"
| v_swap: "vpcs s t = V_Loaded st v \<Longrightarrow> counter_at (length (msgs (lockmem s) Counter) - 1) s = v \<Longrightarrow>
    write_step n s (vgoto t (V_Swapped st v) (mem_at (fm_swap t Counter (Count (v + 1)) (lockmem s)) s))"
| v_swap_fails: "vpcs s t = V_Loaded st v \<Longrightarrow> visible t Counter i (lockmem s) \<Longrightarrow>
    write_step n s (vgoto t (V_Spin st) (mem_at (fm_load Relaxed t Counter i (lockmem s)) s))"
| v_fence: "vpcs s t = V_Swapped st v \<Longrightarrow> write_step n s (vgoto t (V_Writing st v) (mem_at (release_fence t (lockmem s)) s))"
| v_cell: "vpcs s t = V_Writing ((i, x) # st) v \<Longrightarrow>
    write_step n s (vgoto t (V_Writing st v) (mem_at (fm_store Relaxed t (Cell i) (Datum x) (lockmem s))
      (s\<lparr> maker := (maker s)(i := maker s i @ [length (finished s)]) \<rparr>)))"
| v_done: "vpcs s t = V_Writing [] v \<Longrightarrow>
    write_step n s (vgoto t V_Idle (mem_at (fm_store Release t Counter (Count (v + 2)) (release_fence t (lockmem s)))
      (s\<lparr> finished := finished s @ [newest n s] \<rparr>)))"

inductive read_step :: "nat \<Rightarrow> 'a weak_seq \<Rightarrow> 'a weak_seq \<Rightarrow> bool" for n where
  v_read: "vpcs s t = V_Idle \<Longrightarrow> read_step n s (vgoto t (V_Reader (cur (lockmem s) t Counter div 2)) s)"
| v_odd: "vpcs s t = V_Reader b \<Longrightarrow> visible t Counter i (lockmem s) \<Longrightarrow> writer_active (counter_at i s) \<Longrightarrow>
    read_step n s (mem_at (fm_load Acquire t Counter i (lockmem s)) s)"
| v_even: "vpcs s t = V_Reader b \<Longrightarrow> visible t Counter i (lockmem s) \<Longrightarrow> \<not> writer_active (counter_at i s) \<Longrightarrow>
    read_step n s (vgoto t (V_Reading b (counter_at i s) []) (mem_at (fm_load Acquire t Counter i (lockmem s)) s))"
| v_copy: "vpcs s t = V_Reading b v acc \<Longrightarrow> length acc < n \<Longrightarrow> visible t (Cell (length acc)) i (lockmem s) \<Longrightarrow>
    read_step n s (vgoto t (V_Reading b v (acc @ [cell_at (length acc) i s])) (mem_at (fm_load Relaxed t (Cell (length acc)) i (lockmem s)) s))"
| v_copied: "vpcs s t = V_Reading b v acc \<Longrightarrow> length acc = n \<Longrightarrow>
    read_step n s (vgoto t (V_Checking b v acc) (mem_at (acquire_fence t (lockmem s)) s))"
| v_return: "vpcs s t = V_Checking b v acc \<Longrightarrow> visible t Counter i (lockmem s) \<Longrightarrow> counter_at i s = v \<Longrightarrow>
    read_step n s (vgoto t V_Idle (mem_at (fm_load Relaxed t Counter i (lockmem s)) (s\<lparr> results := results s @ [(b, v, acc)] \<rparr>)))"
| v_retry: "vpcs s t = V_Checking b v acc \<Longrightarrow> visible t Counter i (lockmem s) \<Longrightarrow> counter_at i s \<noteq> v \<Longrightarrow>
    read_step n s (vgoto t (V_Reader b) (mem_at (fm_load Relaxed t Counter i (lockmem s)) s))"

text \<open>Runs with fewer than \<open>2 ^ 63\<close> writes, in which the counter does not go round.\<close>

definition weak_seq_step :: "nat \<Rightarrow> 'a weak_seq \<Rightarrow> 'a weak_seq \<Rightarrow> bool" where
  "weak_seq_step n s s' \<longleftrightarrow> (write_step n s s' \<or> read_step n s s') \<and> length (finished s') \<le> 2 ^ 63"

section \<open>The invariant\<close>

fun in_write :: "'a vpc \<Rightarrow> bool" where
  "in_write (V_Swapped st v) = True"
| "in_write (V_Writing st v) = True"
| "in_write _ = False"

definition busy :: "'a weak_seq \<Rightarrow> nat" where
  "busy s = (if \<exists>t. in_write (vpcs s t) then 1 else 0)"

text \<open>Store number \<open>j\<close> of the counter has the value \<open>j\<close>; write number \<open>k\<close> takes the counter from \<open>2 k - 2\<close> to \<open>2 k\<close>.\<close>

definition counter_ok :: "'a weak_seq \<Rightarrow> bool" where
  "counter_ok s \<longleftrightarrow> finished s \<noteq> [] \<and> length (finished s) \<le> 2 ^ 63 \<and>
     length (msgs (lockmem s) Counter) + 1 = 2 * length (finished s) + busy s \<and>
     (\<forall>j < length (msgs (lockmem s) Counter). fst (msgs (lockmem s) Counter ! j) = Count (of_nat j))"

text \<open>The stores of a cell are ordered by write, and each makes a reader aware of the odd counter of its write.\<close>

definition cells_ok :: "'a weak_seq \<Rightarrow> bool" where
  "cells_ok s \<longleftrightarrow> (\<forall>i. length (maker s i) = length (msgs (lockmem s) (Cell i)) \<and>
     (\<forall>j < length (maker s i). maker s i ! j < length (finished s) + busy s \<and>
       (\<forall>w. maker s i ! j = Suc w \<longrightarrow> 2 * w + 1 \<le> snd (msgs (lockmem s) (Cell i) ! j) Counter)))"

text \<open>The view \<open>w\<close> covers the stores of the first \<open>k\<close> writes.\<close>

definition covers :: "'a weak_seq \<Rightarrow> nat \<Rightarrow> lock_var view \<Rightarrow> bool" where
  "covers s k w \<longleftrightarrow> (\<forall>i j. j < length (maker s i) \<longrightarrow> maker s i ! j \<le> k \<longrightarrow> j \<le> w (Cell i))"

definition publish_ok :: "'a weak_seq \<Rightarrow> bool" where
  "publish_ok s \<longleftrightarrow> (\<forall>k. 2 * k < length (msgs (lockmem s) Counter) \<longrightarrow> covers s k (snd (msgs (lockmem s) Counter ! (2 * k))))"

text \<open>The state that write \<open>k\<close> left in a cell is the latest store of the first \<open>k\<close> writes.\<close>

definition snapshot_ok :: "nat \<Rightarrow> 'a weak_seq \<Rightarrow> bool" where
  "snapshot_ok n s \<longleftrightarrow> (\<forall>k < length (finished s). length (finished s ! k) = n \<and> (\<forall>i < n. \<forall>j < length (maker s i).
     maker s i ! j \<le> k \<longrightarrow> (\<forall>l < length (maker s i). maker s i ! l \<le> k \<longrightarrow> l \<le> j) \<longrightarrow> cell_at i j s = finished s ! k ! i))"

text \<open>What a reader has copied is the state of write \<open>k\<close>, or the view \<open>w\<close> shows that a later write has begun.\<close>

definition copied :: "nat \<Rightarrow> 'a weak_seq \<Rightarrow> nat \<Rightarrow> nat \<Rightarrow> u64 \<Rightarrow> 'a list \<Rightarrow> lock_var view \<Rightarrow> bool" where
  "copied n s t b v acc w \<longleftrightarrow> (\<exists>k. unat v = 2 * k \<and> b \<le> k \<and> k < length (finished s) \<and> length acc \<le> n \<and> covers s k (cur (lockmem s) t) \<and>
     2 * k \<le> cur (lockmem s) t Counter \<and> (\<forall>i < length acc. acc ! i = finished s ! k ! i \<or> 2 * k < w Counter))"

fun thread_ok :: "nat \<Rightarrow> 'a weak_seq \<Rightarrow> nat \<Rightarrow> 'a vpc \<Rightarrow> bool" where
  "thread_ok n s t (V_Loaded st v) = even (unat v)"
| "thread_ok n s t (V_Swapped st v) = (unat v + 2 = 2 * length (finished s) \<and> covers s (length (finished s)) (cur (lockmem s) t) \<and>
     unat v + 1 \<le> cur (lockmem s) t Counter)"
| "thread_ok n s t (V_Writing st v) = (unat v + 2 = 2 * length (finished s) \<and> covers s (length (finished s)) (cur (lockmem s) t) \<and>
     unat v + 1 \<le> cur (lockmem s) t Counter \<and> unat v + 1 \<le> rel (lockmem s) t Counter)"
| "thread_ok n s t (V_Reader b) = (2 * b \<le> cur (lockmem s) t Counter)"
| "thread_ok n s t (V_Reading b v acc) = copied n s t b v acc (acq (lockmem s) t)"
| "thread_ok n s t (V_Checking b v acc) = (length acc = n \<and> copied n s t b v acc (cur (lockmem s) t))"
| "thread_ok n s t _ = True"

definition results_ok :: "'a weak_seq \<Rightarrow> bool" where
  "results_ok s \<longleftrightarrow> (\<forall>(b, v, xs) \<in> set (results s). \<exists>k < length (finished s). unat v = 2 * k \<and> b \<le> k \<and> xs = finished s ! k)"

definition one_writer :: "'a weak_seq \<Rightarrow> bool" where
  "one_writer s \<longleftrightarrow> (\<forall>t u. in_write (vpcs s t) \<longrightarrow> in_write (vpcs s u) \<longrightarrow> t = u)"

definition weak_seq_inv :: "nat \<Rightarrow> 'a weak_seq \<Rightarrow> bool" where
  "weak_seq_inv n s \<longleftrightarrow> views_ok (lockmem s) \<and> counter_ok s \<and> cells_ok s \<and> publish_ok s \<and> snapshot_ok n s \<and> results_ok s \<and> one_writer s \<and>
     (\<forall>t. thread_ok n s t (vpcs s t))"

lemma weak_seq_invD:
  assumes "weak_seq_inv n s"
  shows "views_ok (lockmem s)" "counter_ok s" "cells_ok s" "publish_ok s" "snapshot_ok n s" "results_ok s" "one_writer s" "thread_ok n s t (vpcs s t)"
  using assms by (simp_all add: weak_seq_inv_def)

lemma covers_mono: "covers s k w \<Longrightarrow> (\<And>i. w (Cell i) \<le> w' (Cell i)) \<Longrightarrow> covers s k w'"
  by (meson covers_def order_trans)

lemma counterD:
  assumes "counter_ok s" "j < length (msgs (lockmem s) Counter)"
  shows "counter_at j s = of_nat j" "unat (counter_at j s) = j"
proof -
  have "busy s \<le> 1" by (simp add: busy_def)
  then have "j < 2 ^ 64" using assms by (simp add: counter_ok_def)
  then show "counter_at j s = of_nat j" "unat (counter_at j s) = j" using assms by (simp_all add: counter_ok_def unat_of_nat)
qed

lemma counter_append:
  assumes "\<forall>j < length ms. fst (ms ! j) = Count (of_nat j)" "w = of_nat (length ms)"
  shows "\<forall>j < length (ms @ [(Count w, x)]). fst ((ms @ [(Count w, x)]) ! j) = Count (of_nat j)"
  using assms by (auto simp: nth_append less_Suc_eq)

lemma snapshot_okI:
  assumes "\<And>k. k < length (finished s) \<Longrightarrow> length (finished s ! k) = n"
    and "\<And>k i j. k < length (finished s) \<Longrightarrow> i < n \<Longrightarrow> j < length (maker s i) \<Longrightarrow> maker s i ! j \<le> k \<Longrightarrow>
      (\<And>l. l < length (maker s i) \<Longrightarrow> maker s i ! l \<le> k \<Longrightarrow> l \<le> j) \<Longrightarrow> cell_at i j s = finished s ! k ! i"
  shows "snapshot_ok n s"
  using assms unfolding snapshot_ok_def by blast

lemma snapshot_okD:
  assumes "snapshot_ok n s" "k < length (finished s)" "i < n" "j < length (maker s i)" "maker s i ! j \<le> k"
    and "\<And>l. l < length (maker s i) \<Longrightarrow> maker s i ! l \<le> k \<Longrightarrow> l \<le> j"
  shows "cell_at i j s = finished s ! k ! i"
  using assms unfolding snapshot_ok_def by blast

section \<open>Every step keeps it\<close>

lemma thread_ok_frame:
  assumes ok: "thread_ok n s u pc" and views: "cur (lockmem s') u = cur (lockmem s) u" "acq (lockmem s') u = acq (lockmem s) u" "rel (lockmem s') u = rel (lockmem s) u"
    and fin: "length (finished s) \<le> length (finished s')" "\<And>k. k < length (finished s) \<Longrightarrow> finished s' ! k = finished s ! k"
    and cov: "\<And>k w. k < length (finished s) \<Longrightarrow> covers s k w \<Longrightarrow> covers s' k w" and wr: "in_write pc \<Longrightarrow> finished s' = finished s \<and> maker s' = maker s"
  shows "thread_ok n s' u pc"
proof -
  have "copied n s' u b v acc w" if cp: "copied n s u b v acc w" for b v acc w
  proof -
    obtain k where k: "k < length (finished s)" and K: "unat v = 2 * k" "b \<le> k" "length acc \<le> n" "covers s k (cur (lockmem s) u)" "2 * k \<le> cur (lockmem s) u Counter"
      "\<forall>i < length acc. acc ! i = finished s ! k ! i \<or> 2 * k < w Counter" using cp unfolding copied_def by blast
    then show ?thesis using fin(1) fin(2) [OF k] cov [OF k] unfolding copied_def views by (intro exI [of _ k]) simp
  qed
  then show ?thesis using ok wr by (cases pc) (auto simp: views covers_def)
qed

text \<open>Loads, fences and the ends of calls change the views of their thread only.\<close>

lemma weak_seq_local:
  assumes inv: "weak_seq_inv n s" and pcs: "vpcs s' = (vpcs s)(t := pc)" and wr: "in_write pc = in_write (vpcs s t)"
    and same: "msgs (lockmem s') = msgs (lockmem s)" "maker s' = maker s" "finished s' = finished s"
    and views: "views_ok (lockmem s')" "\<And>u. u \<noteq> t \<Longrightarrow> cur (lockmem s') u = cur (lockmem s) u \<and> acq (lockmem s') u = acq (lockmem s) u \<and> rel (lockmem s') u = rel (lockmem s) u"
    and ok: "thread_ok n s' t pc" and res: "results_ok s'"
  shows "weak_seq_inv n s'"
proof -
  note I = weak_seq_invD [OF inv]
  have w: "in_write (vpcs s' u) = in_write (vpcs s u)" for u using wr by (simp add: pcs)
  have cov: "covers s' = covers s" by (simp add: covers_def same fun_eq_iff)
  have "thread_ok n s' u (vpcs s' u)" for u
    using ok thread_ok_frame [OF I(8) [of u], of s'] views(2) [of u] by (cases "u = t") (simp_all add: pcs same cov)
  moreover have "busy s' = busy s" by (simp add: busy_def w)
  ultimately show ?thesis using I(2-7) views(1) res
    unfolding weak_seq_inv_def counter_ok_def cells_ok_def publish_ok_def snapshot_ok_def one_writer_def by (simp add: same w cov)
qed

lemma idle_makers:
  assumes "cells_ok s" "busy s = 0" "finished s \<noteq> []" "covers s (length (finished s) - 1) w"
  shows "covers s k w"
proof -
  have "maker s i ! j \<le> length (finished s) - 1" if "j < length (maker s i)" for i j
  proof -
    have "maker s i ! j < length (finished s)" using assms(1,2) that by (simp add: cells_ok_def)
    then show ?thesis by simp
  qed
  then show ?thesis using assms(4) by (simp add: covers_def)
qed

lemma weak_seq_swap:
  assumes inv: "weak_seq_inv n s" and pc: "vpcs s t = V_Loaded st v" and v: "counter_at (length (msgs (lockmem s) Counter) - 1) s = v"
    and s': "s' = vgoto t (V_Swapped st v) (mem_at (fm_swap t Counter (Count (v + 1)) (lockmem s)) s)"
  shows "weak_seq_inv n s'"
proof -
  note I = weak_seq_invD [OF inv] and C = weak_seq_invD(2) [OF inv, unfolded counter_ok_def]
  let ?L = "length (msgs (lockmem s) Counter)"
  define m where "m = fm_swap t Counter (Count (v + 1)) (lockmem s)"
  have L: "?L + 1 = 2 * length (finished s) + busy s" "finished s \<noteq> []" "busy s \<le> 1" using C by (auto simp: busy_def)
  then have pos: "0 < ?L" by (cases "finished s") auto
  then have u: "unat v = ?L - 1" "v = of_nat (?L - 1)" using counterD [OF I(2), of "?L - 1"] v by simp_all
  have "even (?L - 1)" using I(8) [of t] u pc by simp
  then have b: "busy s = 0" using L pos by presburger
  then have lf: "?L + 1 = 2 * length (finished s)" and idle: "\<not> in_write (vpcs s x)" for x using L by (auto simp: busy_def split: if_splits)
  have f: "msgs m Counter = msgs (lockmem s) Counter @ [(Count (v + 1), cur m t)]" "\<And>i. msgs m (Cell i) = msgs (lockmem s) (Cell i)"
    "cur m t Counter = ?L" "\<And>i. snd (last (msgs (lockmem s) Counter)) (Cell i) \<le> cur m t (Cell i)"
    "\<And>x. x \<noteq> t \<Longrightarrow> cur m x = cur (lockmem s) x \<and> acq m x = acq (lockmem s) x \<and> rel m x = rel (lockmem s) x"
    using pos by (auto simp: m_def fm_defs fun_eq_iff last_conv_nth)
  have S: "lockmem s' = m" "vpcs s' = (vpcs s)(t := V_Swapped st v)" "maker s' = maker s" "finished s' = finished s" "results s' = results s"
    by (simp_all add: s' m_def vgoto_def mem_at_def)
  have cov: "covers s' = covers s" by (simp add: covers_def S fun_eq_iff)
  have B: "busy s' = 1" by (auto simp: busy_def S)
  have "v + 1 = of_nat ?L" using u(2) pos by (simp add: of_nat_diff)
  then have cnt: "counter_ok s'" using C b counter_append [of "msgs (lockmem s) Counter" "v + 1" "cur m t"] unfolding counter_ok_def S f B by simp
  have pub: "publish_ok s'" unfolding publish_ok_def
  proof (intro allI impI)
    fix k assume "2 * k < length (msgs (lockmem s') Counter)"
    moreover have "2 * k \<noteq> ?L" using lf by presburger
    ultimately have "2 * k < ?L" by (simp add: S f)
    then show "covers s' k (snd (msgs (lockmem s') Counter ! (2 * k)))" using I(4) by (simp add: publish_ok_def cov S f nth_append)
  qed
  have "?L - 1 = 2 * (length (finished s) - 1)" using lf by presburger
  then have "covers s (length (finished s) - 1) (snd (last (msgs (lockmem s) Counter)))"
    using I(4) pos unfolding publish_ok_def by (metis diff_less last_conv_nth length_greater_0_conv less_numeral_extra(1))
  then have "covers s (length (finished s)) (cur m t)" using idle_makers [OF I(3) b L(2)] f(4) covers_mono by blast
  then have "thread_ok n s' t (V_Swapped st v)" using u lf pos by (simp add: S cov f)
  then have "thread_ok n s' x (vpcs s' x)" for x
    using thread_ok_frame [OF I(8) [of x], of s'] f(5) [of x] cov by (cases "x = t") (simp_all add: S)
  moreover have "one_writer s'" using idle by (simp add: one_writer_def S)
  moreover have "cells_ok s'" using I(3) b unfolding cells_ok_def by (simp add: S f B less_SucI)
  ultimately show ?thesis using I(5,6) views_ok_swap [OF I(1), of t Counter "Count (v + 1)", folded m_def] cnt pub
    unfolding weak_seq_inv_def snapshot_ok_def results_ok_def by (simp add: S f)
qed

lemma snapshot_cell:
  assumes ok: "snapshot_ok n s" and S: "finished s' = finished s" "maker s' = (maker s)(i := maker s i @ [length (finished s)])"
    and len: "length (maker s i) = length (msgs (lockmem s) (Cell i))"
    and m: "msgs (lockmem s') (Cell i) = msgs (lockmem s) (Cell i) @ [y]" "\<And>j. j \<noteq> i \<Longrightarrow> msgs (lockmem s') (Cell j) = msgs (lockmem s) (Cell j)"
  shows "snapshot_ok n s'"
proof (rule snapshot_okI)
  fix k assume k: "k < length (finished s')"
  then show "length (finished s' ! k) = n" using ok by (simp add: snapshot_ok_def S)
  fix q j assume q: "q < n" "j < length (maker s' q)" "maker s' q ! j \<le> k" and top: "\<And>l. l < length (maker s' q) \<Longrightarrow> maker s' q ! l \<le> k \<Longrightarrow> l \<le> j"
  have k': "k < length (finished s)" using k by (simp add: S)
  have old: "l < length (maker s q) \<Longrightarrow> l < length (maker s' q) \<and> maker s' q ! l = maker s q ! l" for l by (auto simp: S nth_append)
  have j: "j < length (maker s q)" using q(2,3) k' by (auto simp: S nth_append less_Suc_eq split: if_splits)
  then have "cell_at q j s' = cell_at q j s" using len by (cases "q = i") (simp_all add: m nth_append)
  moreover have "cell_at q j s = finished s ! k ! q"
    by (rule snapshot_okD [OF ok k' q(1) j]) (use old j q(3) top in \<open>metis\<close>)+
  ultimately show "cell_at q j s' = finished s' ! k ! q" by (simp add: S)
qed

text \<open>A store to a cell. The first release fence has made the writer's view of the odd counter part of it.\<close>

lemma weak_seq_cell:
  assumes inv: "weak_seq_inv n s" and pc: "vpcs s t = V_Writing ((i, x) # st) v"
    and s': "s' = vgoto t (V_Writing st v) (mem_at (fm_store Relaxed t (Cell i) (Datum x) (lockmem s)) (s\<lparr> maker := (maker s)(i := maker s i @ [length (finished s)]) \<rparr>))"
  shows "weak_seq_inv n s'"
proof -
  note I = weak_seq_invD [OF inv]
  define m where "m = fm_store Relaxed t (Cell i) (Datum x) (lockmem s)"
  let ?n = "length (msgs (lockmem s) (Cell i))" and ?F = "length (finished s)"
  have S: "lockmem s' = m" "vpcs s' = (vpcs s)(t := V_Writing st v)" "maker s' = (maker s)(i := maker s i @ [?F])" "finished s' = finished s" "results s' = results s"
    by (simp_all add: s' m_def vgoto_def mem_at_def)
  have f: "msgs m Counter = msgs (lockmem s) Counter" "msgs m (Cell i) = msgs (lockmem s) (Cell i) @ [(Datum x, (rel (lockmem s) t)(Cell i := ?n))]"
    "\<And>j. j \<noteq> i \<Longrightarrow> msgs m (Cell j) = msgs (lockmem s) (Cell j)" "cur m t = (cur (lockmem s) t)(Cell i := ?n)" "rel m = rel (lockmem s)"
    "\<And>u. u \<noteq> t \<Longrightarrow> cur m u = cur (lockmem s) u \<and> acq m u = acq (lockmem s) u"
    by (auto simp: m_def fm_defs)
  have T: "unat v + 2 = 2 * ?F" "covers s ?F (cur (lockmem s) t)" "unat v + 1 \<le> cur (lockmem s) t Counter" "unat v + 1 \<le> rel (lockmem s) t Counter"
    using I(8) [of t] pc by simp_all
  have w: "in_write (vpcs s' u) = in_write (vpcs s u)" for u by (simp add: S pc)
  have B: "busy s' = busy s" "busy s = 1" using pc unfolding busy_def w by (auto intro: exI [of _ t])
  have len: "length (maker s i) = ?n" using I(3) by (simp add: cells_ok_def)
  have cov: "covers s' k w" if "k < ?F" "covers s k w" for k w
    using that unfolding covers_def S by (auto simp: nth_append less_Suc_eq split: if_splits)
  have "thread_ok n s' t (V_Writing st v)" using T len by (auto simp: S f covers_def nth_append less_Suc_eq split: if_splits)
  moreover have "thread_ok n s' u (vpcs s u)" if "u \<noteq> t" for u
  proof (rule thread_ok_frame [OF I(8)])
    show "in_write (vpcs s u) \<Longrightarrow> finished s' = finished s \<and> maker s' = maker s" using I(7) that pc by (auto simp: one_writer_def)
  qed (use f(5,6) that cov in \<open>simp_all add: S\<close>)
  ultimately have "thread_ok n s' u (vpcs s' u)" for u by (simp add: S)
  moreover have "counter_ok s'" using I(2) by (simp add: counter_ok_def S f B)
  moreover have "publish_ok s'"
  proof -
    have "k < ?F" if "2 * k < length (msgs (lockmem s) Counter)" for k using that I(2) B(2) by (simp add: counter_ok_def)
    then show ?thesis using I(4) cov by (simp add: publish_ok_def S f)
  qed
  moreover have "cells_ok s'"
  proof -
    have "2 * (?F - 1) + 1 \<le> rel (lockmem s) t Counter" using T(1,4) by simp
    then show ?thesis using I(3) len B unfolding cells_ok_def by (auto simp: S f nth_append less_Suc_eq)
  qed
  moreover have "snapshot_ok n s'" by (rule snapshot_cell [OF I(5) S(4,3) len]) (simp_all add: S f)
  moreover have "views_ok m" unfolding m_def by (rule views_ok_store [OF I(1)])
  moreover have "one_writer s'" "results_ok s'" using I(6,7) by (simp_all add: one_writer_def results_ok_def w) (simp_all add: S)
  ultimately show ?thesis by (simp add: weak_seq_inv_def S(1))
qed

lemma snapshot_done:
  assumes ok: "snapshot_ok n s" and S: "finished s' = finished s @ [newest n s]" "maker s' = maker s"
    and m: "\<And>i. msgs (lockmem s') (Cell i) = msgs (lockmem s) (Cell i)" "\<And>i. length (maker s i) = length (msgs (lockmem s) (Cell i))"
    and old: "\<And>i j. j < length (msgs (lockmem s) (Cell i)) \<Longrightarrow> maker s i ! j \<le> length (finished s)"
  shows "snapshot_ok n s'"
proof (rule snapshot_okI)
  fix k assume k: "k < length (finished s')"
  show "length (finished s' ! k) = n" using k ok by (auto simp: S nth_append snapshot_ok_def newest_def less_Suc_eq)
  fix i j assume i: "i < n" "j < length (maker s' i)" "maker s' i ! j \<le> k" and top: "\<And>l. l < length (maker s' i) \<Longrightarrow> maker s' i ! l \<le> k \<Longrightarrow> l \<le> j"
  show "cell_at i j s' = finished s' ! k ! i"
  proof (cases "k = length (finished s)")
    case True
    have "length (maker s i) - 1 \<le> j" using top [of "length (maker s i) - 1"] old [of "length (maker s i) - 1" i] i(2) m(2) True by (simp add: S)
    then have "j = length (msgs (lockmem s) (Cell i)) - 1" using i(2) m(2) by (simp add: S)
    then show ?thesis using True i(1) by (simp add: S m newest_def)
  next
    case False
    then have "k < length (finished s)" using k by (simp add: S)
    moreover from this have "cell_at i j s = finished s ! k ! i" by (rule snapshot_okD [OF ok]) (use i top in \<open>simp_all add: S\<close>)
    ultimately show ?thesis by (simp add: S m nth_append)
  qed
qed

text \<open>The end of a write.\<close>

lemma weak_seq_done:
  assumes inv: "weak_seq_inv n s" and pc: "vpcs s t = V_Writing [] v" and bound: "length (finished s) < 2 ^ 63"
    and s': "s' = vgoto t V_Idle (mem_at (fm_store Release t Counter (Count (v + 2)) (release_fence t (lockmem s))) (s\<lparr> finished := finished s @ [newest n s] \<rparr>))"
  shows "weak_seq_inv n s'"
proof -
  note I = weak_seq_invD [OF inv] and C = weak_seq_invD(2) [OF inv, unfolded counter_ok_def]
  define m where "m = fm_store Release t Counter (Count (v + 2)) (release_fence t (lockmem s))"
  let ?L = "length (msgs (lockmem s) Counter)" and ?F = "length (finished s)"
  have S: "lockmem s' = m" "vpcs s' = (vpcs s)(t := V_Idle)" "maker s' = maker s" "finished s' = finished s @ [newest n s]" "results s' = results s"
    by (simp_all add: s' m_def vgoto_def mem_at_def)
  have f: "msgs m Counter = msgs (lockmem s) Counter @ [(Count (v + 2), cur m t)]" "\<And>i. msgs m (Cell i) = msgs (lockmem s) (Cell i)"
    "\<And>i. cur m t (Cell i) = cur (lockmem s) t (Cell i)"
    "\<And>u. u \<noteq> t \<Longrightarrow> cur m u = cur (lockmem s) u \<and> acq m u = acq (lockmem s) u \<and> rel m u = rel (lockmem s) u"
    by (auto simp: m_def fm_defs)
  have T: "unat v + 2 = 2 * ?F" "covers s ?F (cur (lockmem s) t)" using I(8) [of t] pc by simp_all
  have lone: "\<not> in_write (vpcs s u)" if "u \<noteq> t" for u using I(7) that pc by (auto simp: one_writer_def)
  have B: "busy s = 1" "busy s' = 0" using pc lone by (auto simp: busy_def S intro: exI [of _ t])
  then have L: "?L = 2 * ?F" using C by simp
  have cov: "covers s' = covers s" by (simp add: covers_def S fun_eq_iff)
  have "v + 2 = of_nat (unat v + 2)" by simp
  then have "v + 2 = of_nat ?L" unfolding T(1) L .
  then have "counter_ok s'" using C B L bound counter_append [of "msgs (lockmem s) Counter" "v + 2" "cur m t"] unfolding counter_ok_def S f B by simp
  moreover have "publish_ok s'" unfolding publish_ok_def
  proof (intro allI impI)
    fix k assume k: "2 * k < length (msgs (lockmem s') Counter)"
    have "covers s ?F (cur m t)" using covers_mono [OF T(2)] f(3) by simp
    then show "covers s' k (snd (msgs (lockmem s') Counter ! (2 * k)))"
      using k I(4) L by (cases "k = ?F") (auto simp: publish_ok_def cov S f nth_append)
  qed
  moreover have "thread_ok n s' u (vpcs s' u)" for u
    using thread_ok_frame [OF I(8) [of u], of s'] f(4) [of u] lone [of u] cov by (cases "u = t") (simp_all add: S nth_append)
  moreover have "cells_ok s'" using I(3) B unfolding cells_ok_def by (simp add: S f)
  moreover have "views_ok m" unfolding m_def by (intro views_ok_store views_ok_fences I(1))
  moreover have "one_writer s'" using lone by (simp add: one_writer_def S)
  moreover have "results_ok s'" using I(6) unfolding results_ok_def S by (fastforce simp: nth_append)
  moreover have "snapshot_ok n s'" by (rule snapshot_done [OF I(5) S(4,3)]) (use I(3) B in \<open>simp_all add: S f cells_ok_def less_Suc_eq_le\<close>)
  ultimately show ?thesis by (simp add: weak_seq_inv_def S(1))
qed

lemmas step_frame = vgoto_def mem_at_def

lemma load_frame:
  "msgs (fm_load ord t l i m) = msgs m" "rel (fm_load ord t l i m) = rel m"
  "u \<noteq> t \<Longrightarrow> cur (fm_load ord t l i m) u = cur m u" "u \<noteq> t \<Longrightarrow> acq (fm_load ord t l i m) u = acq m u"
  "cur (fm_load Relaxed t l i m) t = (cur m t)(l := i)" "cur (fm_load Acquire t l i m) t = vjoin ((cur m t)(l := i)) (snd (msgs m l ! i))"
  "acq (fm_load ord t l i m) t = vjoin (acq m t) (vjoin ((cur m t)(l := i)) (snd (msgs m l ! i)))"
  by (simp_all add: fm_load_def Let_def)

lemma fence_frame:
  "msgs (acquire_fence t m) = msgs m" "rel (acquire_fence t m) = rel m" "acq (acquire_fence t m) = acq m" "cur (acquire_fence t m) = (cur m)(t := acq m t)"
  "msgs (release_fence t m) = msgs m" "cur (release_fence t m) = cur m" "acq (release_fence t m) = acq m" "rel (release_fence t m) = (rel m)(t := cur m t)"
  by (simp_all add: acquire_fence_def release_fence_def)

lemma weak_write:
  assumes step: "write_step n s s'" and inv: "weak_seq_inv n s" and bound: "length (finished s') \<le> 2 ^ 63"
  shows "weak_seq_inv n s'"
proof -
  note I = weak_seq_invD [OF inv] and local = weak_seq_local [OF inv]
  have res: "results_ok r" if "results r = results s" "finished r = finished s" for r using I(6) by (simp add: results_ok_def that)
  show ?thesis using step
  proof cases
    case (v_swap t st v)
    then show ?thesis by (intro weak_seq_swap [OF inv v_swap(2,3)])
  next
    case (v_cell t i x st v)
    then show ?thesis by (intro weak_seq_cell [OF inv v_cell(2)])
  next
    case (v_done t v)
    have "length (finished s) < 2 ^ 63" using bound by (simp add: v_done(1) step_frame)
    then show ?thesis by (intro weak_seq_done [OF inv v_done(2) _ v_done(1)])
  next
    case (v_fence t st v)
    have "thread_ok n s t (V_Swapped st v)" using I(8) [of t] v_fence(2) by simp
    then have "thread_ok n s' t (V_Writing st v)" by (simp add: v_fence(1) step_frame fence_frame covers_def)
    then show ?thesis by (intro local [where t = t and pc = "V_Writing st v"])
      (use v_fence(2) I(1) res in \<open>simp_all add: v_fence(1) step_frame fence_frame views_ok_fences\<close>)
  next
    case (v_write t st)
    then show ?thesis by (intro local [where t = t and pc = "V_Spin st"]) (use I(1) res in \<open>simp_all add: v_write(1) step_frame\<close>)
  next
    case (v_busy t st i)
    then show ?thesis by (intro local [where t = t and pc = "V_Spin st"])
      (use I(1) res in \<open>simp_all add: v_busy(1) step_frame load_frame views_ok_load fun_upd_idem\<close>)
  next
    case (v_loaded t st i)
    then show ?thesis by (intro local [where t = t and pc = "V_Loaded st (counter_at i s)"])
      (use I(1) res in \<open>simp_all add: v_loaded(1) step_frame load_frame views_ok_load writer_active_odd\<close>)
  next
    case (v_swap_fails t st v i)
    then show ?thesis by (intro local [where t = t and pc = "V_Spin st"])
      (use I(1) res in \<open>simp_all add: v_swap_fails(1) step_frame load_frame views_ok_load\<close>)
  qed
qed

text \<open>An even counter announces the stores of its write and of all earlier ones.\<close>

lemma begin_copy:
  assumes inv: "weak_seq_inv n s" and b: "2 * b \<le> cur (lockmem s) t Counter" and i: "visible t Counter i (lockmem s)" and even: "\<not> writer_active (counter_at i s)"
    and s': "lockmem s' = fm_load Acquire t Counter i (lockmem s)" "maker s' = maker s" "finished s' = finished s"
  shows "copied n s' t b (counter_at i s) [] w"
proof -
  note I = weak_seq_invD [OF inv]
  have i': "cur (lockmem s) t Counter \<le> i" "i < length (msgs (lockmem s) Counter)" using i by (simp_all add: visible_def)
  note val = counterD(2) [OF I(2) i'(2)]
  obtain k where k: "i = 2 * k" using even val by (auto simp: writer_active_odd elim: evenE)
  have "busy s \<le> 1" by (simp add: busy_def)
  then have "k < length (finished s)" using I(2) i'(2) k by (simp add: counter_ok_def)
  moreover have "covers s k (snd (msgs (lockmem s) Counter ! i))" using I(4) i'(2) by (simp add: publish_ok_def k)
  then have "covers s k (cur (lockmem s') t)" by (rule covers_mono) (simp add: s' load_frame)
  then have "covers s' k (cur (lockmem s') t)" by (simp add: covers_def s')
  ultimately show ?thesis using b i'(1) k val unfolding copied_def by (intro exI [of _ k]) (simp add: s' load_frame)
qed

text \<open>A cell that a later write has changed makes the reader's acquire fence show that write.\<close>

lemma go_on_copying:
  assumes inv: "weak_seq_inv n s" and cp: "copied n s t b v acc (acq (lockmem s) t)" and acc: "length acc < n" and i: "visible t (Cell (length acc)) i (lockmem s)"
    and s': "lockmem s' = fm_load Relaxed t (Cell (length acc)) i (lockmem s)" "maker s' = maker s" "finished s' = finished s"
  shows "copied n s' t b v (acc @ [cell_at (length acc) i s]) (acq (lockmem s') t)"
proof -
  note I = weak_seq_invD [OF inv]
  let ?c = "length acc"
  obtain k where k: "unat v = 2 * k" "b \<le> k" "k < length (finished s)" and cov: "covers s k (cur (lockmem s) t)" and ctr: "2 * k \<le> cur (lockmem s) t Counter"
    and old: "\<And>j. j < ?c \<Longrightarrow> acc ! j = finished s ! k ! j \<or> 2 * k < acq (lockmem s) t Counter" using cp unfolding copied_def by blast
  have i': "cur (lockmem s) t (Cell ?c) \<le> i" "i < length (maker s ?c)" using i I(3) by (simp_all add: visible_def cells_ok_def)
  have new: "cell_at ?c i s = finished s ! k ! ?c \<or> 2 * k < acq (lockmem s') t Counter"
  proof (cases "maker s ?c ! i \<le> k")
    case True
    have "l \<le> i" if "l < length (maker s ?c)" "maker s ?c ! l \<le> k" for l using cov that i'(1) unfolding covers_def by (meson order_trans)
    then show ?thesis using snapshot_okD [OF I(5) k(3) acc i'(2) True] by blast
  next
    case False
    then obtain w where w: "maker s ?c ! i = Suc w" "k \<le> w" by (cases "maker s ?c ! i") auto
    then have "2 * w + 1 \<le> snd (msgs (lockmem s) (Cell ?c) ! i) Counter" using I(3) i'(2) by (simp add: cells_ok_def)
    then show ?thesis using w(2) by (simp add: s' load_frame less_max_iff_disj)
  qed
  have le: "acq (lockmem s) t Counter \<le> acq (lockmem s') t Counter" by (simp add: s' load_frame)
  have "(acc @ [cell_at ?c i s]) ! j = finished s ! k ! j \<or> 2 * k < acq (lockmem s') t Counter" if "j < length (acc @ [cell_at ?c i s])" for j
    using that old [of j] new le by (cases "j = ?c") (auto simp: nth_append)
  moreover have "covers s' k (cur (lockmem s') t)" using covers_mono [OF cov, of "cur (lockmem s') t"] i'(1) by (simp add: covers_def s' load_frame)
  ultimately show ?thesis using k ctr acc unfolding copied_def by (intro exI [of _ k]) (simp add: s' load_frame)
qed

lemma copied_fence:
  assumes "views_ok (lockmem s)" "copied n s t b v acc (acq (lockmem s) t)" and s': "lockmem s' = acquire_fence t (lockmem s)" "maker s' = maker s" "finished s' = finished s"
  shows "copied n s' t b v acc (cur (lockmem s') t)"
proof -
  obtain k where k: "unat v = 2 * k" "b \<le> k" "k < length (finished s)" "length acc \<le> n" and cov: "covers s k (cur (lockmem s) t)" "2 * k \<le> cur (lockmem s) t Counter"
    and old: "\<And>j. j < length acc \<Longrightarrow> acc ! j = finished s ! k ! j \<or> 2 * k < acq (lockmem s) t Counter" using assms(2) unfolding copied_def by blast
  have le: "cur (lockmem s) t l \<le> acq (lockmem s) t l" for l by (rule views_okD(2) [OF assms(1)])
  have "covers s k (acq (lockmem s) t)" by (rule covers_mono [OF cov(1)]) (rule le)
  then show ?thesis using k old cov(2) le [of Counter] unfolding copied_def by (intro exI [of _ k]) (simp add: s' fence_frame covers_def)
qed

text \<open>If the counter has not changed, no such write was seen.\<close>

lemma end_copy:
  assumes inv: "weak_seq_inv n s" and cp: "copied n s t b v acc (cur (lockmem s) t)" and acc: "length acc = n" and i: "visible t Counter i (lockmem s)" and same: "counter_at i s = v"
  shows "\<exists>k < length (finished s). unat v = 2 * k \<and> b \<le> k \<and> acc = finished s ! k"
proof -
  note I = weak_seq_invD [OF inv]
  obtain k where k: "unat v = 2 * k" "b \<le> k" "k < length (finished s)"
    and old: "\<And>j. j < length acc \<Longrightarrow> acc ! j = finished s ! k ! j \<or> 2 * k < cur (lockmem s) t Counter" using cp unfolding copied_def by blast
  have "i = 2 * k" using counterD(2) [OF I(2), of i] i same k(1) by (simp add: visible_def)
  then have "cur (lockmem s) t Counter \<le> 2 * k" using i by (simp add: visible_def)
  then have "acc = finished s ! k" using old acc I(5) k(3) by (intro nth_equalityI) (auto simp: snapshot_ok_def)
  then show ?thesis using k by blast
qed

lemma weak_read:
  assumes step: "read_step n s s'" and inv: "weak_seq_inv n s"
  shows "weak_seq_inv n s'"
proof -
  note I = weak_seq_invD [OF inv] and local = weak_seq_local [OF inv]
  have res: "results_ok r" if "results r = results s" "finished r = finished s" for r using I(6) by (simp add: results_ok_def that)
  show ?thesis using step
  proof cases
    case (v_read t)
    then show ?thesis by (intro local [where t = t and pc = "V_Reader (cur (lockmem s) t Counter div 2)"]) (use I(1) res in \<open>simp_all add: v_read(1) step_frame\<close>)
  next
    case (v_odd t b i)
    have "2 * b \<le> cur (lockmem s) t Counter" using I(8) [of t] v_odd(2) by simp
    then have "thread_ok n s' t (V_Reader b)" using v_odd(3) by (simp add: v_odd(1) step_frame load_frame visible_def le_max_iff_disj)
    then show ?thesis by (intro local [where t = t and pc = "V_Reader b"])
      (use v_odd I(1) res in \<open>simp_all add: v_odd(1) step_frame load_frame views_ok_load fun_upd_idem\<close>)
  next
    case (v_even t b i)
    have "2 * b \<le> cur (lockmem s) t Counter" using I(8) [of t] v_even(2) by simp
    then have "thread_ok n s' t (V_Reading b (counter_at i s) [])" using begin_copy [OF inv _ v_even(3,4), of b s'] by (simp add: v_even(1) step_frame)
    then show ?thesis by (intro local [where t = t and pc = "V_Reading b (counter_at i s) []"])
      (use v_even I(1) res in \<open>simp_all add: v_even(1) step_frame load_frame views_ok_load\<close>)
  next
    case (v_copy t b v acc i)
    have "copied n s t b v acc (acq (lockmem s) t)" using I(8) [of t] v_copy(2) by simp
    then have "thread_ok n s' t (V_Reading b v (acc @ [cell_at (length acc) i s]))" using go_on_copying [OF inv _ v_copy(3,4), of b v s'] by (simp add: v_copy(1) step_frame)
    then show ?thesis by (intro local [where t = t and pc = "V_Reading b v (acc @ [cell_at (length acc) i s])"])
      (use v_copy I(1) res in \<open>simp_all add: v_copy(1) step_frame load_frame views_ok_load\<close>)
  next
    case (v_copied t b v acc)
    have "copied n s t b v acc (acq (lockmem s) t)" using I(8) [of t] v_copied(2) by simp
    then have "thread_ok n s' t (V_Checking b v acc)" using copied_fence [OF I(1), of n t b v acc s'] v_copied(3) by (simp add: v_copied(1) step_frame)
    then show ?thesis by (intro local [where t = t and pc = "V_Checking b v acc"])
      (use v_copied I(1) res in \<open>simp_all add: v_copied(1) step_frame fence_frame views_ok_fences\<close>)
  next
    case (v_return t b v acc i)
    have "length acc = n" "copied n s t b v acc (cur (lockmem s) t)" using I(8) [of t] v_return(2) by simp_all
    then have "\<exists>k < length (finished s). unat v = 2 * k \<and> b \<le> k \<and> acc = finished s ! k" using end_copy [OF inv _ _ v_return(3,4)] by blast
    then have "results_ok s'" using I(6) by (auto simp: v_return(1) step_frame results_ok_def)
    then show ?thesis by (intro local [where t = t and pc = V_Idle])
      (use v_return I(1) in \<open>simp_all add: v_return(1) step_frame load_frame views_ok_load\<close>)
  next
    case (v_retry t b v acc i)
    have "copied n s t b v acc (cur (lockmem s) t)" using I(8) [of t] v_retry(2) by simp
    then have "2 * b \<le> cur (lockmem s) t Counter" unfolding copied_def by (meson mult_le_mono2 order_trans)
    then have "thread_ok n s' t (V_Reader b)" using v_retry(3) by (simp add: v_retry(1) step_frame load_frame visible_def)
    then show ?thesis by (intro local [where t = t and pc = "V_Reader b"])
      (use v_retry I(1) res in \<open>simp_all add: v_retry(1) step_frame load_frame views_ok_load\<close>)
  qed
qed

lemma weak_seq_start: "weak_seq_init n d s \<Longrightarrow> weak_seq_inv n s"
  unfolding weak_seq_inv_def weak_seq_init_def
  by (simp add: views_ok_new counter_ok_def cells_ok_def publish_ok_def snapshot_ok_def results_ok_def one_writer_def covers_def busy_def) (simp add: fm_new_def)

interpretation weak_seq_run: inductive_invariant "weak_seq_init n d" "weak_seq_step n" "weak_seq_inv n" for n d
  by unfold_locales (auto simp: weak_seq_step_def intro: weak_seq_start weak_write weak_read)

section \<open>Properties\<close>

text \<open>
  C14. The fences and memory orders of the lock are enough. Any number of readers and writers, in any interleaving and with loads that return any store the fences leave visible, as long as fewer than \<open>2 ^ 63\<close> writes are made:
  every value that \<^verbatim>\<open>Seqlock::read\<close> returned is the complete state left by one finished write, and not an older one than the thread knew when it called \<^verbatim>\<open>read\<close>; two writers are never inside together; and a writer in its callback
  has seen the latest store to every cell and to the counter. The callbacks access the data by relaxed atomics.
\<close>

theorem seqlock_fences_suffice:
  assumes "reach (weak_seq_init n d) (weak_seq_step n) s"
  shows "(\<forall>(b, v, xs) \<in> set (results s). \<exists>k < length (finished s). unat v = 2 * k \<and> b \<le> k \<and> xs = finished s ! k) \<and>
    (\<forall>t u. in_write (vpcs s t) \<and> in_write (vpcs s u) \<longrightarrow> t = u) \<and>
    (\<forall>t st v l. vpcs s t = V_Writing st v \<longrightarrow> Suc (cur (lockmem s) t l) = length (msgs (lockmem s) l))"
proof -
  have inv: "weak_seq_inv n s" using assms by (rule weak_seq_run.reach_inv)
  note I = weak_seq_invD [OF inv]
  have "Suc (cur (lockmem s) t l) = length (msgs (lockmem s) l)" if pc: "vpcs s t = V_Writing st v" for t st v l
  proof -
    have T: "unat v + 2 = 2 * length (finished s)" "covers s (length (finished s)) (cur (lockmem s) t)" "unat v + 1 \<le> cur (lockmem s) t Counter"
      using I(8) [of t] pc by simp_all
    have b: "busy s = 1" using pc by (auto simp: busy_def intro: exI [of _ t])
    have lt: "cur (lockmem s) t l < length (msgs (lockmem s) l)" by (rule views_okD(3) [OF I(1)])
    have "length (msgs (lockmem s) l) - 1 \<le> cur (lockmem s) t l"
    proof (cases l)
      case Counter
      then show ?thesis using T(1,3) b I(2) by (simp add: counter_ok_def)
    next
      case (Cell i)
      have "length (maker s i) = length (msgs (lockmem s) l)" "\<And>j. j < length (maker s i) \<Longrightarrow> maker s i ! j \<le> length (finished s)"
        using I(3) b by (simp_all add: cells_ok_def Cell less_Suc_eq_le)
      then show ?thesis using T(2) lt unfolding covers_def Cell by (metis Suc_diff_1 gr_implies_not0 lessI not_gr_zero)
    qed
    then show ?thesis using lt by linarith
  qed
  then show ?thesis using I(6,7) unfolding results_ok_def one_writer_def by blast
qed

text \<open>A thread reads a cell that holds 7.\<close>

lemma weak_seq_first_read:
  "\<exists>s :: nat weak_seq. reach (weak_seq_init 1 (\<lambda>i. 7)) (weak_seq_step 1) s \<and> results s = [(0, 0, [7])]"
proof -
  let ?R = "reach (weak_seq_init 1 (\<lambda>i. 7)) (weak_seq_step 1)"
  define s0 :: "nat weak_seq" where "s0 = \<lparr> lockmem = fm_new (start_value (\<lambda>i. 7)), vpcs = (\<lambda>t. V_Idle), maker = (\<lambda>i. [0]), finished = [[7]], results = [] \<rparr>"
  define s1 where "s1 = vgoto 0 (V_Reader (cur (lockmem s0) 0 Counter div 2)) s0"
  define s2 where "s2 = vgoto 0 (V_Reading 0 (counter_at 0 s1) []) (mem_at (fm_load Acquire 0 Counter 0 (lockmem s1)) s1)"
  define s3 where "s3 = vgoto 0 (V_Reading 0 0 ([] @ [cell_at (length ([] :: nat list)) 0 s2])) (mem_at (fm_load Relaxed 0 (Cell (length ([] :: nat list))) 0 (lockmem s2)) s2)"
  define s4 where "s4 = vgoto 0 (V_Checking 0 0 [7]) (mem_at (acquire_fence 0 (lockmem s3)) s3)"
  define s5 where "s5 = vgoto 0 V_Idle (mem_at (fm_load Relaxed 0 Counter 0 (lockmem s4)) (s4\<lparr> results := results s4 @ [(0, 0, [7])] \<rparr>))"
  note ev = s0_def s1_def s2_def s3_def s4_def step_frame fm_new_def fm_load_def acquire_fence_def visible_def Let_def vjoin_def
  have go: "?R s'" if "?R s" "read_step 1 s s'" "finished s' = [[7]]" for s s' :: "nat weak_seq"
    using that by (auto intro: reach_step simp: weak_seq_step_def)
  have "?R s0" by (rule reach_init) (simp add: weak_seq_init_def s0_def)
  moreover have "read_step 1 s0 s1" unfolding s1_def by (rule v_read) (simp add: s0_def)
  moreover have "read_step 1 s1 s2" unfolding s2_def by (rule v_even) (simp_all add: ev writer_active_def)
  moreover have "read_step 1 s2 s3" unfolding s3_def by (rule v_copy) (simp_all add: ev)
  moreover have "read_step 1 s3 s4" unfolding s4_def by (rule v_copied) (simp_all add: ev)
  moreover have "read_step 1 s4 s5" unfolding s5_def by (rule v_return) (simp_all add: ev)
  moreover have "finished s1 = [[7]]" "finished s2 = [[7]]" "finished s3 = [[7]]" "finished s4 = [[7]]" "finished s5 = [[7]]" by (simp_all add: ev s5_def)
  ultimately have "?R s5" using go by meson
  then show ?thesis by (intro exI [of _ s5]) (simp add: ev s5_def)
qed

theorem seqlock_fences_suffice_witness:
  "\<exists>s :: nat weak_seq. reach (weak_seq_init 1 (\<lambda>i. 7)) (weak_seq_step 1) s \<and> results s = [(0, 0, [7])] \<and> (\<exists>k < length (finished s). [7] = finished s ! k)"
proof -
  obtain s :: "nat weak_seq" where s: "reach (weak_seq_init 1 (\<lambda>i. 7)) (weak_seq_step 1) s" "results s = [(0, 0, [7])]" using weak_seq_first_read by blast
  then have "\<exists>k < length (finished s). [7] = finished s ! k" using seqlock_fences_suffice [OF s(1)] by auto
  then show ?thesis using s by blast
qed

end
