(* ===== verification/Slab.thy ===== *)
theory Slab
  imports Prelude
begin

text \<open>
  \<^verbatim>\<open>memory/slab.hpp\<close>: objects of one type in chunks of slots, free slots chained through their own
  storage. A slot address is the number of its chunk and its index in it; chunks are never
  released while the allocator lives, so addresses stay valid.
\<close>

section \<open>The member functions\<close>

type_synonym slot_ptr = "nat \<times> nat"

datatype 'a Slot = Storage 'a | Next_Free "slot_ptr option"

record 'a SlabAllocator =
  chunks :: "'a Slot list list"
  free_list_head :: "slot_ptr option"

definition slab_new :: "'a SlabAllocator" where
  "slab_new = \<lparr> chunks = [], free_list_head = None \<rparr>"

definition read_slot :: "'a SlabAllocator \<Rightarrow> slot_ptr \<Rightarrow> 'a Slot option" where
  "read_slot s = (\<lambda>(c, i).
     if c < length (chunks s) \<and> i < length (chunks s ! c) then Some (chunks s ! c ! i) else None)"

definition write_slot :: "slot_ptr \<Rightarrow> 'a Slot \<Rightarrow> 'a SlabAllocator \<Rightarrow> 'a SlabAllocator" where
  "write_slot = (\<lambda>(c, i) v s. s\<lparr> chunks := (chunks s)[c := (chunks s ! c)[i := v]] \<rparr>)"

text \<open>
  The chunk being filled is not yet in \<^verbatim>\<open>chunks_\<close>; its slots get the addresses it will have there.
\<close>

fun chain_slots :: "nat \<Rightarrow> nat \<Rightarrow> nat \<Rightarrow> slot_ptr option \<Rightarrow> 'a Slot list \<times> slot_ptr option" where
  "chain_slots 0 c i head = ([], head)"
| "chain_slots (Suc n) c i head =
     (let (rest, head') = chain_slots n c (Suc i) (Some (c, i)) in (Next_Free head # rest, head'))"

definition allocate_chunk :: "nat \<Rightarrow> 'a SlabAllocator \<Rightarrow> 'a SlabAllocator" where
  "allocate_chunk ChunkObjects s =
     (let (slots, head) = chain_slots ChunkObjects (length (chunks s)) 0 (free_list_head s) in
      s\<lparr> chunks := chunks s @ [slots], free_list_head := head \<rparr>)"

text \<open>\<open>None\<close> is the dereference of a null or foreign slot pointer.\<close>

definition slab_allocate :: "nat \<Rightarrow> 'a \<Rightarrow> 'a SlabAllocator \<Rightarrow> (slot_ptr \<times> 'a SlabAllocator) option" where
  "slab_allocate ChunkObjects x s0 =
     (let s = (if free_list_head s0 = None then allocate_chunk ChunkObjects s0 else s0) in
      case free_list_head s of
        None \<Rightarrow> None
      | Some slot \<Rightarrow>
          (case read_slot s slot of
             Some (Next_Free next) \<Rightarrow>
               Some (slot, write_slot slot (Storage x) (s\<lparr> free_list_head := next \<rparr>))
           | _ \<Rightarrow> None))"

text \<open>Running the destructor on storage that holds no object is the error case.\<close>

definition slab_deallocate :: "slot_ptr option \<Rightarrow> 'a SlabAllocator \<Rightarrow> 'a SlabAllocator option" where
  "slab_deallocate ptr s =
     (case ptr of
        None \<Rightarrow> Some s
      | Some slot \<Rightarrow>
          (case read_slot s slot of
             Some (Storage x) \<Rightarrow>
               Some ((write_slot slot (Next_Free (free_list_head s)) s)\<lparr> free_list_head := Some slot \<rparr>)
           | _ \<Rightarrow> None))"

text \<open>
  The defaulted move constructor and assignment, as the pair of the target and what is left of the source: the vector of chunks is emptied, the plain pointer is copied.
\<close>

definition slab_move :: "'a SlabAllocator \<Rightarrow> 'a SlabAllocator \<times> 'a SlabAllocator" where
  "slab_move s = (s, s\<lparr> chunks := [] \<rparr>)"

section \<open>The contract of an object pool\<close>

text \<open>
  The pool hands out an address that holds no object, and every object stays where it was
  constructed, unchanged, until it is deallocated.
\<close>

text \<open>A client that allocates several objects in a row.\<close>

fun alloc_list :: "('a \<Rightarrow> 's \<Rightarrow> ('p \<times> 's) option) \<Rightarrow> 'a list \<Rightarrow> 's \<Rightarrow> ('p list \<times> 's) option" where
  "alloc_list alloc [] s = Some ([], s)"
| "alloc_list alloc (x # xs) s = Option.bind (alloc x s) (\<lambda>(p, s').
     map_option (\<lambda>(ps, s''). (p # ps, s'')) (alloc_list alloc xs s'))"

locale object_pool =
  fixes inv :: "'s \<Rightarrow> bool"
    and objects :: "'s \<Rightarrow> 'p \<rightharpoonup> 'a"
    and alloc :: "'a \<Rightarrow> 's \<Rightarrow> ('p \<times> 's) option"
    and dealloc :: "'p option \<Rightarrow> 's \<Rightarrow> 's option"
  assumes alloc_spec: "inv s \<Longrightarrow> \<exists>p s'. alloc x s = Some (p, s') \<and> inv s' \<and>
      objects s p = None \<and> objects s' = (objects s)(p \<mapsto> x)"
    and dealloc_spec: "inv s \<Longrightarrow> objects s p \<noteq> None \<Longrightarrow>
      \<exists>s'. dealloc (Some p) s = Some s' \<and> inv s' \<and> objects s' = (objects s)(p := None)"
    and dealloc_null: "dealloc None s = Some s"
begin

lemma alloc_list_ok:
  "inv s \<Longrightarrow> \<exists>ps s'. alloc_list alloc xs s = Some (ps, s') \<and> inv s' \<and> length ps = length xs \<and>
    distinct ps \<and> set ps \<inter> dom (objects s) = {} \<and> map (objects s') ps = map Some xs \<and>
    (\<forall>p. p \<notin> set ps \<longrightarrow> objects s' p = objects s p)"
proof (induction xs arbitrary: s)
  case (Cons x xs)
  from alloc_spec [OF Cons.prems, of x] obtain p s1 where s1: "alloc x s = Some (p, s1)" "inv s1"
    "objects s p = None" "objects s1 = (objects s)(p \<mapsto> x)" by blast
  from Cons.IH [OF s1(2)] obtain ps s2 where s2: "alloc_list alloc xs s1 = Some (ps, s2)" "inv s2"
    "length ps = length xs" "distinct ps" "set ps \<inter> dom (objects s1) = {}" "map (objects s2) ps = map Some xs"
    "\<forall>q. q \<notin> set ps \<longrightarrow> objects s2 q = objects s1 q" by blast
  have "p \<notin> set ps" using s2(5) s1(4) by auto
  then show ?case
    using s1 s2 by (intro exI [of _ "p # ps"] exI [of _ s2]) (auto simp: fun_upd_def)
qed simp

end

section \<open>The free list\<close>

fun free_path :: "'a SlabAllocator \<Rightarrow> slot_ptr option \<Rightarrow> slot_ptr list \<Rightarrow> bool" where
  "free_path s p [] \<longleftrightarrow> p = None"
| "free_path s p (q # qs) \<longleftrightarrow> p = Some q \<and> (\<exists>n. read_slot s q = Some (Next_Free n) \<and> free_path s n qs)"

definition is_free :: "'a SlabAllocator \<Rightarrow> slot_ptr \<Rightarrow> bool" where
  "is_free s q \<longleftrightarrow> (\<exists>n. read_slot s q = Some (Next_Free n))"

definition slab_inv :: "'a SlabAllocator \<Rightarrow> bool" where
  "slab_inv s \<longleftrightarrow> (\<exists>ps. free_path s (free_list_head s) ps \<and> distinct ps \<and> set ps = {q. is_free s q})"

definition slab_objects :: "'a SlabAllocator \<Rightarrow> slot_ptr \<rightharpoonup> 'a" where
  "slab_objects s p = (case read_slot s p of Some (Storage x) \<Rightarrow> Some x | _ \<Rightarrow> None)"

lemma read_slot_head [simp]: "read_slot (s\<lparr> free_list_head := h \<rparr>) = read_slot s"
  by (simp add: read_slot_def fun_eq_iff)

lemma read_write_slot:
  "read_slot s p \<noteq> None \<Longrightarrow> read_slot (write_slot p v s) q = (if q = p then Some v else read_slot s q)"
  by (cases p, cases q) (auto simp: read_slot_def write_slot_def nth_list_update split: if_splits)

lemma free_list_head_write [simp]: "free_list_head (write_slot p v s) = free_list_head s"
  by (cases p) (simp add: write_slot_def)

lemma length_chunks_write [simp]: "length (chunks (write_slot p v s)) = length (chunks s)"
  by (cases p) (simp add: write_slot_def)

lemma free_path_cong:
  "(\<And>q. q \<in> set ps \<Longrightarrow> read_slot s' q = read_slot s q) \<Longrightarrow> free_path s' p ps = free_path s p ps"
  by (induction ps arbitrary: p) auto

lemma chain_slots_path:
  assumes "chain_slots n c i head = (xs, head')"
  shows "length xs = n \<and> (\<forall>k < n. \<exists>m. xs ! k = Next_Free m) \<and>
    ((\<forall>k < n. read_slot s (c, i + k) = Some (xs ! k)) \<longrightarrow> free_path s head ps \<longrightarrow>
      free_path s head' (rev (map (Pair c) [i..<i + n]) @ ps))"
  using assms
proof (induction n arbitrary: i head xs ps)
  case (Suc n)
  obtain ys where ys: "chain_slots n c (Suc i) (Some (c, i)) = (ys, head')" "xs = Next_Free head # ys"
    using Suc.prems by (auto simp: Let_def split: prod.splits)
  note IH = Suc.IH [OF ys(1), of "(c, i) # ps"]
  have "free_path s head' (rev (map (Pair c) [i..<i + Suc n]) @ ps)"
    if rd: "\<forall>k < Suc n. read_slot s (c, i + k) = Some (xs ! k)" and p: "free_path s head ps"
  proof -
    have "read_slot s (c, i) = Some (Next_Free head)" using rd [rule_format, of 0] ys(2) by simp
    moreover have "\<forall>k < n. read_slot s (c, Suc i + k) = Some (ys ! k)"
      using rd ys(2) by (auto dest: spec [where x = "Suc k" for k])
    ultimately have "free_path s head' (rev (map (Pair c) [Suc i..<Suc i + n]) @ (c, i) # ps)"
      using IH p by simp
    moreover have "[i..<i + Suc n] = i # [Suc i..<Suc i + n]" by (simp add: upt_conv_Cons del: upt_Suc)
    ultimately show ?thesis by (simp del: upt_Suc)
  qed
  moreover have "\<forall>k < Suc n. \<exists>m. xs ! k = Next_Free m" using IH ys(2) by (auto simp: less_Suc_eq_0_disj)
  ultimately show ?case using IH ys(2) by simp
qed simp

lemma allocate_chunk_ok:
  fixes s :: "'a SlabAllocator"
  assumes inv: "slab_inv s" and empty: "free_list_head s = None"
  shows "slab_inv (allocate_chunk n s)" "slab_objects (allocate_chunk n s) = slab_objects s"
    "0 < n \<Longrightarrow> free_list_head (allocate_chunk n s) \<noteq> None"
proof -
  let ?c = "length (chunks s)"
  obtain xs :: "'a Slot list" and h where ch: "chain_slots n ?c 0 None = (xs, h)" by fastforce
  let ?s = "allocate_chunk n s"
  have s': "?s = s\<lparr> chunks := chunks s @ [xs], free_list_head := h \<rparr>"
    using ch empty by (simp add: allocate_chunk_def)
  note path = chain_slots_path [OF ch, of ?s "[]"]
  have rd: "read_slot ?s q = (if fst q = ?c \<and> snd q < n then Some (xs ! snd q) else read_slot s q)" for q
    using path by (cases q) (auto simp: s' read_slot_def nth_append)
  have old: "read_slot s q = None" if "fst q = ?c" for q using that by (cases q) (simp add: read_slot_def)
  have free: "is_free ?s q \<longleftrightarrow> is_free s q \<or> (fst q = ?c \<and> snd q < n)" for q
    using path old [of q] by (auto simp: is_free_def rd)
  from inv empty obtain ps where ps: "free_path s None ps" "set ps = {q. is_free s q}" by (auto simp: slab_inv_def)
  then have "ps = []" by (cases ps) auto
  with ps(2) have none: "\<not> is_free s q" for q by (cases q) auto
  let ?ps = "rev (map (Pair ?c) [0..<n])"
  have "free_path ?s (free_list_head ?s) ?ps" using path by (simp add: rd) (simp add: s')
  moreover have "distinct ?ps" by (simp add: distinct_map inj_on_def)
  moreover have "set ?ps = {q. is_free ?s q}" using none by (auto simp: free)
  ultimately show "slab_inv ?s" unfolding slab_inv_def by blast
  show "slab_objects ?s = slab_objects s"
    using path old by (auto simp: slab_objects_def rd fun_eq_iff split: option.splits Slot.splits)
  show "free_list_head ?s \<noteq> None" if "0 < n"
    using \<open>free_path ?s (free_list_head ?s) ?ps\<close> that by (cases ?ps) auto
qed

lemma slab_allocate_ok:
  assumes inv: "slab_inv s" and n: "0 < n"
  shows "\<exists>p s'. slab_allocate n x s = Some (p, s') \<and> slab_inv s' \<and> slab_objects s p = None \<and>
    slab_objects s' = (slab_objects s)(p \<mapsto> x)"
proof -
  define u where "u = (if free_list_head s = None then allocate_chunk n s else s)"
  have u: "slab_inv u" "slab_objects u = slab_objects s" "free_list_head u \<noteq> None"
    using allocate_chunk_ok [OF inv] inv n by (auto simp: u_def)
  from u(1,3) obtain p ps where "free_path u (free_list_head u) (p # ps)" "distinct (p # ps)"
    "set (p # ps) = {q. is_free u q}" unfolding slab_inv_def by (metis free_path.simps(1) neq_Nil_conv)
  then obtain m where p: "free_list_head u = Some p" "read_slot u p = Some (Next_Free m)"
    and rest: "free_path u m ps" "p \<notin> set ps" "distinct ps" "insert p (set ps) = {q. is_free u q}" by auto
  let ?s = "write_slot p (Storage x) (u\<lparr> free_list_head := m \<rparr>)"
  have rd: "read_slot ?s q = (if q = p then Some (Storage x) else read_slot u q)" for q
    using read_write_slot [of "u\<lparr> free_list_head := m \<rparr>" p] p(2) by simp
  have "slab_allocate n x s = Some (p, ?s)"
    using p by (simp add: slab_allocate_def Let_def flip: u_def)
  moreover have "slab_inv ?s"
  proof -
    have "free_path ?s m ps"
    proof -
      have "read_slot ?s q = read_slot u q" if "q \<in> set ps" for q using that rest(2) rd [of q] by auto
      then show ?thesis using rest(1) free_path_cong by blast
    qed
    moreover have "set ps = {q. is_free ?s q}"
      using rest(2,4) by (auto simp: is_free_def rd set_eq_iff)
    ultimately show ?thesis using rest(3) by (auto simp: slab_inv_def)
  qed
  moreover have "slab_objects s p = None" using p(2) by (simp add: slab_objects_def flip: u(2))
  moreover have "slab_objects ?s = (slab_objects s)(p \<mapsto> x)"
    unfolding u(2) [symmetric] by (simp add: slab_objects_def rd fun_eq_iff)
  ultimately show ?thesis by blast
qed

lemma slab_deallocate_ok:
  assumes inv: "slab_inv s" and live: "slab_objects s p \<noteq> None"
  shows "\<exists>s'. slab_deallocate (Some p) s = Some s' \<and> slab_inv s' \<and> slab_objects s' = (slab_objects s)(p := None)"
proof -
  from live obtain x where x: "read_slot s p = Some (Storage x)"
    by (auto simp: slab_objects_def split: option.splits Slot.splits)
  let ?s = "(write_slot p (Next_Free (free_list_head s)) s)\<lparr> free_list_head := Some p \<rparr>"
  have rd: "read_slot (write_slot p (Next_Free (free_list_head s)) s) q =
      (if q = p then Some (Next_Free (free_list_head s)) else read_slot s q)" for q
    using read_write_slot [of s p] x by simp
  from inv obtain ps where ps: "free_path s (free_list_head s) ps" "distinct ps" "set ps = {q. is_free s q}"
    by (auto simp: slab_inv_def)
  have "p \<notin> set ps" using ps(3) x by (auto simp: is_free_def)
  then have "read_slot ?s q = read_slot s q" if "q \<in> set ps" for q using that rd [of q] by auto
  then have "free_path ?s (free_list_head s) ps" using ps(1) free_path_cong by blast
  then have "free_path ?s (free_list_head ?s) (p # ps)" using rd [of p] by simp
  moreover have "set (p # ps) = {q. is_free ?s q}" using ps(3) by (auto simp: is_free_def rd)
  ultimately have "slab_inv ?s" using ps(2) \<open>p \<notin> set ps\<close> unfolding slab_inv_def by (intro exI [of _ "p # ps"]) simp
  moreover have "slab_objects ?s = (slab_objects s)(p := None)" by (simp add: slab_objects_def rd fun_eq_iff)
  moreover have "slab_deallocate (Some p) s = Some ?s" by (simp add: slab_deallocate_def x)
  ultimately show ?thesis by blast
qed

interpretation slab: object_pool slab_inv slab_objects "slab_allocate (Suc n)" slab_deallocate for n
  by unfold_locales (rule slab_allocate_ok slab_deallocate_ok, simp_all add: slab_deallocate_ok slab_deallocate_def [of None])

section \<open>Correctness of the pool\<close>

text \<open>
  C32. On every reachable allocator a run of \<^verbatim>\<open>SlabAllocator::allocate\<close> calls succeeds and returns pairwise
  different addresses, none of them in use; each new object is stored at its address and no object
  that was live is touched.
\<close>

theorem slab_allocate_many:
  assumes "slab_inv s"
  shows "\<exists>ps s'. alloc_list (slab_allocate (Suc n)) xs s = Some (ps, s') \<and> slab_inv s' \<and> length ps = length xs \<and>
    distinct ps \<and> set ps \<inter> dom (slab_objects s) = {} \<and> map (slab_objects s') ps = map Some xs \<and>
    (\<forall>p. p \<notin> set ps \<longrightarrow> slab_objects s' p = slab_objects s p)"
  using assms by (rule slab.alloc_list_ok)

lemma slab_new_inv: "slab_inv slab_new"
  by (auto simp: slab_inv_def slab_new_def is_free_def read_slot_def intro!: exI [of _ "[]"])

theorem slab_allocate_many_witness:
  "\<exists>ps s'. alloc_list (slab_allocate (Suc 1)) [10, 20, 30::nat] slab_new = Some (ps, s') \<and> distinct ps \<and> length ps = 3"
  using slab_allocate_many [OF slab_new_inv, of 1 "[10, 20, 30::nat]"] by auto

text \<open>
  \<^verbatim>\<open>deallocate\<close> of a live object frees exactly that object, and the next allocation reuses its slot
  without asking for a new chunk.
\<close>

theorem slab_reuse:
  assumes "slab_inv s" and "slab_objects s p \<noteq> None"
  shows "\<exists>s' s''. slab_deallocate (Some p) s = Some s' \<and> slab_inv s' \<and>
    slab_objects s' = (slab_objects s)(p := None) \<and>
    slab_allocate (Suc n) x s' = Some (p, s'') \<and> length (chunks s'') = length (chunks s)"
proof -
  from assms(2) obtain y where y: "read_slot s p = Some (Storage y)"
    by (auto simp: slab_objects_def split: option.splits Slot.splits)
  from slab_deallocate_ok [OF assms] obtain s' where s': "slab_deallocate (Some p) s = Some s'" "slab_inv s'"
    "slab_objects s' = (slab_objects s)(p := None)" by blast
  then have eq: "s' = (write_slot p (Next_Free (free_list_head s)) s)\<lparr> free_list_head := Some p \<rparr>"
    by (simp add: slab_deallocate_def y)
  then have head: "free_list_head s' = Some p" by simp
  from slab_allocate_ok [OF s'(2), of "Suc n" x] obtain q s'' where
    q: "slab_allocate (Suc n) x s' = Some (q, s'')" by blast
  then have "q = p" "length (chunks s'') = length (chunks s')"
    using head by (auto simp: slab_allocate_def split: option.splits Slot.splits)
  with s' q eq show ?thesis by auto
qed

lemma slab_live_witness:
  "slab_inv \<lparr> chunks = [[Storage (7::nat)]], free_list_head = None \<rparr> \<and>
   slab_objects \<lparr> chunks = [[Storage (7::nat)]], free_list_head = None \<rparr> (0, 0) = Some 7"
proof -
  have "\<not> is_free \<lparr> chunks = [[Storage (7::nat)]], free_list_head = None \<rparr> q" for q
    by (cases q) (auto simp: is_free_def read_slot_def)
  then show ?thesis by (auto simp: slab_inv_def slab_objects_def read_slot_def intro!: exI [of _ "[]"])
qed

theorem slab_reuse_witness:
  "\<exists>s' s''. slab_deallocate (Some (0, 0)) \<lparr> chunks = [[Storage (7::nat)]], free_list_head = None \<rparr> = Some s' \<and>
     slab_allocate (Suc 0) 9 s' = Some ((0, 0), s'') \<and> length (chunks s'') = 1"
  using slab_reuse [of "\<lparr> chunks = [[Storage (7::nat)]], free_list_head = None \<rparr>" "(0, 0)" 0 9] slab_live_witness
  by auto

text \<open>
  Moving an allocator keeps its objects at their addresses, but leaves the source with a free list whose slots belong to the target: the next
  allocation there goes through a foreign pointer, unless the free list was empty.
\<close>

lemma slab_move_target:
  "slab_inv s \<Longrightarrow> slab_inv (fst (slab_move s)) \<and> slab_objects (fst (slab_move s)) = slab_objects s"
  by (simp add: slab_move_def)

lemma slab_moved_from:
  "free_list_head s = Some p \<Longrightarrow> slab_allocate n x (snd (slab_move s)) = None"
  "free_list_head s = None \<Longrightarrow> slab_inv (snd (slab_move s))"
proof -
  show "slab_allocate n x (snd (slab_move s)) = None" if "free_list_head s = Some p"
    using that by (simp add: slab_move_def slab_allocate_def read_slot_def case_prod_beta)
  show "slab_inv (snd (slab_move s))" if "free_list_head s = None"
  proof -
    have "snd (slab_move s) = slab_new" using that by (cases s) (simp add: slab_move_def slab_new_def)
    then show ?thesis using slab_new_inv by simp
  qed
qed

end
