(* ===== verification/Arena.thy ===== *)
theory Arena
  imports Prelude
begin

text \<open>
  \<^verbatim>\<open>memory/arena.hpp\<close> and \<^verbatim>\<open>.cpp\<close>: a bump allocator over a chain of malloc'd blocks. Addresses are
  64-bit words, 0 is the null pointer, and the block headers the arena owns are a partial map from
  addresses. \<^verbatim>\<open>std::malloc\<close> is a parameter: the address it returns for a size, given the blocks in
  use. A failed \<^verbatim>\<open>assert\<close> and the \<^verbatim>\<open>std::abort\<close> on exhausted memory are outcomes.
\<close>

section \<open>The member functions\<close>

record Block =
  next_block :: size_t
  block_bytes :: size_t
  used :: size_t

record ArenaAllocator =
  current_ptr :: size_t
  end_ptr :: size_t
  head :: size_t
  first_block :: size_t
  block_size :: size_t
  total_allocated :: size_t
  blocks :: "size_t \<rightharpoonup> Block"

datatype 'a outcome = Returned 'a | Assertion_Failed | Aborted

definition DEFAULT_BLOCK_SIZE :: size_t where "DEFAULT_BLOCK_SIZE = 2 * 1024 * 1024"

text \<open>\<^verbatim>\<open>data\<close> follows three words and the padding to its 16-byte alignment; the struct is padded too.\<close>

definition SIZEOF_BLOCK :: size_t where "SIZEOF_BLOCK = 48"
definition data_of :: "size_t \<Rightarrow> size_t" where "data_of block = block + 32"

definition arena_new :: "size_t \<Rightarrow> ArenaAllocator" where
  "arena_new bs = \<lparr> current_ptr = 0, end_ptr = 0, head = 0, first_block = 0, block_size = bs,
     total_allocated = 0, blocks = Map.empty \<rparr>"

definition update_block :: "size_t \<Rightarrow> (Block \<Rightarrow> Block) \<Rightarrow> (size_t \<rightharpoonup> Block) \<Rightarrow> size_t \<rightharpoonup> Block" where
  "update_block p f h = h(p := map_option f (h p))"

definition allocate_block ::
  "(size_t \<Rightarrow> (size_t \<rightharpoonup> Block) \<Rightarrow> size_t) \<Rightarrow> size_t \<Rightarrow> ArenaAllocator \<Rightarrow> (size_t \<times> ArenaAllocator) outcome" where
  "allocate_block malloc min_size a =
     (let bytes = max (block_size a) min_size;
          ptr = malloc (SIZEOF_BLOCK + bytes - 1) (blocks a) in
      if ptr = 0 then Aborted
      else
        let h = (blocks a)(ptr \<mapsto> \<lparr> next_block = 0, block_bytes = bytes, used = 0 \<rparr>);
            a' = (if first_block a = 0 then a\<lparr> first_block := ptr, blocks := h \<rparr>
                  else a\<lparr> blocks := update_block (head a) (\<lambda>b. b\<lparr> next_block := ptr \<rparr>) h \<rparr>) in
        Returned (ptr, a'\<lparr> head := ptr, total_allocated := total_allocated a + bytes \<rparr>))"

definition allocate_slow ::
  "(size_t \<Rightarrow> (size_t \<rightharpoonup> Block) \<Rightarrow> size_t) \<Rightarrow> size_t \<Rightarrow> size_t \<Rightarrow> ArenaAllocator \<Rightarrow> (size_t \<times> ArenaAllocator) outcome" where
  "allocate_slow malloc bytes alignment a0 =
     (let a = (if head a0 \<noteq> 0
               then a0\<lparr> blocks := update_block (head a0) (\<lambda>b. b\<lparr> used := current_ptr a0 - data_of (head a0) \<rparr>) (blocks a0) \<rparr>
               else a0) in
      case allocate_block malloc (bytes + alignment) a of
        Returned (block, a') \<Rightarrow>
          let aligned = align_up (data_of block) alignment;
              block_sz = (case blocks a' block of Some b \<Rightarrow> block_bytes b | None \<Rightarrow> 0) in
          Returned (aligned, a'\<lparr> current_ptr := aligned + bytes, end_ptr := data_of block + block_sz \<rparr>)
      | Assertion_Failed \<Rightarrow> Assertion_Failed
      | Aborted \<Rightarrow> Aborted)"

definition arena_allocate ::
  "(size_t \<Rightarrow> (size_t \<rightharpoonup> Block) \<Rightarrow> size_t) \<Rightarrow> size_t \<Rightarrow> size_t \<Rightarrow> ArenaAllocator \<Rightarrow> (size_t \<times> ArenaAllocator) outcome" where
  "arena_allocate malloc bytes alignment a =
     (if alignment = 0 then Assertion_Failed
      else if alignment AND (alignment - 1) \<noteq> 0 then Assertion_Failed
      else
        let cur = current_ptr a; aligned = align_up cur alignment in
        if \<not> aligned \<ge> cur then Assertion_Failed
        else
          let next = aligned + bytes in
          if \<not> next \<ge> aligned then Assertion_Failed
          else if next \<le> end_ptr a then Returned (aligned, a\<lparr> current_ptr := next \<rparr>)
          else allocate_slow malloc bytes alignment a)"

text \<open>The address that \<^verbatim>\<open>construct<T>\<close> passes to placement new, from the size and alignment of \<^verbatim>\<open>T\<close>.\<close>

definition arena_construct ::
  "(size_t \<Rightarrow> (size_t \<rightharpoonup> Block) \<Rightarrow> size_t) \<Rightarrow> size_t \<Rightarrow> size_t \<Rightarrow> ArenaAllocator \<Rightarrow> (size_t \<times> ArenaAllocator) outcome" where
  "arena_construct malloc sizeof_T alignof_T a = arena_allocate malloc sizeof_T alignof_T a"

text \<open>The walks along the chain; a header that is not in memory is an invalid access.\<close>

partial_function (option) clear_used :: "(size_t \<rightharpoonup> Block) \<Rightarrow> size_t \<Rightarrow> (size_t \<rightharpoonup> Block) option" where
  "clear_used h blk =
     (if blk = 0 then Some h
      else case h blk of None \<Rightarrow> None | Some b \<Rightarrow> clear_used (h(blk \<mapsto> b\<lparr> used := 0 \<rparr>)) (next_block b))"

definition arena_reset :: "ArenaAllocator \<Rightarrow> ArenaAllocator option" where
  "arena_reset a =
     (if first_block a = 0 then Some a
      else Option.bind (clear_used (blocks a) (first_block a)) (\<lambda>h.
        map_option (\<lambda>b. a\<lparr> blocks := h, head := first_block a, current_ptr := data_of (first_block a),
                            end_ptr := data_of (first_block a) + block_bytes b \<rparr>) (h (first_block a))))"

partial_function (option) free_chain :: "(size_t \<rightharpoonup> Block) \<Rightarrow> size_t \<Rightarrow> (size_t \<rightharpoonup> Block) option" where
  "free_chain h blk =
     (if blk = 0 then Some h
      else case h blk of None \<Rightarrow> None | Some b \<Rightarrow> free_chain (h(blk := None)) (next_block b))"

definition arena_destroy :: "ArenaAllocator \<Rightarrow> (size_t \<rightharpoonup> Block) option" where
  "arena_destroy a = free_chain (blocks a) (first_block a)"

partial_function (option) bytes_loop :: "ArenaAllocator \<Rightarrow> size_t \<Rightarrow> size_t \<Rightarrow> size_t option" where
  "bytes_loop a blk acc =
     (if blk = 0 then Some acc
      else case blocks a blk of
        None \<Rightarrow> None
      | Some b \<Rightarrow> bytes_loop a (next_block b)
          (acc + (if blk = head a then current_ptr a - data_of blk else used b)))"

definition bytes_allocated :: "ArenaAllocator \<Rightarrow> size_t option" where
  "bytes_allocated a = bytes_loop a (first_block a) 0"

definition bytes_wasted :: "ArenaAllocator \<Rightarrow> size_t option" where
  "bytes_wasted a = map_option (\<lambda>n. total_allocated a - n) (bytes_allocated a)"

text \<open>The moves hand the chain over and leave the source empty.\<close>

definition moved_from :: "ArenaAllocator \<Rightarrow> ArenaAllocator" where
  "moved_from other = other\<lparr> current_ptr := 0, end_ptr := 0, head := 0, first_block := 0,
     total_allocated := 0, blocks := Map.empty \<rparr>"

definition arena_move :: "ArenaAllocator \<Rightarrow> ArenaAllocator \<times> ArenaAllocator" where
  "arena_move other = (other, moved_from other)"

text \<open>The first component is what remains of the blocks of the assigned arena.\<close>

definition arena_move_assign ::
  "ArenaAllocator \<Rightarrow> ArenaAllocator \<Rightarrow> ((size_t \<rightharpoonup> Block) \<times> ArenaAllocator \<times> ArenaAllocator) option" where
  "arena_move_assign this other =
     map_option (\<lambda>left. (left, other, moved_from other)) (free_chain (blocks this) (first_block this))"

section \<open>Chains of blocks\<close>

fun chain :: "(size_t \<rightharpoonup> Block) \<Rightarrow> size_t \<Rightarrow> size_t list \<Rightarrow> bool" where
  "chain h p [] \<longleftrightarrow> p = 0"
| "chain h p (q # qs) \<longleftrightarrow> p = q \<and> q \<noteq> 0 \<and> (\<exists>b. h q = Some b \<and> chain h (next_block b) qs)"

lemma chain_cong: "(\<And>q. q \<in> set qs \<Longrightarrow> h' q = h q) \<Longrightarrow> chain h' p qs = chain h p qs"
  by (induction qs arbitrary: p) auto

lemma chain_update: "q \<notin> set qs \<Longrightarrow> chain (h(q := x)) p qs = chain h p qs"
  by (rule chain_cong) auto

lemma chain_used:
  assumes "chain h p qs"
    and "\<And>q b. h q = Some b \<Longrightarrow> \<exists>b'. h' q = Some b' \<and> next_block b' = next_block b"
  shows "chain h' p qs"
  using assms(1)
proof (induction qs arbitrary: p)
  case (Cons q qs)
  then show ?case using assms(2) by (auto, metis)
qed simp

lemma chain_dom: "chain h p qs \<Longrightarrow> set qs \<subseteq> dom h"
  by (induction qs arbitrary: p) auto

lemma chain_extend:
  assumes "chain h p (xs @ q # ys)" and "distinct (xs @ q # ys)" and "r \<notin> set (xs @ [q])" "r \<noteq> 0"
  shows "chain (update_block q (\<lambda>b. b\<lparr> next_block := r \<rparr>) (h(r \<mapsto> n\<lparr> next_block := 0 \<rparr>))) p (xs @ [q, r])"
  using assms by (induction xs arbitrary: p) (auto simp: update_block_def)

lemma clear_used_chain:
  assumes "chain h p qs" and "distinct qs"
  shows "clear_used h p = Some (\<lambda>b. if b \<in> set qs then map_option (\<lambda>x. x\<lparr> used := 0 \<rparr>) (h b) else h b)"
  using assms
proof (induction qs arbitrary: h p)
  case Nil
  then show ?case by (simp add: clear_used.simps)
next
  case (Cons q qs)
  then obtain b where b: "h q = Some b" "chain h (next_block b) qs" "p = q" "q \<noteq> 0" "q \<notin> set qs" "distinct qs" by auto
  let ?h = "h(q \<mapsto> b\<lparr> used := 0 \<rparr>)"
  have "chain ?h (next_block b) qs"
    using b(2,5) by (simp add: chain_update)
  then have "clear_used ?h (next_block b) =
      Some (\<lambda>c. if c \<in> set qs then map_option (\<lambda>x. x\<lparr> used := 0 \<rparr>) (?h c) else ?h c)"
    using b(6) by (rule Cons.IH)
  moreover have "clear_used h p = clear_used ?h (next_block b)" by (subst clear_used.simps) (simp add: b)
  ultimately have "clear_used h p =
      Some (\<lambda>c. if c \<in> set qs then map_option (\<lambda>x. x\<lparr> used := 0 \<rparr>) (?h c) else ?h c)"
    by (simp only:)
  also have "\<dots> = Some (\<lambda>c. if c \<in> set (q # qs) then map_option (\<lambda>x. x\<lparr> used := 0 \<rparr>) (h c) else h c)"
    using b by (intro arg_cong [where f = Some] ext) auto
  finally show ?case .
qed

lemma free_chain_chain:
  assumes "chain h p qs" and "distinct qs"
  shows "free_chain h p = Some (h |` (- set qs))"
  using assms
proof (induction qs arbitrary: h p)
  case Nil
  then show ?case by (simp add: free_chain.simps)
next
  case (Cons q qs)
  then obtain b where b: "h q = Some b" "chain h (next_block b) qs" "p = q" "q \<noteq> 0" "q \<notin> set qs" "distinct qs" by auto
  have "chain (h(q := None)) (next_block b) qs"
    using b(2,5) by (simp add: chain_update)
  then have "free_chain (h(q := None)) (next_block b) = Some ((h(q := None)) |` (- set qs))"
    using b(6) by (rule Cons.IH)
  moreover have "free_chain h p = free_chain (h(q := None)) (next_block b)"
    by (subst free_chain.simps) (simp add: b)
  ultimately have "free_chain h p = Some ((h(q := None)) |` (- set qs))" by (simp only:)
  also have "\<dots> = Some (h |` (- set (q # qs)))"
    by (intro arg_cong [where f = Some] ext) (auto simp: restrict_map_def)
  finally show ?case .
qed

section \<open>The invariant\<close>

text \<open>
  What the arena relies on: memory returned by malloc for \<open>n\<close> bytes does not wrap around the
  address space and overlaps no block in use.
\<close>

definition block_span :: "size_t \<Rightarrow> Block \<Rightarrow> nat set" where
  "block_span p b = {unat p ..< unat p + 47 + unat (block_bytes b)}"

definition malloc_ok :: "(size_t \<Rightarrow> (size_t \<rightharpoonup> Block) \<Rightarrow> size_t) \<Rightarrow> bool" where
  "malloc_ok malloc \<longleftrightarrow> (\<forall>n h. malloc n h \<noteq> 0 \<longrightarrow> unat (malloc n h) + unat n \<le> 2 ^ 64 \<and>
     (\<forall>p b. h p = Some b \<longrightarrow> {unat (malloc n h) ..< unat (malloc n h) + unat n} \<inter> block_span p b = {}))"

definition heap_ok :: "(size_t \<rightharpoonup> Block) \<Rightarrow> bool" where
  "heap_ok h \<longleftrightarrow> (\<forall>p b. h p = Some b \<longrightarrow> p \<noteq> 0 \<and> unat p + 47 + unat (block_bytes b) \<le> 2 ^ 64) \<and>
     (\<forall>p b q c. h p = Some b \<longrightarrow> h q = Some c \<longrightarrow> p \<noteq> q \<longrightarrow> block_span p b \<inter> block_span q c = {})"

definition bump_ok :: "ArenaAllocator \<Rightarrow> bool" where
  "bump_ok a \<longleftrightarrow> (if head a = 0 then current_ptr a = 0 \<and> end_ptr a = 0
     else \<exists>b. blocks a (head a) = Some b \<and>
       unat (end_ptr a) = unat (head a) + 32 + unat (block_bytes b) \<and>
       unat (head a) + 32 \<le> unat (current_ptr a) \<and> current_ptr a \<le> end_ptr a)"

definition arena_chain :: "ArenaAllocator \<Rightarrow> size_t list \<Rightarrow> bool" where
  "arena_chain a qs \<longleftrightarrow> chain (blocks a) (first_block a) qs \<and> distinct qs \<and>
     (if qs = [] then head a = 0 else head a \<in> set qs)"

definition arena_inv :: "ArenaAllocator \<Rightarrow> bool" where
  "arena_inv a \<longleftrightarrow> heap_ok (blocks a) \<and> bump_ok a \<and> unat (block_size a) + 48 \<le> 2 ^ 64 \<and> (\<exists>qs. arena_chain a qs)"

text \<open>An allocation is an address and a length; it lies in the data of one block, below the bump pointer.\<close>

definition range_of :: "size_t \<times> nat \<Rightarrow> nat set" where
  "range_of = (\<lambda>(p, n). {unat p ..< unat p + n})"

definition placed :: "ArenaAllocator \<Rightarrow> size_t \<times> nat \<Rightarrow> bool" where
  "placed a = (\<lambda>(p, n). \<exists>q b. blocks a q = Some b \<and> unat q + 32 \<le> unat p \<and>
     unat p + n \<le> unat q + 32 + unat (block_bytes b) \<and> (q = head a \<longrightarrow> unat p + n \<le> unat (current_ptr a)))"

lemma arena_new_inv: "unat bs + 48 \<le> 2 ^ 64 \<Longrightarrow> arena_inv (arena_new bs)"
  by (auto simp: arena_inv_def arena_new_def heap_ok_def bump_ok_def arena_chain_def intro!: exI [of _ "[]"])

lemma arena_inv_head:
  assumes "arena_inv a"
  shows "head a = 0 \<longleftrightarrow> first_block a = 0"
proof -
  from assms obtain qs where qs: "arena_chain a qs" by (auto simp: arena_inv_def)
  have "q \<noteq> 0" if "q \<in> set qs" for q
    using that qs assms chain_dom by (fastforce simp: arena_chain_def arena_inv_def heap_ok_def)
  with qs show ?thesis by (cases qs) (auto simp: arena_chain_def)
qed

section \<open>The fast path\<close>

lemma pow2_alignment:
  fixes alignment :: size_t
  assumes "alignment \<noteq> 0" and "alignment AND (alignment - 1) = 0"
  obtains k where "k < 64" "alignment = 2 ^ k" "unat alignment = 2 ^ k"
  using assms is_pow2_iff [of alignment] by (auto simp: is_pow2_def unat_pow2)

lemma align_up_bounds:
  assumes al: "alignment \<noteq> 0" "alignment AND (alignment - 1) = 0" and fit: "unat p + unat alignment \<le> 2 ^ 64"
  shows "unat p \<le> unat (align_up p alignment)" "unat (align_up p alignment) < unat p + unat alignment"
    "unat alignment dvd unat (align_up p alignment)"
proof -
  from pow2_alignment [OF al] obtain k where k: "k < 64" "alignment = 2 ^ k" "unat alignment = 2 ^ k" by blast
  then have "unat (align_up p alignment) = round_up (unat p) (2 ^ k)"
    using fit unat_align_up [of k p] by simp
  then show "unat p \<le> unat (align_up p alignment)" "unat (align_up p alignment) < unat p + unat alignment"
    "unat alignment dvd unat (align_up p alignment)"
    using round_up_ge [of "2 ^ k" "unat p"] round_up_less [of "2 ^ k" "unat p"] round_up_dvd [of "2 ^ k" "unat p"] k(3)
    by simp_all
qed

lemma bump_inv:
  assumes inv: "arena_inv a" and nxt: "current_ptr a \<le> next" "next \<le> end_ptr a"
  shows "arena_inv (a\<lparr> current_ptr := next \<rparr>)"
  using inv nxt by (auto simp: arena_inv_def bump_ok_def arena_chain_def word_le_nat_alt unat_eq_zero split: if_splits)

lemma fast_path:
  assumes inv: "arena_inv a" and p: "current_ptr a \<le> p" and pn: "unat p + n \<le> unat (end_ptr a)" and n: "0 < n"
    and live: "\<forall>r \<in> set live. placed a r"
  shows "placed (a\<lparr> current_ptr := p + of_nat n \<rparr>) (p, n)" "\<forall>r \<in> set live. placed (a\<lparr> current_ptr := p + of_nat n \<rparr>) r"
    "\<forall>r \<in> set live. range_of r \<inter> range_of (p, n) = {}" "p + of_nat n \<le> end_ptr a" "current_ptr a \<le> p + of_nat n"
proof -
  have sum: "unat (p + of_nat n) = unat p + n"
    using pn unat_u64_less [of "end_ptr a"] by (simp add: unat_plus_if' unat_of_nat)
  have le: "unat (current_ptr a) \<le> unat p" using p by (simp add: word_le_nat_alt)
  then show "p + of_nat n \<le> end_ptr a" "current_ptr a \<le> p + of_nat n"
    using sum pn by (simp_all add: word_le_nat_alt)
  have h: "head a \<noteq> 0" using inv pn n by (auto simp: arena_inv_def bump_ok_def)
  with inv obtain b where b: "blocks a (head a) = Some b" "unat (end_ptr a) = unat (head a) + 32 + unat (block_bytes b)"
    "unat (head a) + 32 \<le> unat (current_ptr a)" by (auto simp: arena_inv_def bump_ok_def)
  then show "placed (a\<lparr> current_ptr := p + of_nat n \<rparr>) (p, n)"
    using le pn sum unfolding placed_def by (auto intro!: exI [of _ "head a"])
  show "\<forall>r \<in> set live. placed (a\<lparr> current_ptr := p + of_nat n \<rparr>) r"
    using live le sum by (fastforce simp: placed_def)
  show "\<forall>r \<in> set live. range_of r \<inter> range_of (p, n) = {}"
  proof
    fix r
    assume "r \<in> set live"
    with live obtain q c where r: "blocks a q = Some c" "unat q + 32 \<le> unat (fst r)"
      "unat (fst r) + snd r \<le> unat q + 32 + unat (block_bytes c)"
      "q = head a \<longrightarrow> unat (fst r) + snd r \<le> unat (current_ptr a)"
      by (fastforce simp: placed_def split: prod.splits)
    show "range_of r \<inter> range_of (p, n) = {}"
    proof (cases "q = head a")
      case True
      with r(4) le show ?thesis by (cases r) (auto simp: range_of_def)
    next
      case False
      then have "block_span q c \<inter> block_span (head a) b = {}" using inv r(1) b(1) by (auto simp: arena_inv_def heap_ok_def)
      moreover have "range_of r \<subseteq> block_span q c" using r(2,3) by (cases r) (auto simp: range_of_def block_span_def)
      moreover have "range_of (p, n) \<subseteq> block_span (head a) b"
        using b le pn by (auto simp: range_of_def block_span_def)
      ultimately show ?thesis by blast
    qed
  qed
qed

section \<open>The slow path\<close>

definition same_sizes :: "size_t set \<Rightarrow> (size_t \<rightharpoonup> Block) \<Rightarrow> (size_t \<rightharpoonup> Block) \<Rightarrow> bool" where
  "same_sizes Q h h' \<longleftrightarrow> (\<forall>q \<in> Q. map_option block_bytes (h' q) = map_option block_bytes (h q))"

lemma same_sizesD:
  "same_sizes Q h h' \<Longrightarrow> q \<in> Q \<Longrightarrow> h' q = Some b' \<Longrightarrow> \<exists>b. h q = Some b \<and> block_bytes b = block_bytes b'"
  "same_sizes Q h h' \<Longrightarrow> q \<in> Q \<Longrightarrow> h q = Some b \<Longrightarrow> \<exists>b'. h' q = Some b' \<and> block_bytes b' = block_bytes b"
  unfolding same_sizes_def by (metis map_option_eq_Some)+

lemma heap_ok_new:
  assumes h: "heap_ok h" and same: "same_sizes (- {r}) h h'" and r: "h' r = Some nb" "r \<noteq> 0" "h r = None"
    and fit: "unat r + 47 + unat (block_bytes nb) \<le> 2 ^ 64"
    and sep: "\<And>p b. h p = Some b \<Longrightarrow> block_span r nb \<inter> block_span p b = {}"
  shows "heap_ok h'"
proof -
  have old: "\<exists>b. h p = Some b \<and> block_span p b = block_span p b' \<and> block_bytes b = block_bytes b'"
    if "h' p = Some b'" "p \<noteq> r" for p b'
    using same_sizesD(1) [OF same _ that(1)] that(2) by (auto simp: block_span_def)
  show ?thesis
    unfolding heap_ok_def
  proof (intro conjI allI impI)
    fix p b'
    assume "h' p = Some b'"
    then have "p \<noteq> 0 \<and> unat p + 47 + unat (block_bytes b') \<le> 2 ^ 64"
      using old [of p b'] h r fit unfolding heap_ok_def by (cases "p = r") (auto, metis+)
    then show "p \<noteq> 0" "unat p + 47 + unat (block_bytes b') \<le> 2 ^ 64" by simp_all
  next
    fix p b' q c'
    assume *: "h' p = Some b'" "h' q = Some c'" "p \<noteq> q"
    show "block_span p b' \<inter> block_span q c' = {}"
    proof (cases "p = r \<or> q = r")
      case True
      with * r(1) sep old [of p b'] old [of q c'] show ?thesis by (metis Int_commute option.inject)
    next
      case False
      with old [OF *(1)] old [OF *(2)] h *(3) show ?thesis unfolding heap_ok_def by metis
    qed
  qed
qed

lemma heap_ok_same:
  assumes "heap_ok h" and same: "same_sizes UNIV h h'"
  shows "heap_ok h'"
proof -
  have old: "\<exists>b. h p = Some b \<and> block_span p b' = block_span p b \<and> block_bytes b = block_bytes b'"
    if "h' p = Some b'" for p b'
    using same_sizesD(1) [OF same _ that] by (auto simp: block_span_def)
  show ?thesis
    unfolding heap_ok_def
  proof (intro conjI allI impI)
    fix p b'
    assume "h' p = Some b'"
    with old [OF this] assms(1) show "p \<noteq> 0" "unat p + 47 + unat (block_bytes b') \<le> 2 ^ 64"
      unfolding heap_ok_def by metis+
  next
    fix p b' q c'
    assume "h' p = Some b'" "h' q = Some c'" "p \<noteq> q"
    with old [of p b'] old [of q c'] assms(1) show "block_span p b' \<inter> block_span q c' = {}"
      unfolding heap_ok_def by metis
  qed
qed

definition freeze :: "ArenaAllocator \<Rightarrow> size_t \<rightharpoonup> Block" where
  "freeze a = (if head a \<noteq> 0
     then update_block (head a) (\<lambda>b. b\<lparr> used := current_ptr a - data_of (head a) \<rparr>) (blocks a) else blocks a)"

lemma freeze_same:
  "same_sizes UNIV (blocks a) (freeze a)" "chain (freeze a) p qs = chain (blocks a) p qs"
  "freeze a q = None \<longleftrightarrow> blocks a q = None"
proof -
  show "same_sizes UNIV (blocks a) (freeze a)"
    by (auto simp: same_sizes_def freeze_def update_block_def option.map_comp o_def)
  show "freeze a q = None \<longleftrightarrow> blocks a q = None" by (auto simp: freeze_def update_block_def)
  have nxt: "map_option next_block (freeze a q) = map_option next_block (blocks a q)" for q
    by (auto simp: freeze_def update_block_def option.map_comp o_def)
  then have "chain (freeze a) p qs = chain (blocks a) p qs" for p
  proof (induction qs arbitrary: p)
    case (Cons q qs)
    then show ?case using nxt [of q] by (cases "freeze a q"; cases "blocks a q") auto
  qed simp
  then show "chain (freeze a) p qs = chain (blocks a) p qs" .
qed

text \<open>The chain once a new block \<open>r\<close> of \<open>S\<close> bytes was appended behind the current block.\<close>

definition append_block :: "size_t \<Rightarrow> size_t \<Rightarrow> ArenaAllocator \<Rightarrow> size_t \<rightharpoonup> Block" where
  "append_block r S a =
     (let h = (freeze a)(r \<mapsto> \<lparr> next_block = 0, block_bytes = S, used = 0 \<rparr>) in
      if first_block a = 0 then h else update_block (head a) (\<lambda>b. b\<lparr> next_block := r \<rparr>) h)"

lemma append_block_facts:
  assumes "r \<noteq> head a"
  shows "append_block r S a r = Some \<lparr> next_block = 0, block_bytes = S, used = 0 \<rparr>"
    and "same_sizes (- {r}) (blocks a) (append_block r S a)"
  using assms freeze_same(1) [of a]
  by (auto simp: append_block_def update_block_def same_sizes_def Let_def option.map_comp o_def)

lemma append_block_chain:
  assumes inv: "arena_inv a" and ch: "arena_chain a qs" and r: "r \<noteq> 0" "blocks a r = None"
  shows "\<exists>xs. chain (append_block r S a) (if first_block a = 0 then r else first_block a) (xs @ [r]) \<and>
    distinct (xs @ [r]) \<and> (\<exists>ys. qs = xs @ ys \<and> (qs \<noteq> [] \<longrightarrow> xs \<noteq> [] \<and> last xs = head a))"
proof (cases qs)
  case Nil
  then have "first_block a = 0" using ch by (simp add: arena_chain_def)
  then show ?thesis using r Nil by (intro exI [of _ "[]"]) (simp add: append_block_def)
next
  case (Cons q qs')
  then have nz: "first_block a \<noteq> 0" using ch by (auto simp: arena_chain_def)
  have "head a \<in> set qs" using ch Cons by (simp add: arena_chain_def)
  then obtain xs ys where qs: "qs = xs @ head a # ys" by (meson split_list)
  have c: "chain (freeze a) (first_block a) (xs @ head a # ys)" "distinct (xs @ head a # ys)"
    using ch by (simp_all add: arena_chain_def freeze_same qs)
  have "r \<notin> set qs" using chain_dom ch r(2) by (fastforce simp: arena_chain_def)
  then have "r \<notin> set (xs @ [head a])" by (auto simp: qs)
  from chain_extend [OF c this r(1), of "\<lparr> next_block = 0, block_bytes = S, used = 0 \<rparr>"]
  have "chain (append_block r S a) (first_block a) ((xs @ [head a]) @ [r])"
    using nz by (simp add: append_block_def)
  then show ?thesis using nz c(2) \<open>r \<notin> set (xs @ [head a])\<close>
    by (intro exI [of _ "xs @ [head a]"]) (auto simp: qs)
qed

lemma allocate_slow_eq:
  assumes "arena_inv a" and "S = max (block_size a) (bytes + alignment)"
    and "r = malloc (SIZEOF_BLOCK + S - 1) (freeze a)" and "blocks a r = None"
  shows "allocate_slow malloc bytes alignment a =
    (if r = 0 then Aborted
     else Returned (align_up (data_of r) alignment,
       a\<lparr> current_ptr := align_up (data_of r) alignment + bytes, end_ptr := data_of r + S, head := r,
          first_block := (if first_block a = 0 then r else first_block a),
          total_allocated := total_allocated a + S, blocks := append_block r S a \<rparr>))"
proof -
  have "r \<noteq> head a" if "r \<noteq> 0"
    using assms(1,4) that by (auto simp: arena_inv_def bump_ok_def)
  moreover have "(if head a \<noteq> 0 then a\<lparr> blocks := update_block (head a)
      (\<lambda>b. b\<lparr> used := current_ptr a - data_of (head a) \<rparr>) (blocks a) \<rparr> else a) = a\<lparr> blocks := freeze a \<rparr>"
    by (simp add: freeze_def)
  ultimately show ?thesis
    unfolding allocate_slow_def allocate_block_def
    using assms(2,3) append_block_facts(1) [of r a S]
    by (cases a) (auto simp: Let_def append_block_def)
qed

lemma malloc_fresh:
  assumes inv: "arena_inv a" and m: "malloc_ok malloc" and S: "unat S + 48 \<le> 2 ^ 64"
    and r: "r = malloc (SIZEOF_BLOCK + S - 1) (freeze a)" "r \<noteq> 0"
  shows "unat r + 47 + unat S \<le> 2 ^ 64"
    and "blocks a p = Some b \<Longrightarrow> {unat r ..< unat r + 47 + unat S} \<inter> block_span p b = {}"
    and "blocks a r = None"
proof -
  have "SIZEOF_BLOCK + S - 1 = 47 + S" unfolding SIZEOF_BLOCK_def by simp
  then have n: "unat (SIZEOF_BLOCK + S - 1) = 47 + unat S"
    unfolding \<open>SIZEOF_BLOCK + S - 1 = 47 + S\<close> using S by (simp add: unat_plus_if')
  show "unat r + 47 + unat S \<le> 2 ^ 64" using m r n unfolding malloc_ok_def by (metis add.assoc)
  show sep: "{unat r ..< unat r + 47 + unat S} \<inter> block_span p b = {}" if pb: "blocks a p = Some b" for p b
  proof -
    obtain b' where b': "freeze a p = Some b'" "block_bytes b' = block_bytes b"
      using same_sizesD(2) [OF freeze_same(1) _ pb] by auto
    with m r n have "{unat r ..< unat r + 47 + unat S} \<inter> block_span p b' = {}"
      unfolding malloc_ok_def by (metis add.assoc)
    with b'(2) show ?thesis by (simp add: block_span_def)
  qed
  show "blocks a r = None"
  proof (cases "blocks a r")
    case (Some b)
    have "unat r \<in> {unat r ..< unat r + 47 + unat S} \<inter> block_span r b" by (simp add: block_span_def)
    with sep [OF Some] show ?thesis by blast
  qed
qed

text \<open>Earlier allocations keep their place and cannot meet the new block.\<close>

lemma placed_elsewhere:
  assumes "placed a x" and new: "blocks a r = None" and same: "same_sizes (- {r}) (blocks a) (blocks a')"
    and "head a' = r"
    and sep: "\<And>p b. blocks a p = Some b \<Longrightarrow> {unat r ..< unat r + 47 + unat S} \<inter> block_span p b = {}"
    and y: "range_of y \<subseteq> {unat r ..< unat r + 47 + unat S}"
  shows "placed a' x \<and> range_of x \<inter> range_of y = {}"
proof -
  from assms(1) obtain q b where q: "blocks a q = Some b" "unat q + 32 \<le> unat (fst x)"
    "unat (fst x) + snd x \<le> unat q + 32 + unat (block_bytes b)"
    by (auto simp: placed_def split: prod.splits)
  have "q \<noteq> r" using q(1) new by auto
  then obtain b' where "blocks a' q = Some b'" "block_bytes b' = block_bytes b"
    using same_sizesD(2) [OF same _ q(1)] by auto
  then have "placed a' x" using q \<open>q \<noteq> r\<close> \<open>head a' = r\<close> by (cases x) (auto simp: placed_def intro!: exI [of _ q])
  moreover have "range_of x \<subseteq> block_span q b" using q by (cases x) (auto simp: range_of_def block_span_def)
  ultimately show ?thesis using sep [OF q(1)] y by blast
qed

lemma slow_path:
  assumes inv: "arena_inv a" and al: "alignment \<noteq> 0" "alignment AND (alignment - 1) = 0"
    and small: "unat bytes + unat alignment + 48 \<le> 2 ^ 64" and m: "malloc_ok malloc"
    and live: "\<forall>x \<in> set live. placed a x"
  shows "allocate_slow malloc bytes alignment a = Aborted \<or>
    (\<exists>p a'. allocate_slow malloc bytes alignment a = Returned (p, a') \<and> arena_inv a' \<and>
      unat alignment dvd unat p \<and> placed a' (p, unat bytes) \<and>
      (\<forall>x \<in> set live. placed a' x \<and> range_of x \<inter> range_of (p, unat bytes) = {}))"
proof -
  define S where "S = max (block_size a) (bytes + alignment)"
  define r where "r = malloc (SIZEOF_BLOCK + S - 1) (freeze a)"
  have "unat (bytes + alignment) = unat bytes + unat alignment" using small by (simp add: unat_plus_if')
  then have S: "unat bytes + unat alignment \<le> unat S" "unat S + 48 \<le> 2 ^ 64"
    using inv small by (auto simp: S_def max_def arena_inv_def word_le_nat_alt)
  show ?thesis
  proof (cases "r = 0")
    case True
    moreover have "blocks a 0 = None" using inv by (cases "blocks a 0") (auto simp: arena_inv_def heap_ok_def)
    ultimately show ?thesis using allocate_slow_eq [where malloc = malloc, OF inv S_def r_def] by simp
  next
    case False
    let ?al = "align_up (data_of r) alignment"
    note fresh = malloc_fresh [where malloc = malloc, OF inv m S(2) r_def False]
    have rh: "r \<noteq> head a" using inv False fresh(3) by (auto simp: arena_inv_def bump_ok_def)
    note h = append_block_facts [OF rh, of S]
    have d: "unat (data_of r) = unat r + 32" using fresh(1) by (simp add: data_of_def unat_plus_if')
    then have "unat (data_of r) + unat alignment \<le> 2 ^ 64" using fresh(1) S(1) by simp
    note ab = align_up_bounds [OF al this]
    have top: "unat (?al + bytes) = unat ?al + unat bytes" "unat ?al + unat bytes \<le> unat r + 32 + unat S"
      using ab d S(1) fresh(1) by (simp_all add: unat_plus_if')
    have e: "unat (data_of r + S) = unat r + 32 + unat S" using d fresh(1) by (simp add: unat_plus_if')
    define a' where "a' = a\<lparr> current_ptr := ?al + bytes, end_ptr := data_of r + S, head := r,
      first_block := (if first_block a = 0 then r else first_block a),
      total_allocated := total_allocated a + S, blocks := append_block r S a \<rparr>"
    have run: "allocate_slow malloc bytes alignment a = Returned (?al, a')"
      using allocate_slow_eq [where malloc = malloc, OF inv S_def r_def fresh(3)] False by (simp add: a'_def)
    obtain qs where "arena_chain a qs" using inv by (auto simp: arena_inv_def)
    from append_block_chain [OF inv this False fresh(3), of S] obtain xs where
      "chain (append_block r S a) (if first_block a = 0 then r else first_block a) (xs @ [r])"
      "distinct (xs @ [r])" by blast
    then have "arena_chain a' (xs @ [r])" by (simp add: arena_chain_def a'_def)
    then have ch: "\<exists>qs'. arena_chain a' qs'" ..
    have "heap_ok (append_block r S a)"
      using inv False fresh by (intro heap_ok_new [OF _ h(2,1) False fresh(3)]) (simp_all add: arena_inv_def block_span_def)
    moreover have "bump_ok a'"
      using h(1) False e top ab(1) d by (simp add: bump_ok_def a'_def word_le_nat_alt)
    moreover have "blocks a' = append_block r S a" "block_size a' = block_size a" by (simp_all add: a'_def)
    ultimately have inv': "arena_inv a'" using inv ch by (simp add: arena_inv_def)
    have here: "placed a' (?al, unat bytes)"
      using h(1) ab d top by (auto simp: placed_def a'_def intro!: exI [of _ r])
    have "range_of (?al, unat bytes) \<subseteq> {unat r ..< unat r + 47 + unat S}"
      using ab d top by (auto simp: range_of_def)
    then have "placed a' x \<and> range_of x \<inter> range_of (?al, unat bytes) = {}" if "x \<in> set live" for x
      using that live h(2) fresh(2)
      by (intro placed_elsewhere [OF _ fresh(3), where S = S]) (simp_all add: a'_def)
    then show ?thesis using run inv' here ab(3) by blast
  qed
qed

section \<open>Allocation is safe\<close>

text \<open>
  C16. \<^verbatim>\<open>ArenaAllocator::allocate\<close> with a power-of-two alignment and a nonzero size whose end does
  not pass the end of the address space: either malloc fails and the program aborts, or the call
  returns an aligned address whose whole range lies inside one live block and overlaps no range
  handed out since the last reset; the invariant is kept, so this holds for every further call.
\<close>

theorem arena_allocate_safe:
  assumes inv: "arena_inv a" and al: "alignment \<noteq> 0" "alignment AND (alignment - 1) = 0"
    and bytes: "bytes \<noteq> 0" "unat bytes + unat alignment + 48 \<le> 2 ^ 64"
    and room: "unat (end_ptr a) + unat bytes + unat alignment < 2 ^ 64"
    and m: "malloc_ok malloc" and live: "\<forall>x \<in> set live. placed a x"
  shows "arena_allocate malloc bytes alignment a = Aborted \<or>
    (\<exists>p a'. arena_allocate malloc bytes alignment a = Returned (p, a') \<and> arena_inv a' \<and>
      unat alignment dvd unat p \<and> placed a' (p, unat bytes) \<and>
      (\<forall>x \<in> set live. placed a' x \<and> range_of x \<inter> range_of (p, unat bytes) = {}))"
proof -
  let ?p = "align_up (current_ptr a) alignment"
  have "unat (current_ptr a) \<le> unat (end_ptr a)"
    using inv by (auto simp: arena_inv_def bump_ok_def word_le_nat_alt split: if_splits)
  then have "unat (current_ptr a) + unat alignment \<le> 2 ^ 64"
    and lt: "unat (current_ptr a) + unat alignment + unat bytes < 2 ^ 64" using room by simp_all
  note ab = align_up_bounds [OF al this(1)]
  have sum: "unat (?p + bytes) = unat ?p + unat bytes" using ab lt by (simp add: unat_plus_if')
  have le: "current_ptr a \<le> ?p" "?p \<le> ?p + bytes" using ab sum by (simp_all add: word_le_nat_alt)
  then have eq: "arena_allocate malloc bytes alignment a =
      (if ?p + bytes \<le> end_ptr a then Returned (?p, a\<lparr> current_ptr := ?p + bytes \<rparr>)
       else allocate_slow malloc bytes alignment a)"
    using al by (simp add: arena_allocate_def Let_def)
  show ?thesis
  proof (cases "?p + bytes \<le> end_ptr a")
    case True
    then have "unat ?p + unat bytes \<le> unat (end_ptr a)" using sum by (simp add: word_le_nat_alt)
    moreover have "0 < unat bytes" using bytes(1) by (simp add: unat_gt_0)
    ultimately show ?thesis
      using fast_path [OF inv le(1) _ _ live, of "unat bytes"] bump_inv [OF inv, of "?p + bytes"] True eq ab(3)
      by simp
  next
    case False
    then show ?thesis using slow_path [OF inv al bytes(2) m live] eq by simp
  qed
qed

definition small_malloc :: "size_t \<Rightarrow> (size_t \<rightharpoonup> Block) \<Rightarrow> size_t" where
  "small_malloc n h = (if h = Map.empty \<and> n \<le> 65536 then 4096 else 0)"

lemma small_malloc_ok: "malloc_ok small_malloc"
  by (auto simp: malloc_ok_def small_malloc_def word_le_nat_alt)

theorem arena_allocate_safe_witness:
  "arena_allocate small_malloc 24 16 (arena_new 1024) = Aborted \<or>
   (\<exists>p a'. arena_allocate small_malloc 24 16 (arena_new 1024) = Returned (p, a') \<and> arena_inv a' \<and> 16 dvd unat p)"
proof -
  have "arena_inv (arena_new 1024)" by (rule arena_new_inv) simp
  from arena_allocate_safe [OF this _ _ _ _ _ small_malloc_ok, of 16 24 "[]"] show ?thesis
    by (auto simp: arena_new_def)
qed

lemma bytes_loop_zero:
  assumes "chain (blocks a) p qs" and "\<And>q b. q \<in> set qs \<Longrightarrow> blocks a q = Some b \<Longrightarrow> used b = 0"
    and "current_ptr a = data_of (head a)"
  shows "bytes_loop a p n = Some n"
  using assms(1,2)
proof (induction qs arbitrary: p)
  case Nil
  then show ?case by (simp add: bytes_loop.simps)
next
  case (Cons q qs)
  then obtain b where b: "blocks a q = Some b" "chain (blocks a) (next_block b) qs" "p = q" "q \<noteq> 0" by auto
  then have "bytes_loop a (next_block b) n = Some n" by (intro Cons.IH) (auto intro: Cons.prems)
  moreover have "used b = 0" using Cons.prems(2) [of q b] b(1) by simp
  ultimately show ?case using b assms(3) by (simp add: bytes_loop.simps [of _ q])
qed

text \<open>
  \<^verbatim>\<open>ArenaAllocator::reset\<close> ends, keeps the invariant, makes the oldest block current with nothing in
  use, and leaves every block of the chain allocated, so \<^verbatim>\<open>bytes_allocated\<close> is 0 afterwards.
\<close>

theorem arena_reset_correct:
  assumes inv: "arena_inv a" and nz: "first_block a \<noteq> 0"
  shows "\<exists>a'. arena_reset a = Some a' \<and> arena_inv a' \<and> head a' = first_block a \<and>
    current_ptr a' = data_of (first_block a) \<and> dom (blocks a') = dom (blocks a) \<and>
    bytes_allocated a' = Some 0"
proof -
  from inv obtain qs where qs: "arena_chain a qs" by (auto simp: arena_inv_def)
  then have ch: "chain (blocks a) (first_block a) qs" "distinct qs" by (simp_all add: arena_chain_def)
  let ?h = "\<lambda>b. if b \<in> set qs then map_option (\<lambda>x. x\<lparr> used := 0 \<rparr>) (blocks a b) else blocks a b"
  obtain qs' where q: "qs = first_block a # qs'" using ch(1) nz by (cases qs) auto
  then obtain b where b: "blocks a (first_block a) = Some b" using ch(1) by auto
  define a' where "a' = a\<lparr> blocks := ?h, head := first_block a, current_ptr := data_of (first_block a),
    end_ptr := data_of (first_block a) + block_bytes b \<rparr>"
  have run: "arena_reset a = Some a'"
    using nz clear_used_chain [OF ch] b q by (simp add: arena_reset_def a'_def)
  have "chain ?h (first_block a) qs" by (rule chain_used [OF ch(1)]) auto
  then have ch': "arena_chain a' qs"
    unfolding arena_chain_def a'_def using ch(2) q by simp
  have heap: "heap_ok ?h"
  proof (rule heap_ok_same)
    show "heap_ok (blocks a)" using inv by (simp add: arena_inv_def)
    show "same_sizes UNIV (blocks a) ?h" by (simp add: same_sizes_def option.map_comp o_def)
  qed
  have fit: "unat (first_block a) + 47 + unat (block_bytes b) \<le> 2 ^ 64" using inv b by (simp add: arena_inv_def heap_ok_def)
  then have d: "unat (data_of (first_block a)) = unat (first_block a) + 32" by (simp add: data_of_def unat_plus_if')
  then have "unat (data_of (first_block a) + block_bytes b) = unat (first_block a) + 32 + unat (block_bytes b)"
    using fit by (simp add: unat_plus_if')
  then have "bump_ok a'" using nz b q d by (simp add: bump_ok_def a'_def word_le_nat_alt)
  moreover have flds: "blocks a' = ?h" "block_size a' = block_size a" "first_block a' = first_block a"
    "head a' = first_block a" "current_ptr a' = data_of (first_block a)" by (simp_all add: a'_def)
  ultimately have "arena_inv a'" using inv heap ch' unfolding arena_inv_def flds by blast
  moreover have "bytes_allocated a' = Some 0"
    unfolding bytes_allocated_def
  proof (rule bytes_loop_zero)
    show "chain (blocks a') (first_block a') qs" using ch' by (simp add: arena_chain_def)
  qed (auto simp: flds)
  moreover have "dom ?h = dom (blocks a)" by (auto simp: dom_def)
  ultimately show ?thesis using run flds by auto
qed

definition one_block :: ArenaAllocator where
  "one_block = \<lparr> current_ptr = 4144, end_ptr = 5152, head = 4096, first_block = 4096, block_size = 1024,
     total_allocated = 1024, blocks = [4096 \<mapsto> \<lparr> next_block = 0, block_bytes = 1024, used = 0 \<rparr>] \<rparr>"

lemma one_block_chain: "arena_chain one_block [4096]"
  by (simp add: arena_chain_def one_block_def)

lemma one_block_inv: "arena_inv one_block"
proof -
  have "heap_ok (blocks one_block)" "bump_ok one_block"
    by (auto simp: one_block_def heap_ok_def bump_ok_def split: if_splits)
  then show ?thesis using one_block_chain by (auto simp: arena_inv_def one_block_def)
qed

theorem arena_reset_correct_witness:
  "\<exists>a'. arena_reset one_block = Some a' \<and> arena_inv a' \<and> bytes_allocated a' = Some 0"
  using arena_reset_correct [OF one_block_inv] by (auto simp: one_block_def)

section \<open>What the destructor frees\<close>

text \<open>The effect of a slow-path allocation on the chain.\<close>

lemma slow_chain:
  assumes inv: "arena_inv a" and ch: "arena_chain a qs" and m: "malloc_ok malloc"
    and small: "unat bytes + unat alignment + 48 \<le> 2 ^ 64"
    and run: "allocate_slow malloc bytes alignment a = Returned (p, a')"
  obtains r xs ys where "blocks a r = None" "r \<noteq> 0" "qs = xs @ ys" "qs \<noteq> [] \<longrightarrow> xs \<noteq> [] \<and> last xs = head a"
    "arena_chain a' (xs @ [r])" "head a' = r" "dom (blocks a') = insert r (dom (blocks a))"
proof -
  define S where "S = max (block_size a) (bytes + alignment)"
  define r where "r = malloc (SIZEOF_BLOCK + S - 1) (freeze a)"
  have S: "unat S + 48 \<le> 2 ^ 64"
    using inv small by (auto simp: S_def max_def arena_inv_def unat_plus_if')
  have "blocks a 0 = None" using inv by (cases "blocks a 0") (auto simp: arena_inv_def heap_ok_def)
  then have r0: "r \<noteq> 0"
    using run allocate_slow_eq [where malloc = malloc, OF inv S_def r_def] by (cases "r = 0") simp_all
  have new: "blocks a r = None" by (rule malloc_fresh(3) [where malloc = malloc, OF inv m S r_def r0])
  have a': "head a' = r" "blocks a' = append_block r S a"
    "first_block a' = (if first_block a = 0 then r else first_block a)"
    using run allocate_slow_eq [where malloc = malloc, OF inv S_def r_def new] r0 by auto
  from append_block_chain [OF inv ch r0 new, of S] obtain xs ys where
    xs: "chain (append_block r S a) (if first_block a = 0 then r else first_block a) (xs @ [r])"
      "distinct (xs @ [r])" "qs = xs @ ys" "qs \<noteq> [] \<longrightarrow> xs \<noteq> [] \<and> last xs = head a" by blast
  have rh: "r \<noteq> head a" using inv r0 new by (auto simp: arena_inv_def bump_ok_def)
  have "dom (append_block r S a) = insert r (dom (blocks a))"
  proof (rule set_eqI)
    fix q
    have "append_block r S a q = None \<longleftrightarrow> blocks a q = None" if "q \<noteq> r"
      using append_block_facts(2) [OF rh, of S] that unfolding same_sizes_def
      by (metis ComplI map_option_is_None singletonD)
    then show "q \<in> dom (append_block r S a) \<longleftrightarrow> q \<in> insert r (dom (blocks a))"
      using append_block_facts(1) [OF rh, of S] by (cases "q = r") (simp_all add: domIff)
  qed
  moreover have "arena_chain a' (xs @ [r])" using xs a' by (simp add: arena_chain_def)
  ultimately show ?thesis using xs(4) a' by (intro that [OF new r0 xs(3)]) simp_all
qed

lemma destroy_chain: "arena_chain a qs \<Longrightarrow> arena_destroy a = Some (blocks a |` (- set qs))"
  by (simp add: arena_destroy_def arena_chain_def free_chain_chain)

text \<open>
  As long as the arena was not reset (its current block is the last of a chain that holds all its
  blocks), every allocation keeps that shape, and the destructor then ends, frees every block exactly
  once and leaves nothing behind.
\<close>

theorem arena_no_leak:
  assumes inv: "arena_inv a" and ch: "arena_chain a qs" and all: "set qs = dom (blocks a)"
    and tail: "qs \<noteq> [] \<Longrightarrow> last qs = head a" and m: "malloc_ok malloc"
    and small: "unat bytes + unat alignment + 48 \<le> 2 ^ 64"
    and run: "arena_allocate malloc bytes alignment a = Returned (p, a')"
  shows "\<exists>qs'. arena_chain a' qs' \<and> set qs' = dom (blocks a') \<and> (qs' \<noteq> [] \<longrightarrow> last qs' = head a') \<and>
    arena_destroy a' = Some Map.empty"
proof -
  have fin: "arena_destroy a' = Some Map.empty" if "arena_chain a' qs'" "set qs' = dom (blocks a')" for qs'
  proof -
    have "blocks a' |` (- dom (blocks a')) = Map.empty" by (auto simp: restrict_map_def)
    with destroy_chain [OF that(1)] that(2) show ?thesis by simp
  qed
  from run consider (fast) c where "a' = a\<lparr> current_ptr := c \<rparr>" | (slow) "allocate_slow malloc bytes alignment a = Returned (p, a')"
    by (auto simp: arena_allocate_def Let_def split: if_splits)
  then show ?thesis
  proof cases
    case fast
    then have "arena_chain a' qs" "set qs = dom (blocks a')" "head a' = head a"
      using ch all by (auto simp: arena_chain_def)
    with tail fin show ?thesis by (intro exI [of _ qs]) simp
  next
    case slow
    then obtain r xs ys where r: "blocks a r = None" "qs = xs @ ys" "qs \<noteq> [] \<longrightarrow> xs \<noteq> [] \<and> last xs = head a"
      "arena_chain a' (xs @ [r])" "head a' = r" "dom (blocks a') = insert r (dom (blocks a))"
      by (rule slow_chain [OF inv ch m small]) blast
    have "ys = []"
    proof (rule ccontr)
      assume ys: "ys \<noteq> []"
      with r(2,3) tail have "last ys = last xs" "xs \<noteq> []" by auto
      then have "\<not> distinct qs" using ys r(2) by (metis disjoint_iff distinct_append last_in_set)
      with ch show False by (simp add: arena_chain_def)
    qed
    then have "set (xs @ [r]) = dom (blocks a')" using r(2,6) all by auto
    with r(4,5) fin show ?thesis by (intro exI [of _ "xs @ [r]"]) simp
  qed
qed

theorem arena_no_leak_witness:
  "\<exists>a' qs'. arena_allocate small_malloc 8 8 one_block = Returned (4144, a') \<and> arena_chain a' qs' \<and>
    arena_destroy a' = Some Map.empty"
proof -
  have "arena_allocate small_malloc 8 8 one_block = Returned (4144, one_block\<lparr> current_ptr := 4152 \<rparr>)"
    by (simp add: arena_allocate_def Let_def one_block_def align_up_def)
  moreover have "set [4096] = dom (blocks one_block)" by (simp add: one_block_def)
  ultimately show ?thesis
    using arena_no_leak [OF one_block_inv one_block_chain _ _ small_malloc_ok, of 8 8 4144 "one_block\<lparr> current_ptr := 4152 \<rparr>"]
    by (auto simp: one_block_def)
qed

text \<open>
  After a reset of a chain with a second block, the first allocation that does not fit the first
  block overwrites the link to the second: the destructor no longer reaches it.
\<close>

theorem arena_reset_leaks:
  assumes inv: "arena_inv a" and ch: "arena_chain a (q # q2 # qs)" and cur: "head a = q" and m: "malloc_ok malloc"
    and small: "unat bytes + unat alignment + 48 \<le> 2 ^ 64"
    and run: "allocate_slow malloc bytes alignment a = Returned (p, a')"
  shows "\<exists>h. arena_destroy a' = Some h \<and> q2 \<in> dom h"
proof -
  from run obtain r xs ys where r: "blocks a r = None" "q # q2 # qs = xs @ ys" "xs \<noteq> [] \<and> last xs = head a"
    "arena_chain a' (xs @ [r])" "dom (blocks a') = insert r (dom (blocks a))"
    by (rule slow_chain [OF inv ch m small]) blast
  have "xs = [q]"
  proof (cases xs)
    case (Cons x zs)
    then have x: "x = q" "q2 # qs = zs @ ys" using r(2) by auto
    have "zs = []"
    proof (rule ccontr)
      assume "zs \<noteq> []"
      then have "q \<in> set (q2 # qs)" using r(3) Cons cur x(2) last_in_set [of zs] by auto
      with ch show False by (simp add: arena_chain_def)
    qed
    with Cons x show ?thesis by simp
  qed (use r(3) in simp)
  moreover have "q2 \<in> dom (blocks a)" "q2 \<noteq> q" using ch chain_dom [of "blocks a"] by (fastforce simp: arena_chain_def)+
  moreover from this have "q2 \<noteq> r" using r(1) by auto
  ultimately show ?thesis using destroy_chain [OF r(4)] r(5) by (auto simp: restrict_map_def dom_def)
qed

definition two_blocks :: ArenaAllocator where
  "two_blocks = \<lparr> current_ptr = 4128, end_ptr = 5152, head = 4096, first_block = 4096, block_size = 1024,
     total_allocated = 2048,
     blocks = [4096 \<mapsto> \<lparr> next_block = 8192, block_bytes = 1024, used = 0 \<rparr>,
               8192 \<mapsto> \<lparr> next_block = 0, block_bytes = 1024, used = 0 \<rparr>] \<rparr>"

definition high_malloc :: "size_t \<Rightarrow> (size_t \<rightharpoonup> Block) \<Rightarrow> size_t" where
  "high_malloc n h = (if n \<le> 65536 \<and> (\<forall>p b. h p = Some b \<longrightarrow> unat p \<le> 8192 \<and> unat (block_bytes b) \<le> 1024)
     then 16384 else 0)"

lemma high_malloc_ok: "malloc_ok high_malloc"
  by (fastforce simp: malloc_ok_def high_malloc_def word_le_nat_alt block_span_def split: if_splits)

lemma two_blocks_chain: "arena_chain two_blocks [4096, 8192]"
  by (simp add: arena_chain_def two_blocks_def)

lemma two_blocks_inv: "arena_inv two_blocks"
proof -
  have "heap_ok (blocks two_blocks)" "bump_ok two_blocks"
    by (auto simp: two_blocks_def heap_ok_def bump_ok_def block_span_def split: if_splits)
  then show ?thesis using two_blocks_chain by (auto simp: arena_inv_def two_blocks_def)
qed

lemma two_blocks_slow: "\<exists>p a'. allocate_slow high_malloc 2000 16 two_blocks = Returned (p, a')"
proof -
  define S where "S = max (block_size two_blocks) (2000 + 16)"
  define r where "r = high_malloc (SIZEOF_BLOCK + S - 1) (freeze two_blocks)"
  have "S = 2016" by (simp add: S_def two_blocks_def)
  then have r: "r = 16384"
    by (simp add: r_def high_malloc_def SIZEOF_BLOCK_def freeze_def two_blocks_def update_block_def)
  then have "blocks two_blocks r = None" by (simp add: two_blocks_def)
  from allocate_slow_eq [where malloc = high_malloc, OF two_blocks_inv S_def r_def this] r show ?thesis by simp
qed

theorem arena_reset_leaks_witness:
  "\<exists>p a' h. allocate_slow high_malloc 2000 16 two_blocks = Returned (p, a') \<and> arena_destroy a' = Some h \<and> 8192 \<in> dom h"
proof -
  obtain p a' where "allocate_slow high_malloc 2000 16 two_blocks = Returned (p, a')" using two_blocks_slow by blast
  with arena_reset_leaks [OF two_blocks_inv two_blocks_chain _ high_malloc_ok _ this] show ?thesis
    by (auto simp: two_blocks_def)
qed

text \<open>
  On a fresh arena the sum of size and alignment wraps: a request for almost the whole address space
  passes both assertions and returns a block of the default size.
\<close>

lemma arena_size_wraps:
  "\<exists>a'. arena_allocate small_malloc (- 1) 16 (arena_new 1024) = Returned (4128, a') \<and> blocks a' 4096 =
     Some \<lparr> next_block = 0, block_bytes = 1024, used = 0 \<rparr>"
  by (simp add: arena_allocate_def allocate_slow_def allocate_block_def small_malloc_def arena_new_def Let_def
      align_up_def data_of_def SIZEOF_BLOCK_def)

end
