(* ===== verification/Text.thy ===== *)
theory Text
  imports Prelude
begin

text \<open>
  The string functions of the standard library that the configuration parsers use:
  \<^verbatim>\<open>std::getline\<close>, the \<^verbatim>\<open>find_first_not_of\<close>/\<^verbatim>\<open>find_last_not_of\<close> trimming idiom, \<^verbatim>\<open>std::stoi\<close>,
  \<^verbatim>\<open>std::stoll\<close> and \<^verbatim>\<open>std::stoul\<close> with the two exceptions they throw, and \<^verbatim>\<open>std::to_string\<close>.
\<close>

section \<open>Lines and trimming\<close>

text \<open>The segments a loop over \<^verbatim>\<open>std::getline(stream, item, delim)\<close> sees: no empty last one.\<close>

function getlines :: "char \<Rightarrow> string \<Rightarrow> string list" where
  "getlines d s =
     (if s = [] then []
      else takeWhile (\<lambda>c. c \<noteq> d) s #
        (case dropWhile (\<lambda>c. c \<noteq> d) s of [] \<Rightarrow> [] | _ # r \<Rightarrow> getlines d r))"
  by pat_completeness auto
termination
proof (relation "measure (\<lambda>(d, s). length s)")
  fix d s x r
  assume "s \<noteq> []" "dropWhile (\<lambda>c. c \<noteq> d) s = x # r"
  then show "((d, r), d, s) \<in> measure (\<lambda>(d, s). length s)"
    using length_dropWhile_le [of "\<lambda>c. c \<noteq> d" s] by simp
qed simp

declare getlines.simps [simp del]

lemma getlines_Nil [simp]: "getlines d [] = []"
  by (simp add: getlines.simps)

lemma getlines_append:
  assumes "d \<notin> set l"
  shows "getlines d (l @ d # rest) = l # getlines d rest"
  using assms by (subst getlines.simps) (auto simp: takeWhile_append dropWhile_append)

lemma getlines_last:
  assumes "d \<notin> set l" and "l \<noteq> []"
  shows "getlines d l = [l]"
proof -
  have tw: "takeWhile (\<lambda>c. c \<noteq> d) l = l" and dw: "dropWhile (\<lambda>c. c \<noteq> d) l = []"
    using assms(1) by (auto simp: takeWhile_eq_all_conv dropWhile_eq_Nil_conv)
  show ?thesis using assms(2) by (subst getlines.simps) (simp add: tw dw)
qed

definition trim_chars :: "(char \<Rightarrow> bool) \<Rightarrow> string \<Rightarrow> string" where
  "trim_chars ws s = rev (dropWhile ws (rev (dropWhile ws s)))"

definition trimmed :: "(char \<Rightarrow> bool) \<Rightarrow> string \<Rightarrow> bool" where
  "trimmed ws s \<longleftrightarrow> s = [] \<or> (\<not> ws (hd s) \<and> \<not> ws (last s))"

lemma dropWhile_id: "xs \<noteq> [] \<Longrightarrow> \<not> P (hd xs) \<Longrightarrow> dropWhile P xs = xs"
  by (cases xs) auto

lemma last_dropWhile_eq: "dropWhile P xs \<noteq> [] \<Longrightarrow> last (dropWhile P xs) = last xs"
  by (metis last_appendR takeWhile_dropWhile_id)

lemma trim_trimmed [simp]: "trimmed ws s \<Longrightarrow> trim_chars ws s = s"
  by (cases "s = []") (simp_all add: trim_chars_def trimmed_def dropWhile_id hd_rev)

lemma trimmed_trim: "trimmed ws (trim_chars ws s)"
proof -
  let ?t = "dropWhile ws (rev (dropWhile ws s))"
  have first: "\<not> ws (hd ?t)" if "?t \<noteq> []" using that by (rule hd_dropWhile)
  have "\<not> ws (last ?t)" if ne: "?t \<noteq> []"
  proof -
    have "dropWhile ws s \<noteq> []"
    proof
      assume e: "dropWhile ws s = []"
      show False using ne unfolding e by simp
    qed
    then have "last (rev (dropWhile ws s)) = hd (dropWhile ws s)" "\<not> ws (hd (dropWhile ws s))"
      by (simp_all only: last_rev) (rule hd_dropWhile)
    with last_dropWhile_eq [OF ne] show ?thesis by simp
  qed
  with first show ?thesis by (auto simp: trimmed_def trim_chars_def hd_rev last_rev)
qed

section \<open>Numbers\<close>

datatype conv_error = Invalid_Argument | Out_Of_Range

definition is_space :: "char \<Rightarrow> bool" where
  "is_space c \<longleftrightarrow> c = CHR '' '' \<or> (9 \<le> (of_char c :: nat) \<and> (of_char c :: nat) \<le> 13)"

definition is_digit :: "char \<Rightarrow> bool" where
  "is_digit c \<longleftrightarrow> 48 \<le> (of_char c :: nat) \<and> (of_char c :: nat) \<le> 57"

definition digit_value :: "char \<Rightarrow> nat" where "digit_value c = of_char c - 48"

definition digits_value :: "string \<Rightarrow> nat" where
  "digits_value ds = foldl (\<lambda>n c. 10 * n + digit_value c) 0 ds"

text \<open>Sign and magnitude as \<^verbatim>\<open>strtol\<close> reads them; characters after the digits are ignored.\<close>

definition parse_number :: "string \<Rightarrow> conv_error + bool \<times> nat" where
  "parse_number s =
     (let s1 = dropWhile is_space s;
          neg = (s1 \<noteq> [] \<and> hd s1 = CHR ''-'');
          s2 = (if s1 \<noteq> [] \<and> (hd s1 = CHR ''-'' \<or> hd s1 = CHR ''+'') then tl s1 else s1);
          ds = takeWhile is_digit s2 in
      if ds = [] then Inl Invalid_Argument else Inr (neg, digits_value ds))"

definition signed_value :: "bool \<times> nat \<Rightarrow> int" where
  "signed_value = (\<lambda>(neg, n). if neg then - int n else int n)"

definition stoll :: "string \<Rightarrow> conv_error + int" where
  "stoll s = (case parse_number s of
     Inl e \<Rightarrow> Inl e
   | Inr p \<Rightarrow> if - (2 ^ 63) \<le> signed_value p \<and> signed_value p < 2 ^ 63 then Inr (signed_value p) else Inl Out_Of_Range)"

definition stoi :: "string \<Rightarrow> conv_error + int" where
  "stoi s = (case parse_number s of
     Inl e \<Rightarrow> Inl e
   | Inr p \<Rightarrow> if - (2 ^ 31) \<le> signed_value p \<and> signed_value p < 2 ^ 31 then Inr (signed_value p) else Inl Out_Of_Range)"

definition stoul :: "string \<Rightarrow> conv_error + u64" where
  "stoul s = (case parse_number s of
     Inl e \<Rightarrow> Inl e
   | Inr (neg, n) \<Rightarrow> if n < 2 ^ 64 then Inr (if neg then - of_nat n else of_nat n) else Inl Out_Of_Range)"

fun nat_to_string :: "nat \<Rightarrow> string" where
  "nat_to_string n =
     (if n < 10 then [char_of (48 + n)] else nat_to_string (n div 10) @ [char_of (48 + n mod 10)])"

declare nat_to_string.simps [simp del]

definition int_to_string :: "int \<Rightarrow> string" where
  "int_to_string i = (if i < 0 then CHR ''-'' # nat_to_string (nat (- i)) else nat_to_string (nat i))"

lemma of_char_digit: "d < 10 \<Longrightarrow> (of_char (char_of (48 + d :: nat)) :: nat) = 48 + d"
  by (simp add: of_char_of)

lemma digit_char:
  assumes "d < 10"
  shows "is_digit (char_of (48 + d :: nat))" "digit_value (char_of (48 + d :: nat)) = d"
  using of_char_digit [OF assms] assms by (simp_all add: is_digit_def digit_value_def)

lemma nat_to_string_digits: "nat_to_string n \<noteq> [] \<and> list_all is_digit (nat_to_string n)"
proof (induction n rule: nat_to_string.induct)
  case (1 n)
  then show ?case by (simp add: nat_to_string.simps [of n] digit_char)
qed

lemma digits_value_snoc: "digits_value (ds @ [c]) = 10 * digits_value ds + digit_value c"
  by (simp add: digits_value_def)

lemma digits_value_nat: "digits_value (nat_to_string n) = n"
proof (induction n rule: nat_to_string.induct)
  case (1 n)
  show ?case
  proof (cases "n < 10")
    case True
    then show ?thesis by (simp add: nat_to_string.simps [of n] digits_value_def digit_char)
  next
    case False
    then show ?thesis using 1 by (simp add: nat_to_string.simps [of n] digits_value_snoc digit_char)
  qed
qed

lemma digit_not_special:
  assumes "is_digit c"
  shows "\<not> is_space c" "c \<noteq> CHR ''-''" "c \<noteq> CHR ''+''" "c \<noteq> CHR '',''" "c \<noteq> CHR ''=''" "c \<noteq> CHR ''#''"
  using assms by (auto simp: is_digit_def is_space_def)

lemma parse_digits:
  assumes "ds \<noteq> []" and "list_all is_digit ds"
  shows "parse_number ds = Inr (False, digits_value ds)" "parse_number (CHR ''-'' # ds) = Inr (True, digits_value ds)"
proof -
  have tw: "takeWhile is_digit ds = ds" using assms(2) by (simp add: list_all_iff takeWhile_eq_all_conv)
  have h: "is_digit (hd ds)" using assms by (cases ds) auto
  have dw: "dropWhile is_space ds = ds" using assms(1) digit_not_special(1) [OF h] by (rule dropWhile_id)
  show "parse_number ds = Inr (False, digits_value ds)"
    using digit_not_special(2,3) [OF h] assms(1) by (simp add: parse_number_def Let_def dw tw)
  show "parse_number (CHR ''-'' # ds) = Inr (True, digits_value ds)"
    using assms(1) by (simp add: parse_number_def Let_def is_space_def tw)
qed

lemma parse_int_to_string:
  "\<exists>p. parse_number (int_to_string i) = Inr p \<and> signed_value p = i"
  using parse_digits [of "nat_to_string (nat \<bar>i\<bar>)"] nat_to_string_digits [of "nat \<bar>i\<bar>"]
  by (cases "i < 0") (simp_all add: int_to_string_def signed_value_def digits_value_nat)

lemma stoi_int_to_string: "- (2 ^ 31) \<le> i \<Longrightarrow> i < 2 ^ 31 \<Longrightarrow> stoi (int_to_string i) = Inr i"
  using parse_int_to_string [of i] by (auto simp: stoi_def)

lemma stoll_int_to_string: "- (2 ^ 63) \<le> i \<Longrightarrow> i < 2 ^ 63 \<Longrightarrow> stoll (int_to_string i) = Inr i"
  using parse_int_to_string [of i] by (auto simp: stoll_def)

end
