(* ===== verification/Model_Config.thy ===== *)
theory Model_Config
  imports Text
begin

text \<open>
  \<^verbatim>\<open>model/model_config.hpp\<close> and \<^verbatim>\<open>.cpp\<close>: the \<^verbatim>\<open>config.ini\<close> parser and the search for the model
  file, and \<^verbatim>\<open>RuntimeConfig::from_file\<close> of \<^verbatim>\<open>inference/runtime.cpp\<close>. A directory is a tree whose entries
  are listed in the order in which \<^verbatim>\<open>directory_iterator\<close> yields them. The conversions throw, and nothing
  in \<^verbatim>\<open>from_dir\<close> catches them while it reads the file, so the result is a sum.
\<close>

section \<open>Data\<close>

datatype BackendKind = TorchScript | Onnx
datatype DeviceKind = Cpu | Cuda

record ModelConfig =
  name :: string
  backend :: BackendKind
  version :: int
  device :: DeviceKind
  max_batch_size :: u64
  max_batch_delay_us :: int
  input_shape :: "int list"
  model_file_path :: string

definition default_config :: ModelConfig where
  "default_config = \<lparr> name = [], backend = TorchScript, version = 1, device = Cpu, max_batch_size = 4,
     max_batch_delay_us = 1000, input_shape = [], model_file_path = [] \<rparr>"

definition model_id :: "ModelConfig \<Rightarrow> string" where "model_id cfg = name cfg"

datatype node = File string | Dir "(string \<times> node) list"

datatype cfg_error = Bad_Number conv_error | Filesystem_Error

definition newline :: char where "newline = CHR 0x0A"

text \<open>\<^verbatim>\<open>fs::path::operator/\<close> and \<^verbatim>\<open>filename\<close>.\<close>

definition join :: "string \<Rightarrow> string \<Rightarrow> string" where
  "join dir n = (if dir = [] \<or> last dir = CHR ''/'' then dir @ n else dir @ CHR ''/'' # n)"

definition filename :: "string \<Rightarrow> string" where
  "filename p = rev (takeWhile (\<lambda>c. c \<noteq> CHR ''/'') (rev p))"

fun entries :: "node option \<Rightarrow> (string \<times> node) list option" where
  "entries (Some (Dir es)) = Some es"
| "entries _ = None"

section \<open>Parsing\<close>

definition ws :: "char \<Rightarrow> bool" where
  "ws c \<longleftrightarrow> c \<in> {CHR '' '', CHR 0x09, CHR 0x0D, CHR 0x0A}"

definition trim :: "string \<Rightarrow> string" where "trim s = trim_chars ws s"

fun parse_items :: "string list \<Rightarrow> conv_error + int list" where
  "parse_items [] = Inr []"
| "parse_items (item # items) =
     (let t = trim item in
      if t = [] then parse_items items
      else case stoll t of
          Inl e \<Rightarrow> Inl e
        | Inr v \<Rightarrow> (case parse_items items of Inl e \<Rightarrow> Inl e | Inr vs \<Rightarrow> Inr (v # vs)))"

definition parse_shape :: "string \<Rightarrow> conv_error + int list" where
  "parse_shape val = parse_items (getlines (CHR '','') val)"

definition parse_backend :: "string \<Rightarrow> BackendKind" where
  "parse_backend val =
     (if val = ''torchscript'' \<or> val = ''torch'' then TorchScript
      else if val = ''onnx'' then Onnx else TorchScript)"

definition apply_setting :: "string \<Rightarrow> string \<Rightarrow> ModelConfig \<Rightarrow> conv_error + ModelConfig" where
  "apply_setting key val cfg =
     (if key = ''name'' then Inr (cfg\<lparr> name := val \<rparr>)
      else if key = ''backend'' then Inr (cfg\<lparr> backend := parse_backend val \<rparr>)
      else if key = ''version'' then map_sum id (\<lambda>v. cfg\<lparr> version := v \<rparr>) (stoi val)
      else if key = ''device'' then Inr (cfg\<lparr> device := (if val = ''cuda'' then Cuda else Cpu) \<rparr>)
      else if key = ''max_batch_size'' then map_sum id (\<lambda>v. cfg\<lparr> max_batch_size := v \<rparr>) (stoul val)
      else if key = ''max_batch_delay_us'' then map_sum id (\<lambda>v. cfg\<lparr> max_batch_delay_us := v \<rparr>) (stoll val)
      else if key = ''input_shape'' then map_sum id (\<lambda>v. cfg\<lparr> input_shape := v \<rparr>) (parse_shape val)
      else Inr cfg)"

definition config_line :: "string \<Rightarrow> ModelConfig \<Rightarrow> conv_error + ModelConfig" where
  "config_line raw cfg =
     (let line = trim raw in
      if line = [] \<or> hd line = CHR ''#'' then Inr cfg
      else if CHR ''='' \<notin> set line then Inr cfg
      else
        let key = trim (takeWhile (\<lambda>c. c \<noteq> CHR ''='') line);
            val = trim (tl (dropWhile (\<lambda>c. c \<noteq> CHR ''='') line)) in
        apply_setting key val cfg)"

fun config_lines :: "string list \<Rightarrow> ModelConfig \<Rightarrow> conv_error + ModelConfig" where
  "config_lines [] cfg = Inr cfg"
| "config_lines (l # ls) cfg = (case config_line l cfg of Inl e \<Rightarrow> Inl e | Inr cfg' \<Rightarrow> config_lines ls cfg')"

section \<open>Finding the model file\<close>

definition candidates :: "string list" where
  "candidates = [''model.pt'', ''model.pth'', ''model.onnx'', ''model.engine'', ''model.bin'']"

definition find_model_file :: "string \<Rightarrow> (string \<times> node) list \<Rightarrow> string" where
  "find_model_file version_dir es =
     (case find (\<lambda>n. map_of es n \<noteq> None) candidates of None \<Rightarrow> [] | Some n \<Rightarrow> join version_dir n)"

fun scan_versions :: "string \<Rightarrow> (string \<times> node) list \<Rightarrow> int \<Rightarrow> ModelConfig \<Rightarrow> ModelConfig" where
  "scan_versions dir [] best cfg = cfg"
| "scan_versions dir ((n, File c) # es) best cfg = scan_versions dir es best cfg"
| "scan_versions dir ((n, Dir sub) # es) best cfg =
     (case stoi n of
        Inl _ \<Rightarrow> scan_versions dir es best cfg
      | Inr v \<Rightarrow>
          (let candidate = find_model_file (join dir n) sub in
           if v > best \<and> candidate \<noteq> []
           then scan_versions dir es v (cfg\<lparr> version := v, model_file_path := candidate \<rparr>)
           else scan_versions dir es best cfg))"

definition read_config :: "(string \<times> node) list \<Rightarrow> ModelConfig \<Rightarrow> conv_error + ModelConfig" where
  "read_config es cfg =
     (case map_of es ''config.ini'' of
        Some (File content) \<Rightarrow> config_lines (getlines newline content) cfg
      | _ \<Rightarrow> Inr cfg)"

text \<open>\<open>root\<close> is what the path denotes; iterating over something that is no directory throws.\<close>

definition resolve_version :: "string \<Rightarrow> (string \<times> node) list \<Rightarrow> ModelConfig \<Rightarrow> ModelConfig" where
  "resolve_version dir es cfg =
     (case entries (map_of es (int_to_string (version cfg))) of
        Some sub \<Rightarrow> cfg\<lparr> model_file_path := find_model_file (join dir (int_to_string (version cfg))) sub \<rparr>
      | None \<Rightarrow> cfg)"

definition from_dir :: "string \<Rightarrow> node option \<Rightarrow> cfg_error + ModelConfig" where
  "from_dir model_dir root =
     (let es = (case entries root of Some es \<Rightarrow> es | None \<Rightarrow> []) in
      case read_config es (default_config\<lparr> name := filename model_dir \<rparr>) of
        Inl e \<Rightarrow> Inl (Bad_Number e)
      | Inr cfg \<Rightarrow>
          let cfg' = resolve_version model_dir es cfg in
          if model_file_path cfg' \<noteq> [] then Inr cfg'
          else if entries root = None then Inl Filesystem_Error
          else Inr (scan_versions model_dir es (- 1) cfg'))"

text \<open>\<^verbatim>\<open>RuntimeConfig::from_file\<close>: the same format with one setting; no trimming of the line itself.\<close>

definition ws_runtime :: "char \<Rightarrow> bool" where
  "ws_runtime c \<longleftrightarrow> c \<in> {CHR '' '', CHR 0x09, CHR 0x0D}"

definition runtime_line :: "string \<Rightarrow> u64 \<Rightarrow> conv_error + u64" where
  "runtime_line line worker_threads =
     (if line = [] \<or> hd line = CHR ''#'' then Inr worker_threads
      else if CHR ''='' \<notin> set line then Inr worker_threads
      else
        let key = trim_chars ws_runtime (takeWhile (\<lambda>c. c \<noteq> CHR ''='') line);
            val = trim_chars ws_runtime (tl (dropWhile (\<lambda>c. c \<noteq> CHR ''='') line)) in
        if key = ''worker_threads'' then stoul val else Inr worker_threads)"

fun runtime_lines :: "string list \<Rightarrow> u64 \<Rightarrow> conv_error + u64" where
  "runtime_lines [] n = Inr n"
| "runtime_lines (l # ls) n = (case runtime_line l n of Inl e \<Rightarrow> Inl e | Inr n' \<Rightarrow> runtime_lines ls n')"

definition runtime_from_file :: "string option \<Rightarrow> conv_error + u64" where
  "runtime_from_file content =
     (case content of None \<Rightarrow> Inr 1 | Some s \<Rightarrow> runtime_lines (getlines newline s) 1)"

section \<open>The chosen file exists\<close>

lemma find_SomeD: "find P xs = Some x \<Longrightarrow> x \<in> set xs \<and> P x"
  by (induction xs) (auto split: if_splits)

lemma find_model_file_some:
  assumes "find_model_file d es \<noteq> []"
  shows "\<exists>n \<in> set candidates. map_of es n \<noteq> None \<and> find_model_file d es = join d n"
proof -
  from assms obtain n where n: "find (\<lambda>n. map_of es n \<noteq> None) candidates = Some n"
    by (cases "find (\<lambda>n. map_of es n \<noteq> None) candidates") (simp_all add: find_model_file_def)
  then show ?thesis using find_SomeD [OF n] by (intro bexI [of _ n]) (simp_all add: find_model_file_def)
qed

definition has_model :: "string \<Rightarrow> (string \<times> node) list \<Rightarrow> int \<Rightarrow> string \<Rightarrow> bool" where
  "has_model dir es v path \<longleftrightarrow> (\<exists>n sub. (n, Dir sub) \<in> set es \<and> stoi n = Inr v \<and>
     path = find_model_file (join dir n) sub \<and> path \<noteq> [])"

lemma has_model_Cons:
  "has_model dir ((n, File c) # es) v p = has_model dir es v p"
  "has_model dir ((n, Dir sub) # es) v p \<longleftrightarrow>
     (stoi n = Inr v \<and> p = find_model_file (join dir n) sub \<and> p \<noteq> []) \<or> has_model dir es v p"
  by (auto simp: has_model_def)

lemma scan_versions_spec:
  "(scan_versions dir es best cfg = cfg \<and> (\<forall>v p. has_model dir es v p \<longrightarrow> v \<le> best)) \<or>
   (best < version (scan_versions dir es best cfg) \<and>
    has_model dir es (version (scan_versions dir es best cfg)) (model_file_path (scan_versions dir es best cfg)) \<and>
    (\<forall>v p. has_model dir es v p \<longrightarrow> v \<le> version (scan_versions dir es best cfg)))"
proof (induction dir es best cfg rule: scan_versions.induct)
  case (1 dir best cfg)
  then show ?case by (simp add: has_model_def)
next
  case (2 dir n c es best cfg)
  then show ?case by (simp add: has_model_Cons)
next
  case (3 dir n sub es best cfg)
  let ?cand = "find_model_file (join dir n) sub"
  show ?case
  proof (cases "stoi n")
    case (Inl e)
    then show ?thesis using "3.IH"(1) [OF Inl] by (simp add: has_model_Cons)
  next
    case (Inr v)
    let ?cfg = "cfg\<lparr> version := v, model_file_path := ?cand \<rparr>"
    show ?thesis
    proof (cases "v > best \<and> ?cand \<noteq> []")
      case True
      have step: "scan_versions dir ((n, Dir sub) # es) best cfg = scan_versions dir es v ?cfg"
        using Inr True by (simp add: Let_def)
      show ?thesis
        using "3.IH"(2) [OF Inr refl True] True Inr unfolding step has_model_Cons
        by (elim disjE conjE) (auto simp: dest: less_imp_le order_trans)
    next
      case False
      have step: "scan_versions dir ((n, Dir sub) # es) best cfg = scan_versions dir es best cfg"
        using Inr False by (auto simp: Let_def)
      have h: "v' \<le> best" if "stoi n = Inr v'" "?cand \<noteq> []" for v' using False Inr that by auto
      from "3.IH"(3) [OF Inr refl False] show ?thesis
      proof (elim disjE conjE)
        assume "scan_versions dir es best cfg = cfg" "\<forall>v p. has_model dir es v p \<longrightarrow> v \<le> best"
        then show ?thesis unfolding step has_model_Cons using h by (intro disjI1 conjI allI impI) blast+
      next
        assume "best < version (scan_versions dir es best cfg)"
          "has_model dir es (version (scan_versions dir es best cfg)) (model_file_path (scan_versions dir es best cfg))"
          "\<forall>v p. has_model dir es v p \<longrightarrow> v \<le> version (scan_versions dir es best cfg)"
        then show ?thesis unfolding step has_model_Cons using h
          by (intro disjI2 conjI allI impI) (blast, blast, metis less_imp_le order_trans)
      qed
    qed
  qed
qed

text \<open>The settings never touch the path of the model file.\<close>

lemma apply_setting_path: "apply_setting k v cfg = Inr cfg' \<Longrightarrow> model_file_path cfg' = model_file_path cfg"
  by (auto simp: apply_setting_def map_sum_def split: if_splits sum.splits)

lemma config_lines_path: "config_lines ls cfg = Inr cfg' \<Longrightarrow> model_file_path cfg' = model_file_path cfg"
proof (induction ls arbitrary: cfg)
  case (Cons l ls)
  then obtain c1 where c1: "config_line l cfg = Inr c1" "config_lines ls c1 = Inr cfg'"
    by (auto split: sum.splits)
  then have "model_file_path c1 = model_file_path cfg"
    using apply_setting_path by (auto simp: config_line_def Let_def split: if_splits)
  with Cons.IH [OF c1(2)] show ?case by simp
qed simp

lemma read_config_path: "read_config es cfg = Inr cfg' \<Longrightarrow> model_file_path cfg' = model_file_path cfg"
  using config_lines_path by (auto simp: read_config_def split: option.splits node.splits)

lemma entries_Some: "entries r = Some es \<longleftrightarrow> r = Some (Dir es)"
  by (cases r rule: entries.cases) auto

lemma resolve_version_file:
  assumes path0: "model_file_path cfg0 = []" and False: "model_file_path (resolve_version model_dir es cfg0) \<noteq> []"
  shows "\<exists>n sub c. (n, Dir sub) \<in> set es \<and> n = int_to_string (version (resolve_version model_dir es cfg0)) \<and>
    c \<in> set candidates \<and> map_of sub c \<noteq> None \<and> model_file_path (resolve_version model_dir es cfg0) = join (join model_dir n) c"
proof -
  let ?n = "int_to_string (version cfg0)"
  obtain sub where sub: "entries (map_of es ?n) = Some sub"
    using assms by (cases "entries (map_of es ?n)") (simp_all add: resolve_version_def)
  then have r: "resolve_version model_dir es cfg0 = cfg0\<lparr> model_file_path := find_model_file (join model_dir ?n) sub \<rparr>"
    by (simp add: resolve_version_def)
  have "(?n, Dir sub) \<in> set es" using sub by (simp add: entries_Some map_of_SomeD)
  moreover have "find_model_file (join model_dir ?n) sub \<noteq> []" using False r by simp
  from find_model_file_some [OF this] obtain c where
    "c \<in> set candidates" "map_of sub c \<noteq> None" "find_model_file (join model_dir ?n) sub = join (join model_dir ?n) c" by blast
  ultimately show ?thesis unfolding r by (intro exI [of _ ?n] exI [of _ sub] exI [of _ c]) simp
qed

text \<open>
  When \<^verbatim>\<open>ModelConfig::from_dir\<close> returns with a model file, that file exists: it is one of the candidate
  names inside a subdirectory of the model directory, either the one named by the configured
  version or one whose name parses as the version returned; and when the configured version has no
  model file, the version returned is the highest one that has.
\<close>

theorem from_dir_model_file:
  assumes "from_dir model_dir (Some (Dir es)) = Inr cfg"
  shows "(model_file_path cfg \<noteq> [] \<longrightarrow>
      (\<exists>n sub c. (n, Dir sub) \<in> set es \<and> (n = int_to_string (version cfg) \<or> stoi n = Inr (version cfg)) \<and>
        c \<in> set candidates \<and> map_of sub c \<noteq> None \<and> model_file_path cfg = join (join model_dir n) c)) \<and>
    (\<forall>cfg0 v p. read_config es (default_config\<lparr> name := filename model_dir \<rparr>) = Inr cfg0 \<and>
      model_file_path (resolve_version model_dir es cfg0) = [] \<and> has_model model_dir es v p \<and> 0 \<le> v \<longrightarrow>
      v \<le> version cfg \<and> has_model model_dir es (version cfg) (model_file_path cfg))"
proof -
  from assms obtain cfg0 where cfg0: "read_config es (default_config\<lparr> name := filename model_dir \<rparr>) = Inr cfg0"
    by (auto simp: from_dir_def split: sum.splits)
  let ?r = "resolve_version model_dir es cfg0"
  have path0: "model_file_path cfg0 = []" using read_config_path [OF cfg0] by (simp add: default_config_def)
  show ?thesis
  proof (cases "model_file_path ?r = []")
    case False
    then have cfg: "cfg = ?r" using assms cfg0 by (simp add: from_dir_def Let_def)
    have "\<exists>n sub c. (n, Dir sub) \<in> set es \<and> n = int_to_string (version cfg) \<and>
        c \<in> set candidates \<and> map_of sub c \<noteq> None \<and> model_file_path cfg = join (join model_dir n) c"
      unfolding cfg by (rule resolve_version_file [OF path0 False])
    moreover have "cfg0 = cfg1" if "read_config es (default_config\<lparr> name := filename model_dir \<rparr>) = Inr cfg1" for cfg1
      using that cfg0 by simp
    ultimately show ?thesis using False by blast
  next
    case True
    then have cfg: "cfg = scan_versions model_dir es (- 1) ?r" using assms cfg0 by (simp add: from_dir_def Let_def)
    have spec: "cfg = ?r \<and> (\<forall>v p. has_model model_dir es v p \<longrightarrow> v \<le> - 1) \<or>
      has_model model_dir es (version cfg) (model_file_path cfg) \<and> (\<forall>v p. has_model model_dir es v p \<longrightarrow> v \<le> version cfg)"
      using scan_versions_spec [of model_dir es "- 1" ?r] unfolding cfg by blast
    have ex: "\<exists>n sub c. (n, Dir sub) \<in> set es \<and> stoi n = Inr (version cfg) \<and> c \<in> set candidates \<and>
        map_of sub c \<noteq> None \<and> model_file_path cfg = join (join model_dir n) c"
      if "has_model model_dir es (version cfg) (model_file_path cfg)"
      using that find_model_file_some unfolding has_model_def by metis
    from spec show ?thesis
    proof (elim disjE conjE)
      assume "cfg = ?r" "\<forall>v p. has_model model_dir es v p \<longrightarrow> v \<le> - 1"
      then show ?thesis using True by fastforce
    next
      assume "has_model model_dir es (version cfg) (model_file_path cfg)"
        "\<forall>v p. has_model model_dir es v p \<longrightarrow> v \<le> version cfg"
      then show ?thesis using ex by blast
    qed
  qed
qed

definition sample_tree :: "(string \<times> node) list" where
  "sample_tree = [(''config.ini'', File ''version=2''), (''1'', Dir [(''model.pt'', File [])]), (''x'', File [])]"

lemma sample_from_dir:
  "from_dir ''m'' (Some (Dir sample_tree)) =
     Inr (default_config\<lparr> name := ''m'', version := 1, model_file_path := ''m/1/model.pt'' \<rparr>)"
  by code_simp

theorem from_dir_model_file_witness:
  "\<exists>n sub c. (n, Dir sub) \<in> set sample_tree \<and> c \<in> set candidates \<and> map_of sub c \<noteq> None \<and>
     ''m/1/model.pt'' = join (join ''m'' n) c"
  using from_dir_model_file [OF sample_from_dir] by auto

section \<open>Printing and reading back\<close>

fun commas :: "int list \<Rightarrow> string" where
  "commas [] = []"
| "commas [i] = int_to_string i"
| "commas (i # j # is) = int_to_string i @ CHR '','' # commas (j # is)"

definition backend_text :: "BackendKind \<Rightarrow> string" where
  "backend_text b = (case b of TorchScript \<Rightarrow> ''torchscript'' | Onnx \<Rightarrow> ''onnx'')"

definition device_text :: "DeviceKind \<Rightarrow> string" where
  "device_text d = (case d of Cpu \<Rightarrow> ''cpu'' | Cuda \<Rightarrow> ''cuda'')"

definition config_settings :: "ModelConfig \<Rightarrow> (string \<times> string) list" where
  "config_settings cfg =
     [(''name'', name cfg), (''backend'', backend_text (backend cfg)), (''version'', int_to_string (version cfg)),
      (''device'', device_text (device cfg)), (''max_batch_size'', nat_to_string (unat (max_batch_size cfg))),
      (''max_batch_delay_us'', int_to_string (max_batch_delay_us cfg)), (''input_shape'', commas (input_shape cfg))]"

definition config_text :: "ModelConfig \<Rightarrow> string" where
  "config_text cfg = concat (map (\<lambda>(k, v). k @ CHR ''='' # v @ [newline]) (config_settings cfg))"

definition plain :: "string \<Rightarrow> bool" where "plain s \<longleftrightarrow> (\<forall>c \<in> set s. \<not> ws c)"

lemma plain_trimmed: "plain s \<Longrightarrow> trimmed ws s"
  by (cases s) (auto simp: plain_def trimmed_def)

lemma digit_plain: "is_digit c \<Longrightarrow> \<not> ws c"
  by (auto simp: is_digit_def ws_def)

lemma no_ws: "\<not> ws (CHR ''-'')" "\<not> ws (CHR '','')"
  by (simp_all add: ws_def)

lemma plain_append: "plain (a @ b) \<longleftrightarrow> plain a \<and> plain b" "plain (c # b) \<longleftrightarrow> \<not> ws c \<and> plain b" "plain []"
  by (auto simp: plain_def)

lemma plain_int: "plain (int_to_string i)" "CHR '','' \<notin> set (int_to_string i)" "int_to_string i \<noteq> []"
  and plain_nat: "plain (nat_to_string n)"
proof -
  have d: "is_digit c" if "c \<in> set (nat_to_string m)" for c m
    using that nat_to_string_digits [of m] by (auto simp: list_all_iff)
  then show "plain (nat_to_string n)" using digit_plain by (auto simp: plain_def)
  have c: "is_digit c \<or> c = CHR ''-''" if "c \<in> set (int_to_string i)" for c
    using that d by (auto simp: int_to_string_def split: if_splits)
  show "plain (int_to_string i)" unfolding plain_def using c digit_plain no_ws(1) by blast
  show "CHR '','' \<notin> set (int_to_string i)" using c [of "CHR '',''"] digit_not_special(4) by auto
  show "int_to_string i \<noteq> []" using nat_to_string_digits by (simp add: int_to_string_def)
qed

lemma plain_commas: "plain (commas is)"
  by (induction "is" rule: commas.induct) (simp_all add: plain_append plain_int(1) no_ws)

lemma parse_shape_commas:
  assumes "\<forall>i \<in> set is. - (2 ^ 63) \<le> i \<and> i < 2 ^ 63"
  shows "parse_shape (commas is) = Inr is"
proof -
  have item: "trim (int_to_string i) = int_to_string i" for i
    unfolding trim_def by (rule trim_trimmed [OF plain_trimmed [OF plain_int(1)]])
  have "getlines (CHR '','') (commas is) = map int_to_string is"
  proof (induction "is" rule: commas.induct)
    case (2 i)
    then show ?case using getlines_last [OF plain_int(2,3)] by simp
  next
    case (3 i j js)
    then show ?case using getlines_append [OF plain_int(2), of i "commas (j # js)"] by simp
  qed simp
  moreover have "parse_items (map int_to_string is) = Inr is"
    using assms
  proof (induction "is")
    case (Cons i js)
    then have "stoll (int_to_string i) = Inr i" by (intro stoll_int_to_string) auto
    with Cons show ?case by (simp add: item plain_int(3) Let_def)
  qed simp
  ultimately show ?thesis by (simp add: parse_shape_def)
qed

lemma stoul_nat_to_string: "n < 2 ^ 64 \<Longrightarrow> stoul (nat_to_string n) = Inr (of_nat n)"
  using parse_digits(1) [of "nat_to_string n"] nat_to_string_digits [of n]
  by (simp add: stoul_def digits_value_nat)

lemma config_line_setting:
  assumes key: "key \<noteq> []" "plain key" "CHR ''='' \<notin> set key" "hd key \<noteq> CHR ''#''" and val: "trimmed ws val"
  shows "config_line (key @ CHR ''='' # val) cfg = apply_setting key val cfg"
proof -
  have tl: "trimmed ws (key @ CHR ''='' # val)"
  proof -
    have "\<not> ws (hd (key @ CHR ''='' # val))" using key(1,2) by (cases key) (auto simp: plain_def)
    moreover have "\<not> ws (last (key @ CHR ''='' # val))" using val by (auto simp: trimmed_def ws_def)
    ultimately show ?thesis by (simp add: trimmed_def)
  qed
  have "takeWhile (\<lambda>c. c \<noteq> CHR ''='') (key @ CHR ''='' # val) = key"
    "dropWhile (\<lambda>c. c \<noteq> CHR ''='') (key @ CHR ''='' # val) = CHR ''='' # val"
    using key(3) by (auto simp: takeWhile_append dropWhile_append)
  then show ?thesis
    using key val plain_trimmed [OF key(2)] unfolding config_line_def trim_def trim_trimmed [OF tl]
    by (simp add: Let_def)
qed

lemma getlines_settings:
  assumes "\<forall>(k, v) \<in> set kvs. newline \<notin> set k \<and> newline \<notin> set v"
  shows "getlines newline (concat (map (\<lambda>(k, v). k @ CHR ''='' # v @ [newline]) kvs)) =
    map (\<lambda>(k, v). k @ CHR ''='' # v) kvs"
  using assms
proof (induction kvs)
  case (Cons kv kvs)
  obtain k v where kv: "kv = (k, v)" by (cases kv)
  let ?rest = "concat (map (\<lambda>(k, v). k @ CHR ''='' # v @ [newline]) kvs)"
  have "newline \<notin> set (k @ CHR ''='' # v)" using Cons.prems by (auto simp: kv newline_def)
  from getlines_append [OF this, of ?rest] Cons show ?case by (simp add: kv)
qed simp

lemma config_lines_settings:
  assumes "\<forall>(k, v) \<in> set kvs. k \<noteq> [] \<and> plain k \<and> CHR ''='' \<notin> set k \<and> hd k \<noteq> CHR ''#'' \<and> trimmed ws v"
  shows "config_lines (map (\<lambda>(k, v). k @ CHR ''='' # v) kvs) cfg =
    fold (\<lambda>(k, v) r. case r of Inl e \<Rightarrow> Inl e | Inr c \<Rightarrow> apply_setting k v c) kvs (Inr cfg)"
  using assms
proof (induction kvs arbitrary: cfg)
  case (Cons kv kvs)
  obtain k v where kv: "kv = (k, v)" by (cases kv)
  have line: "config_line (k @ CHR ''='' # v) cfg = apply_setting k v cfg"
    using Cons.prems by (intro config_line_setting) (auto simp: kv)
  have err: "fold (\<lambda>(k, v) r. case r of Inl e \<Rightarrow> Inl e | Inr c \<Rightarrow> apply_setting k v c) kvs (Inl e) = Inl e" for e kvs
    by (induction kvs) auto
  show ?case
  proof (cases "apply_setting k v cfg")
    case (Inl e)
    then show ?thesis using line err by (simp add: kv)
  next
    case (Inr c)
    then show ?thesis using line Cons by (simp add: kv)
  qed
qed simp

text \<open>
  C30. Reading the printed form of a configuration gives the configuration back: every setting the parser
  knows survives the round trip through \<^verbatim>\<open>config.ini\<close>, provided the name is trimmed and
  has no line break and the numbers are in the range of their types.
\<close>

theorem config_roundtrip:
  assumes nm: "trimmed ws (name cfg)" "newline \<notin> set (name cfg)"
    and ver: "- (2 ^ 31) \<le> version cfg" "version cfg < 2 ^ 31"
    and del: "- (2 ^ 63) \<le> max_batch_delay_us cfg" "max_batch_delay_us cfg < 2 ^ 63"
    and shp: "\<forall>i \<in> set (input_shape cfg). - (2 ^ 63) \<le> i \<and> i < 2 ^ 63"
  shows "read_config [(''config.ini'', File (config_text cfg))] (default_config\<lparr> model_file_path := model_file_path cfg \<rparr>) = Inr cfg"
proof -
  have pl: "trimmed ws v \<and> newline \<notin> set v" if "plain v" for v
    using that plain_trimmed by (auto simp: plain_def ws_def newline_def)
  have texts: "plain (backend_text b)" "plain (device_text d)" for b d
    by (auto simp: backend_text_def device_text_def plain_def ws_def split: BackendKind.splits DeviceKind.splits)
  have vals: "\<forall>(k, v) \<in> set (config_settings cfg). trimmed ws v \<and> newline \<notin> set v"
    using nm pl [OF plain_nat] pl [OF plain_int(1)] pl [OF plain_commas] pl [OF texts(1)] pl [OF texts(2)]
    by (simp add: config_settings_def)
  have keys: "\<forall>(k, v) \<in> set (config_settings cfg). k \<noteq> [] \<and> plain k \<and> newline \<notin> set k \<and> CHR ''='' \<notin> set k \<and> hd k \<noteq> CHR ''#''"
    by (simp add: config_settings_def plain_def ws_def newline_def)
  have "getlines newline (config_text cfg) = map (\<lambda>(k, v). k @ CHR ''='' # v) (config_settings cfg)"
    unfolding config_text_def using vals keys by (intro getlines_settings) fast
  moreover have "unat (max_batch_size cfg) < 2 ^ 64" using unat_u64_less [of "max_batch_size cfg"] by simp
  note nums = stoi_int_to_string [OF ver] stoll_int_to_string [OF del] parse_shape_commas [OF shp] stoul_nat_to_string [OF this]
  have "fold (\<lambda>(k, v) r. case r of Inl e \<Rightarrow> Inl e | Inr c \<Rightarrow> apply_setting k v c) (config_settings cfg)
      (Inr (default_config\<lparr> model_file_path := model_file_path cfg \<rparr>)) = Inr cfg"
    by (cases "backend cfg"; cases "device cfg")
      (simp_all add: config_settings_def apply_setting_def nums parse_backend_def backend_text_def device_text_def default_config_def)
  ultimately show ?thesis
    using config_lines_settings [of "config_settings cfg"] vals keys by (fastforce simp: read_config_def)
qed

theorem config_roundtrip_witness:
  "read_config [(''config.ini'', File (config_text (default_config\<lparr> name := ''bert'', input_shape := [1, 128] \<rparr>)))]
     (default_config\<lparr> model_file_path := [] \<rparr>) = Inr (default_config\<lparr> name := ''bert'', input_shape := [1, 128] \<rparr>)"
  using config_roundtrip [of "default_config\<lparr> name := ''bert'', input_shape := [1, 128] \<rparr>"]
  by (simp add: default_config_def trimmed_def ws_def newline_def)

end
