(* ===== verification/Registry.thy ===== *)
theory Registry
  imports Prelude
begin

text \<open>
  The lookup tables of the runtime: the actor registry, the backend registry, the model registry
  and the runtime's table of executors are all \<^verbatim>\<open>std::unordered_map\<close>s behind a mutex, used through
  three operations: \<^verbatim>\<open>m[k] = v\<close> (overwrites), \<^verbatim>\<open>m.emplace(k, v)\<close> (keeps what is there) and
  \<^verbatim>\<open>m.erase(k)\<close>. The map is a list of entries with distinct keys, in some order; the
  locales state what the callers rely on, and their lemmas speak of runs of calls.
\<close>

section \<open>Hash maps\<close>

type_synonym ('k, 'v) table = "('k \<times> 'v) list"

definition table_ok :: "('k, 'v) table \<Rightarrow> bool" where
  "table_ok m \<longleftrightarrow> distinct (map fst m)"

definition table_find :: "('k, 'v) table \<Rightarrow> 'k \<Rightarrow> 'v option" where
  "table_find m k = map_of m k"

fun table_assign :: "'k \<Rightarrow> 'v \<Rightarrow> ('k, 'v) table \<Rightarrow> ('k, 'v) table" where
  "table_assign k v [] = [(k, v)]"
| "table_assign k v ((k', v') # m) = (if k' = k then (k, v) # m else (k', v') # table_assign k v m)"

definition table_emplace :: "'k \<Rightarrow> 'v \<Rightarrow> ('k, 'v) table \<Rightarrow> bool \<times> ('k, 'v) table" where
  "table_emplace k v m = (if table_find m k = None then (True, m @ [(k, v)]) else (False, m))"

definition table_erase :: "'k \<Rightarrow> ('k, 'v) table \<Rightarrow> ('k, 'v) table" where
  "table_erase k m = filter (\<lambda>e. fst e \<noteq> k) m"

section \<open>Contracts\<close>

locale lookup_table =
  fixes inv :: "'r \<Rightarrow> bool"
    and find :: "'r \<Rightarrow> 'k \<Rightarrow> 'v option"

locale assignable = lookup_table inv find
  for inv :: "'r \<Rightarrow> bool" and find :: "'r \<Rightarrow> 'k \<Rightarrow> 'v option" +
  fixes assign :: "'k \<Rightarrow> 'v \<Rightarrow> 'r \<Rightarrow> 'r"
  assumes assign_inv: "inv r \<Longrightarrow> inv (assign k v r)"
    and find_assign: "inv r \<Longrightarrow> find (assign k v r) = (find r)(k \<mapsto> v)"
begin

text \<open>After a run of assignments each key shows the last value assigned to it.\<close>

lemma assign_all: "inv r \<Longrightarrow> inv (fold (\<lambda>(k, v). assign k v) kvs r) \<and>
    find (fold (\<lambda>(k, v). assign k v) kvs r) = find r ++ map_of (rev kvs)"
proof (induction kvs arbitrary: r)
  case (Cons kv kvs)
  obtain k v where kv: "kv = (k, v)" by (cases kv)
  from Cons.IH [OF assign_inv [OF Cons.prems], of k v] show ?case
    by (auto simp: kv find_assign [OF Cons.prems] map_add_def fun_eq_iff split: option.splits)
qed simp

end

locale erasable = lookup_table inv find
  for inv :: "'r \<Rightarrow> bool" and find :: "'r \<Rightarrow> 'k \<Rightarrow> 'v option" +
  fixes erase :: "'k \<Rightarrow> 'r \<Rightarrow> 'r"
  assumes erase_inv: "inv r \<Longrightarrow> inv (erase k r)"
    and find_erase: "inv r \<Longrightarrow> find (erase k r) = (find r)(k := None)"

locale insertable = erasable inv find erase
  for inv :: "'r \<Rightarrow> bool" and find :: "'r \<Rightarrow> 'k \<Rightarrow> 'v option" and erase :: "'k \<Rightarrow> 'r \<Rightarrow> 'r" +
  fixes emplace :: "'k \<Rightarrow> 'v \<Rightarrow> 'r \<Rightarrow> bool \<times> 'r"
  assumes emplace_inv: "inv r \<Longrightarrow> inv (snd (emplace k v r))"
    and emplace_spec: "inv r \<Longrightarrow> fst (emplace k v r) = (find r k = None) \<and>
      find (snd (emplace k v r)) = (case find r k of None \<Rightarrow> (find r)(k \<mapsto> v) | Some _ \<Rightarrow> find r)"
begin

text \<open>Erase followed by emplace always inserts: the reload path of the model repository.\<close>

lemma replace_ok:
  assumes "inv r"
  shows "fst (emplace k v (erase k r)) \<and> inv (snd (emplace k v (erase k r))) \<and>
    find (snd (emplace k v (erase k r))) = (find r)(k \<mapsto> v)"
  using emplace_spec [OF erase_inv [OF assms, of k], of k v] emplace_inv [OF erase_inv [OF assms, of k], of k v]
    find_erase [OF assms, of k] by simp

text \<open>A second emplace under the same key is refused and changes nothing that lookups see.\<close>

lemma emplace_first_wins:
  assumes "inv r" and "fst (emplace k v r)"
  shows "\<not> fst (emplace k w (snd (emplace k v r))) \<and>
    find (snd (emplace k w (snd (emplace k v r)))) k = Some v"
  using assms emplace_spec [OF assms(1), of k v] emplace_spec [OF emplace_inv [OF assms(1), of k v], of k w]
  by simp

end

section \<open>The hash map provides them\<close>

lemma table_find_assign: "table_find (table_assign k v m) = (table_find m)(k \<mapsto> v)"
  by (induction m) (auto simp: table_find_def fun_eq_iff)

lemma keys_assign: "fst ` set (table_assign k v m) = insert k (fst ` set m)"
proof (induction m)
  case (Cons e m)
  then show ?case by (cases e, cases "fst e = k") (simp_all add: insert_commute)
qed simp

lemma table_assign_ok: "table_ok m \<Longrightarrow> table_ok (table_assign k v m)"
proof (induction m)
  case (Cons e m)
  then show ?case using keys_assign [of k v m] by (cases e) (auto simp: table_ok_def)
qed (simp add: table_ok_def)

lemma table_find_erase: "table_find (table_erase k m) = (table_find m)(k := None)"
  by (induction m) (auto simp: table_find_def table_erase_def fun_eq_iff)

lemma table_erase_ok: "table_ok m \<Longrightarrow> table_ok (table_erase k m)"
  by (simp add: table_ok_def table_erase_def distinct_map_filter)

interpretation table_a: assignable table_ok table_find table_assign
  by unfold_locales (simp_all add: table_find_assign table_assign_ok)

interpretation table_i: insertable table_ok table_find table_erase table_emplace
proof unfold_locales
  fix m :: "('a, 'b) table" and k v
  assume ok: "table_ok m"
  show "table_ok (snd (table_emplace k v m))"
    using ok by (auto simp: table_ok_def table_emplace_def table_find_def map_of_eq_None_iff)
  show "fst (table_emplace k v m) = (table_find m k = None) \<and>
      table_find (snd (table_emplace k v m)) =
        (case table_find m k of None \<Rightarrow> (table_find m)(k \<mapsto> v) | Some _ \<Rightarrow> table_find m)"
    by (auto simp: table_emplace_def table_find_def fun_eq_iff map_add_def split: option.splits)
qed (simp_all add: table_find_erase table_erase_ok)

section \<open>The backend registry\<close>

text \<open>\<^verbatim>\<open>inference/registry.hpp\<close>; the mutex makes each call one step.\<close>

type_synonym 'b backend_registry = "(string, 'b) table"

definition register_backend :: "string \<Rightarrow> 'b \<Rightarrow> 'b backend_registry \<Rightarrow> 'b backend_registry" where
  "register_backend name backend r = table_assign name backend r"

definition get_backend :: "'b backend_registry \<Rightarrow> string \<Rightarrow> 'b option" where
  "get_backend r name = (case table_find r name of None \<Rightarrow> None | Some b \<Rightarrow> Some b)"

interpretation backends: assignable table_ok get_backend register_backend
  by unfold_locales
    (auto simp: register_backend_def get_backend_def table_assign_ok table_find_assign fun_eq_iff split: option.splits)

text \<open>
  After any sequence of registrations \<^verbatim>\<open>get_backend\<close> returns the backend registered last under that
  name, and nothing for a name that was never registered.
\<close>

theorem backend_registry_last:
  "get_backend (fold (\<lambda>(n, b). register_backend n b) regs []) = map_of (rev regs)"
  using backends.assign_all [of "[]" regs] by (simp add: table_ok_def get_backend_def table_find_def fun_eq_iff map_add_def split: option.splits)

end
