(* ===== verification/Model_Repository.thy ===== *)
theory Model_Repository
  imports Model_Config Registry
begin

text \<open>
  \<^verbatim>\<open>model/model_metadata.hpp\<close>, \<^verbatim>\<open>model_registry.hpp/.cpp\<close> and \<^verbatim>\<open>model_repository.hpp/.cpp\<close>: the registry of
  models with their lifecycle state, and the repository scan that fills it. The TorchScript
  backend is a parameter: its handle and the answer of its \<^verbatim>\<open>load\<close>. An exception of
  the parser leaves the registry as it was when the exception was thrown.
\<close>

section \<open>The registry\<close>

datatype ModelState = Unloaded | Loading | Ready | Failed | Unloading

definition model_state_str :: "ModelState \<Rightarrow> string" where
  "model_state_str s = (case s of Unloaded \<Rightarrow> ''UNLOADED'' | Loading \<Rightarrow> ''LOADING'' | Ready \<Rightarrow> ''READY''
     | Failed \<Rightarrow> ''FAILED'' | Unloading \<Rightarrow> ''UNLOADING'')"

record 'b ModelMetadata =
  config :: ModelConfig
  state :: ModelState
  handle :: "'b option"

definition is_ready :: "'b ModelMetadata \<Rightarrow> bool" where
  "is_ready m \<longleftrightarrow> state m = Ready"

type_synonym 'b model_registry = "(string, 'b ModelMetadata) table"

definition register_model :: "'b ModelMetadata option \<Rightarrow> 'b model_registry \<Rightarrow> bool \<times> 'b model_registry" where
  "register_model meta r = (case meta of None \<Rightarrow> (False, r) | Some m \<Rightarrow> table_emplace (model_id (config m)) m r)"

definition lookup :: "'b model_registry \<Rightarrow> string \<Rightarrow> 'b ModelMetadata option" where
  "lookup r key = table_find r key"

definition lookup_ready :: "'b model_registry \<Rightarrow> string \<Rightarrow> 'b ModelMetadata option" where
  "lookup_ready r key = (case lookup r key of None \<Rightarrow> None | Some m \<Rightarrow> if \<not> is_ready m then None else Some m)"

definition unregister :: "string \<Rightarrow> 'b model_registry \<Rightarrow> 'b ModelMetadata option \<times> 'b model_registry" where
  "unregister key r = (case table_find r key of None \<Rightarrow> (None, r) | Some m \<Rightarrow> (Some m, table_erase key r))"

definition list_models :: "'b model_registry \<Rightarrow> (string \<times> ModelState \<times> int) list" where
  "list_models r = map (\<lambda>(key, m). (key, state m, version (config m))) r"

definition registry_size :: "'b model_registry \<Rightarrow> nat" where
  "registry_size r = length r"

lemma lookup_eq: "lookup = table_find"
  by (simp add: fun_eq_iff lookup_def)

text \<open>Writes through the raw pointer that \<^verbatim>\<open>load_model\<close> keeps to the registered entry.\<close>

definition update_model :: "string \<Rightarrow> ('b ModelMetadata \<Rightarrow> 'b ModelMetadata) \<Rightarrow> 'b model_registry \<Rightarrow> 'b model_registry" where
  "update_model key f r = map (\<lambda>(k, m). if k = key then (k, f m) else (k, m)) r"

lemma find_update_model:
  "table_find (update_model key f r) = (table_find r)(key := map_option f (table_find r key))"
  by (induction r) (auto simp: update_model_def table_find_def fun_eq_iff)

lemma update_model_ok: "table_ok r \<Longrightarrow> table_ok (update_model key f r)"
proof -
  have "map fst (update_model key f r) = map fst r" by (induction r) (auto simp: update_model_def)
  then show "table_ok r \<Longrightarrow> table_ok (update_model key f r)" by (simp add: table_ok_def)
qed

interpretation models: erasable table_ok lookup "\<lambda>key r. snd (unregister key r)"
proof unfold_locales
  fix r :: "'b model_registry" and key
  assume "table_ok r"
  then show "table_ok (snd (unregister key r))" by (simp add: unregister_def table_erase_ok split: option.splits)
  show "lookup (snd (unregister key r)) = (lookup r)(key := None)"
    by (auto simp: unregister_def lookup_def table_find_erase fun_eq_iff split: option.splits)
qed

section \<open>Loading one model\<close>

definition make_backend :: "'b \<Rightarrow> BackendKind \<Rightarrow> 'b option" where
  "make_backend torch kind = (case kind of TorchScript \<Rightarrow> Some torch | Onnx \<Rightarrow> None)"

definition load_model ::
  "'b \<Rightarrow> (string \<Rightarrow> string \<Rightarrow> DeviceKind \<Rightarrow> bool) \<Rightarrow> string \<Rightarrow> node option \<Rightarrow> 'b model_registry \<Rightarrow>
    (cfg_error + bool) \<times> 'b model_registry" where
  "load_model torch load model_dir root r =
     (case from_dir model_dir root of
        Inl e \<Rightarrow> (Inl e, r)
      | Inr cfg \<Rightarrow>
          if name cfg = [] then (Inr False, r)
          else
            let meta = \<lparr> config = cfg, state = Loading, handle = None \<rparr>;
                r1 = (if lookup r (name cfg) \<noteq> None then snd (unregister (name cfg) r) else r);
                (inserted, r2) = register_model (Some meta) r1 in
            if \<not> inserted then (Inr False, r2)
            else
              case make_backend torch (backend cfg) of
                None \<Rightarrow> (Inr False, update_model (name cfg) (\<lambda>m. m\<lparr> state := Failed \<rparr>) r2)
              | Some b \<Rightarrow>
                  if \<not> load (name cfg) (model_file_path cfg) (device cfg)
                  then (Inr False, update_model (name cfg) (\<lambda>m. m\<lparr> state := Failed \<rparr>) r2)
                  else (Inr True, update_model (name cfg) (\<lambda>m. m\<lparr> handle := Some b, state := Ready \<rparr>) r2))"

definition loads_ok :: "(string \<Rightarrow> string \<Rightarrow> DeviceKind \<Rightarrow> bool) \<Rightarrow> ModelConfig \<Rightarrow> bool" where
  "loads_ok load cfg \<longleftrightarrow> backend cfg = TorchScript \<and> load (name cfg) (model_file_path cfg) (device cfg)"

lemma load_model_result:
  assumes ok: "table_ok r" and cfg: "from_dir dir root = Inr cfg" and ne: "name cfg \<noteq> []"
  shows "fst (load_model torch load dir root r) = Inr (loads_ok load cfg) \<and>
    table_ok (snd (load_model torch load dir root r)) \<and>
    lookup (snd (load_model torch load dir root r)) = (lookup r)(name cfg \<mapsto>
      (if loads_ok load cfg then \<lparr> config = cfg, state = Ready, handle = Some torch \<rparr>
       else \<lparr> config = cfg, state = Failed, handle = None \<rparr>))"
proof -
  let ?meta = "\<lparr> config = cfg, state = Loading, handle = None \<rparr> :: 'a ModelMetadata"
  define r1 where "r1 = (if lookup r (name cfg) \<noteq> None then snd (unregister (name cfg) r) else r)"
  have r1: "r1 = table_erase (name cfg) r \<or> r1 = r \<and> lookup r (name cfg) = None"
    by (auto simp: r1_def unregister_def lookup_def split: option.splits)
  have r1': "table_ok r1" "lookup r1 (name cfg) = None" "\<And>k. k \<noteq> name cfg \<Longrightarrow> lookup r1 k = lookup r k"
    using r1 ok by (auto simp: table_erase_ok lookup_def table_find_erase)
  let ?r2 = "r1 @ [(name cfg, ?meta)]"
  have reg: "register_model (Some ?meta) r1 = (True, ?r2)"
    using r1'(2) by (simp add: register_model_def table_emplace_def lookup_def model_id_def)
  have ok2: "table_ok ?r2" using table_i.emplace_inv [OF r1'(1), of "name cfg" ?meta] r1'(2)
    by (simp add: table_emplace_def lookup_def)
  have find2: "table_find ?r2 = (table_find r)(name cfg \<mapsto> ?meta)"
    using r1'(2,3) by (auto simp: table_find_def lookup_def map_add_def fun_eq_iff split: option.splits)
  have run: "load_model torch load dir root r =
      (Inr (loads_ok load cfg), update_model (name cfg)
        (if loads_ok load cfg then (\<lambda>m. m\<lparr> handle := Some torch, state := Ready \<rparr>) else (\<lambda>m. m\<lparr> state := Failed \<rparr>)) ?r2)"
    unfolding load_model_def cfg sum.case Let_def r1_def [symmetric] reg
    using ne by (cases "backend cfg") (simp_all add: loads_ok_def make_backend_def)
  show ?thesis
    unfolding run lookup_eq by (simp add: update_model_ok ok2 find_update_model find2)
qed

text \<open>
  C29. \<^verbatim>\<open>ModelRepository::load_model\<close> on a directory whose configuration parses: it returns true exactly when
  the backend exists and loads the file; the entry under the model's name is then READY with the
  backend's handle, otherwise FAILED without one, replacing any earlier entry of that name; every
  other entry is untouched and names stay unique.
\<close>

theorem load_model_correct:
  assumes "table_ok r" and "from_dir dir root = Inr cfg" and "name cfg \<noteq> []"
  shows "\<exists>r'. load_model torch load dir root r = (Inr (loads_ok load cfg), r') \<and> table_ok r' \<and>
    lookup r' = (lookup r)(name cfg \<mapsto>
      (if loads_ok load cfg then \<lparr> config = cfg, state = Ready, handle = Some torch \<rparr>
       else \<lparr> config = cfg, state = Failed, handle = None \<rparr>)) \<and>
    (lookup_ready r' (name cfg) \<noteq> None \<longleftrightarrow> loads_ok load cfg)"
  using load_model_result [OF assms, of torch load]
  by (intro exI [of _ "snd (load_model torch load dir root r)"])
    (auto simp: prod_eq_iff lookup_ready_def is_ready_def)

theorem load_model_correct_witness:
  "\<exists>r'. load_model (7::nat) (\<lambda>_ p _. p = ''m/1/model.pt'') ''m'' (Some (Dir sample_tree)) [] = (Inr True, r') \<and>
     lookup_ready r' ''m'' \<noteq> None"
  using load_model_correct [OF _ sample_from_dir, of "[] :: nat model_registry" 7 "\<lambda>_ p _. p = ''m/1/model.pt''"]
  by (auto simp: table_ok_def loads_ok_def default_config_def)

section \<open>Scanning the repository\<close>

record LoadResult =
  loaded :: int
  failed :: int
  skipped :: int
  failed_names :: "string list"

definition empty_result :: LoadResult where
  "empty_result = \<lparr> loaded = 0, failed = 0, skipped = 0, failed_names = [] \<rparr>"

definition has_version :: "(string \<times> node) list \<Rightarrow> bool" where
  "has_version es \<longleftrightarrow> list_ex (\<lambda>(n, nd). case nd of Dir _ \<Rightarrow> (case stoi n of Inl _ \<Rightarrow> False | Inr _ \<Rightarrow> True) | File _ \<Rightarrow> False) es"

fun scan_loop ::
  "'b \<Rightarrow> (string \<Rightarrow> string \<Rightarrow> DeviceKind \<Rightarrow> bool) \<Rightarrow> string \<Rightarrow> (string \<times> node) list \<Rightarrow> LoadResult \<Rightarrow> 'b model_registry \<Rightarrow>
    (cfg_error + LoadResult) \<times> 'b model_registry" where
  "scan_loop torch load root [] result r = (Inr result, r)"
| "scan_loop torch load root ((n, File c) # es) result r = scan_loop torch load root es result r"
| "scan_loop torch load root ((n, Dir sub) # es) result r =
     (if n \<noteq> [] \<and> hd n = CHR ''.''
      then scan_loop torch load root es (result\<lparr> skipped := skipped result + 1 \<rparr>) r
      else if map_of sub ''config.ini'' = None \<and> \<not> has_version sub
      then scan_loop torch load root es (result\<lparr> skipped := skipped result + 1 \<rparr>) r
      else
        (case load_model torch load (join root n) (Some (Dir sub)) r of
           (Inl e, r') \<Rightarrow> (Inl e, r')
         | (Inr ok, r') \<Rightarrow>
             scan_loop torch load root es
               (if ok then result\<lparr> loaded := loaded result + 1 \<rparr>
                else result\<lparr> failed := failed result + 1, failed_names := failed_names result @ [n] \<rparr>) r'))"

definition scan_and_load ::
  "'b \<Rightarrow> (string \<Rightarrow> string \<Rightarrow> DeviceKind \<Rightarrow> bool) \<Rightarrow> string \<Rightarrow> node option \<Rightarrow> 'b model_registry \<Rightarrow>
    (cfg_error + LoadResult) \<times> 'b model_registry" where
  "scan_and_load torch load repo_root root r =
     (case entries root of None \<Rightarrow> (Inr empty_result, r) | Some es \<Rightarrow> scan_loop torch load repo_root es empty_result r)"

text \<open>An entry that serves requests has a backend and stands under its own name.\<close>

definition registry_ok :: "'b \<Rightarrow> 'b model_registry \<Rightarrow> bool" where
  "registry_ok torch r \<longleftrightarrow> table_ok r \<and>
     (\<forall>key m. lookup r key = Some m \<longrightarrow> name (config m) = key \<and> (state m = Ready \<longrightarrow> handle m = Some torch))"

lemma load_model_ok:
  assumes "registry_ok torch r"
  shows "registry_ok torch (snd (load_model torch load dir root r))"
proof (cases "\<exists>cfg. from_dir dir root = Inr cfg \<and> name cfg \<noteq> []")
  case True
  then obtain cfg where "from_dir dir root = Inr cfg" "name cfg \<noteq> []" by blast
  with load_model_result [of r dir root cfg torch load] assms show ?thesis by (auto simp: registry_ok_def)
next
  case False
  then have "snd (load_model torch load dir root r) = r"
    by (cases "from_dir dir root") (auto simp: load_model_def)
  with assms show ?thesis by simp
qed

definition dirs :: "(string \<times> node) list \<Rightarrow> nat" where
  "dirs es = length (filter (\<lambda>(n, nd). \<exists>sub. nd = Dir sub) es)"

lemma scan_loop_inv:
  assumes "registry_ok torch r"
  shows "registry_ok torch (snd (scan_loop torch load root es result r)) \<and>
    (\<forall>res. fst (scan_loop torch load root es result r) = Inr res \<longrightarrow>
      loaded res + failed res + skipped res = loaded result + failed result + skipped result + int (dirs es) \<and>
      int (length (failed_names res)) - failed res = int (length (failed_names result)) - failed result)"
  using assms
proof (induction es arbitrary: result r)
  case (Cons e es)
  obtain n nd where e: "e = (n, nd)" by (cases e)
  show ?case
  proof (cases nd)
    case (File c)
    then show ?thesis using Cons by (simp add: e dirs_def)
  next
    case (Dir sub)
    let ?l = "load_model torch load (join root n) (Some (Dir sub)) r"
    have ok: "registry_ok torch (snd ?l)" by (rule load_model_ok [OF Cons.prems])
    have d: "dirs (e # es) = dirs es + 1" by (simp add: e Dir dirs_def)
    show ?thesis
    proof (cases "(n \<noteq> [] \<and> hd n = CHR ''.'') \<or> (map_of sub ''config.ini'' = None \<and> \<not> has_version sub)")
      case True
      then have "scan_loop torch load root (e # es) result r =
          scan_loop torch load root es (result\<lparr> skipped := skipped result + 1 \<rparr>) r" by (auto simp: e Dir)
      then show ?thesis using Cons.IH [OF Cons.prems, of "result\<lparr> skipped := skipped result + 1 \<rparr>"] d by auto
    next
      case False
      show ?thesis
      proof (cases "fst ?l")
        case (Inl x)
        then have "scan_loop torch load root (e # es) result r = (Inl x, snd ?l)"
          using False by (auto simp: e Dir prod.case_eq_if)
        then show ?thesis using ok by simp
      next
        case (Inr b)
        let ?res = "if b then result\<lparr> loaded := loaded result + 1 \<rparr>
          else result\<lparr> failed := failed result + 1, failed_names := failed_names result @ [n] \<rparr>"
        have "scan_loop torch load root (e # es) result r = scan_loop torch load root es ?res (snd ?l)"
          using False Inr by (auto simp: e Dir prod.case_eq_if)
        then show ?thesis using Cons.IH [OF ok, of ?res] d by auto
      qed
    qed
  qed
qed (simp add: dirs_def)



text \<open>
  A number that does not parse in one \<^verbatim>\<open>config.ini\<close> ends the whole scan with the exception: the
  models listed after it are not loaded, and no result is returned.
\<close>

theorem scan_aborts_on_bad_number:
  assumes "from_dir (join repo_root n) (Some (Dir sub)) = Inl (Bad_Number e)"
    and "hd n \<noteq> CHR ''.''" and "map_of sub ''config.ini'' \<noteq> None"
  shows "scan_and_load torch load repo_root (Some (Dir ((n, Dir sub) # es))) r = (Inl (Bad_Number e), r)"
  using assms by (auto simp: scan_and_load_def load_model_def)

lemma bad_tree: "from_dir (join ''r'' ''a'') (Some (Dir [(''config.ini'', File ''version=x'')])) = Inl (Bad_Number Invalid_Argument)"
  by code_simp

theorem scan_aborts_on_bad_number_witness:
  "scan_and_load (7::nat) (\<lambda>_ _ _. True) ''r''
     (Some (Dir [(''a'', Dir [(''config.ini'', File ''version=x'')]), (''m'', Dir sample_tree)])) [] =
   (Inl (Bad_Number Invalid_Argument), [])"
  by (rule scan_aborts_on_bad_number [OF bad_tree]) simp_all

end
