(* ===== verification/Metrics.thy ===== *)
theory Metrics
  imports Prelude
begin

text \<open>
  \<^verbatim>\<open>telemetry/metrics.hpp\<close> and \<^verbatim>\<open>.cpp\<close>: the request counters and the latency histogram. The double
  arithmetic of \<^verbatim>\<open>percentile\<close> is kept exact: a double is an integer times a power of two, so
  conversion and product are integer computations rounded to 53 significant bits, ties to even.
\<close>

section \<open>Bit lengths\<close>

fun bit_length :: "nat \<Rightarrow> nat" where
  "bit_length n = (if n = 0 then 0 else Suc (bit_length (n div 2)))"

declare bit_length.simps [simp del]

lemma bit_length_0 [simp]: "bit_length 0 = 0"
  by (simp add: bit_length.simps)

lemma bit_length_bounds: "0 < n \<Longrightarrow> 2 ^ (bit_length n - 1) \<le> n \<and> n < 2 ^ bit_length n \<and> 0 < bit_length n"
proof (induction n rule: bit_length.induct)
  case (1 n)
  show ?case
  proof (cases "n div 2 = 0")
    case True
    then have "n = 1" using "1.prems" by simp
    then show ?thesis by (simp add: bit_length.simps)
  next
    case False
    then have IH: "2 ^ (bit_length (n div 2) - 1) \<le> n div 2" "n div 2 < 2 ^ bit_length (n div 2)" "0 < bit_length (n div 2)"
      using 1 by auto
    have n: "bit_length n = Suc (bit_length (n div 2))" using "1.prems" by (simp add: bit_length.simps [of n])
    have "2 ^ bit_length (n div 2) = 2 * (2 ^ (bit_length (n div 2) - 1) :: nat)"
      using IH(3) by (simp flip: power_Suc)
    then show ?thesis using IH n by (simp, linarith)
  qed
qed

lemma bit_length_le_iff: "bit_length n \<le> k \<longleftrightarrow> n < 2 ^ k"
proof (cases "n = 0")
  case False
  then have b: "2 ^ (bit_length n - 1) \<le> n" "n < 2 ^ bit_length n" "0 < bit_length n" using bit_length_bounds [of n] by auto
  show ?thesis
  proof
    assume "bit_length n \<le> k"
    then have "(2::nat) ^ bit_length n \<le> 2 ^ k" by (simp add: power_increasing)
    with b(2) show "n < 2 ^ k" by (rule order.strict_trans2)
  next
    assume "n < 2 ^ k"
    then have "(2::nat) ^ (bit_length n - 1) < 2 ^ k" using b(1) by linarith
    then have "bit_length n - 1 < k" by simp
    with b(3) show "bit_length n \<le> k" by simp
  qed
qed simp

section \<open>Doubles\<close>

text \<open>\<open>n / 2 ^ k\<close> rounded to the nearest integer, ties to even.\<close>

definition round_half_even :: "nat \<Rightarrow> nat \<Rightarrow> nat" where
  "round_half_even n k =
     (let q = n div 2 ^ k; r = n mod 2 ^ k in
      if 2 * r < 2 ^ k then q else if 2 * r > 2 ^ k then q + 1 else if even q then q else q + 1)"

definition to_double :: "nat \<Rightarrow> nat" where
  "to_double n = (let k = bit_length n - 53 in round_half_even n k * 2 ^ k)"

text \<open>\<open>p53\<close> is the double \<open>p\<close> times \<open>2 ^ 53\<close>; the cast truncates.\<close>

definition percentile_target :: "nat \<Rightarrow> u64 \<Rightarrow> u64" where
  "percentile_target p53 n_total =
     of_nat (to_double (to_double (unat n_total) * p53) div 2 ^ 53)"

definition P50 :: nat where "P50 = 4503599627370496"
definition P95 :: nat where "P95 = 8556839292003942"
definition P99 :: nat where "P99 = 8917127262193582"
definition P999 :: nat where "P999 = 8998192055486251"

lemma to_double_exact: "n < 2 ^ 53 \<Longrightarrow> to_double n = n"
  using bit_length_le_iff [of n 53] by (simp add: to_double_def Let_def round_half_even_def)

lemma round_half_even_le:
  assumes "n \<le> m * 2 ^ k"
  shows "round_half_even n k \<le> m"
proof (cases "n mod 2 ^ k = 0")
  case True
  then have "n = n div 2 ^ k * 2 ^ k" by (metis add.right_neutral div_mult_mod_eq)
  with assms have "n div 2 ^ k * 2 ^ k \<le> m * 2 ^ k" by simp
  then have "n div 2 ^ k \<le> m" by simp
  with True show ?thesis by (simp add: round_half_even_def Let_def)
next
  case False
  have "n div 2 ^ k < m"
  proof (rule ccontr)
    assume "\<not> n div 2 ^ k < m"
    then have "m * 2 ^ k \<le> n div 2 ^ k * 2 ^ k" by simp
    moreover have "n div 2 ^ k * 2 ^ k + n mod 2 ^ k = n" by (rule div_mult_mod_eq)
    ultimately show False using assms False by linarith
  qed
  then show ?thesis by (simp add: round_half_even_def Let_def)
qed

lemma to_double_le:
  assumes "n \<le> N * 2 ^ 53" and "n < 2 ^ 106"
  shows "to_double n \<le> N * 2 ^ 53"
proof -
  let ?k = "bit_length n - 53"
  have k: "?k \<le> 53" using bit_length_le_iff [of n 106] assms(2) by simp
  have eq: "N * 2 ^ 53 = (N * 2 ^ (53 - ?k)) * 2 ^ ?k"
    using k by (simp add: mult.assoc flip: power_add)
  then have "round_half_even n ?k \<le> N * 2 ^ (53 - ?k)" using assms(1) by (intro round_half_even_le) (simp only:)
  then have "round_half_even n ?k * 2 ^ ?k \<le> (N * 2 ^ (53 - ?k)) * 2 ^ ?k" by simp
  then show ?thesis unfolding to_double_def Let_def eq .
qed

lemma percentile_target_le:
  assumes "unat n_total < 2 ^ 53" and "p53 \<le> 2 ^ 53"
  shows "unat (percentile_target p53 n_total) \<le> unat n_total"
proof -
  have "unat n_total * p53 \<le> unat n_total * 2 ^ 53" using assms(2) by simp
  moreover have "unat n_total * p53 < 2 ^ 106"
  proof -
    have "unat n_total * p53 \<le> unat n_total * 2 ^ 53" using assms(2) by simp
    also have "\<dots> < 2 ^ 53 * 2 ^ 53" using assms(1) by simp
    finally show ?thesis by simp
  qed
  ultimately have "to_double (unat n_total * p53) div 2 ^ 53 \<le> unat n_total * 2 ^ 53 div 2 ^ 53"
    by (intro div_le_mono to_double_le)
  then have "to_double (unat n_total * p53) div 2 ^ 53 \<le> unat n_total" by simp
  moreover have "unat (of_nat m :: u64) \<le> m" for m by (simp add: unat_of_nat)
  ultimately show ?thesis
    by (metis (no_types) assms(1) order_trans percentile_target_def to_double_exact)
qed

section \<open>The histogram\<close>

record PlainMetrics =
  requests_received :: u64
  requests_completed :: u64
  requests_rejected :: u64
  queue_timeouts :: u64

type_synonym LatencyHistogram = "u64 list"

definition hist_new :: LatencyHistogram where "hist_new = replicate 1024 0"

text \<open>\<^verbatim>\<open>__builtin_clzll\<close> of a nonzero argument.\<close>

definition clzll :: "u64 \<Rightarrow> nat" where "clzll x = 64 - bit_length (unat x)"

definition bucket_for :: "u64 \<Rightarrow> nat" where
  "bucket_for latency_ns = (if latency_ns = 0 then 0 else min (64 - clzll latency_ns) 1023)"

definition hist_record :: "u64 \<Rightarrow> LatencyHistogram \<Rightarrow> LatencyHistogram" where
  "hist_record latency_ns h = h[bucket_for latency_ns := h ! bucket_for latency_ns + 1]"

fun percentile_scan :: "u64 \<Rightarrow> nat \<Rightarrow> u64 \<Rightarrow> u64 list \<Rightarrow> u64" where
  "percentile_scan target i count [] = 0"
| "percentile_scan target i count (b # bs) =
     (let count' = count + b in
      if count' \<ge> target then push_bit (if i > 0 then i - 1 else 0) 1
      else percentile_scan target (Suc i) count' bs)"

definition percentile :: "nat \<Rightarrow> LatencyHistogram \<Rightarrow> u64" where
  "percentile p53 h =
     (let n_total = sum_list h in
      if n_total = 0 then 0 else percentile_scan (percentile_target p53 n_total) 0 0 h)"

definition hist_of :: "u64 list \<Rightarrow> LatencyHistogram" where
  "hist_of xs = fold hist_record xs hist_new"

lemma bucket_for_bit_length: "bucket_for x = bit_length (unat x)"
proof -
  have "bit_length (unat x) \<le> 64" using unat_u64_less [of x] by (simp add: bit_length_le_iff)
  then show ?thesis by (auto simp: bucket_for_def clzll_def)
qed

lemma bucket_for_le: "bucket_for x \<le> 64"
  using unat_u64_less [of x] by (simp add: bucket_for_bit_length bit_length_le_iff)

definition in_bucket :: "u64 list \<Rightarrow> nat \<Rightarrow> nat" where
  "in_bucket xs i = length (filter (\<lambda>x. bucket_for x = i) xs)"

lemma hist_of_nth:
  assumes "i < 1024"
  shows "length (hist_of xs) = 1024 \<and> hist_of xs ! i = of_nat (in_bucket xs i)"
proof (induction xs rule: rev_induct)
  case Nil
  then show ?case using assms by (simp add: hist_of_def hist_new_def in_bucket_def)
next
  case (snoc x xs)
  have "hist_of (xs @ [x]) = hist_record x (hist_of xs)" by (simp add: hist_of_def)
  moreover have "bucket_for x < 1024" using bucket_for_le [of x] by simp
  ultimately show ?case using snoc assms
    by (auto simp: hist_record_def nth_list_update in_bucket_def)
qed

section \<open>Percentiles\<close>

lemma sum_in_bucket: "(\<Sum>i < m. in_bucket xs i) = length (filter (\<lambda>x. bucket_for x < m) xs)"
proof (induction m)
  case (Suc m)
  have "length (filter (\<lambda>x. bucket_for x < Suc m) xs) =
      length (filter (\<lambda>x. bucket_for x < m) xs) + length (filter (\<lambda>x. bucket_for x = m) xs)"
    by (induction xs) auto
  with Suc show ?case by (simp add: in_bucket_def)
qed simp

lemma scan_first:
  assumes "c + sum_list bs < 2 ^ 64" and "unat t \<le> c + sum_list bs" and "bs \<noteq> []"
  shows "\<exists>j < length bs. percentile_scan t i (of_nat c) (map of_nat bs) = push_bit (if i + j > 0 then i + j - 1 else 0) 1 \<and>
    unat t \<le> c + sum_list (take (Suc j) bs) \<and> (j = 0 \<or> c + sum_list (take j bs) < unat t)"
  using assms
proof (induction bs arbitrary: c i)
  case (Cons b bs)
  have u: "unat (of_nat c + of_nat b :: u64) = c + b"
    using Cons.prems(1) by (simp add: unat_of_nat flip: of_nat_add)
  show ?case
  proof (cases "unat t \<le> c + b")
    case True
    then have "(of_nat c + of_nat b :: u64) \<ge> t" using u by (simp add: word_le_nat_alt)
    then show ?thesis using True by (intro exI [of _ 0]) (simp add: Let_def)
  next
    case False
    then have lt: "\<not> (of_nat c + of_nat b :: u64) \<ge> t" using u by (simp add: word_le_nat_alt)
    have "bs \<noteq> []" using False Cons.prems(2) by auto
    with Cons.IH [of "c + b" "Suc i"] Cons.prems obtain j where j: "j < length bs"
      "percentile_scan t (Suc i) (of_nat (c + b)) (map of_nat bs) = push_bit (i + j) 1"
      "unat t \<le> c + b + sum_list (take (Suc j) bs)" "j = 0 \<or> c + b + sum_list (take j bs) < unat t"
      by (auto simp: add.assoc)
    then show ?thesis
      using lt False by (intro exI [of _ "Suc j"]) (auto simp: Let_def add.assoc)
  qed
qed simp

lemma hist_of_eq: "hist_of xs = map of_nat (map (in_bucket xs) [0..<1024])"
proof (rule nth_equalityI)
  show len: "length (hist_of xs) = length (map of_nat (map (in_bucket xs) [0..<1024]))"
    using hist_of_nth [of 0 xs] by simp
  fix i
  assume "i < length (hist_of xs)"
  with len hist_of_nth [of i xs] show "hist_of xs ! i = map of_nat (map (in_bucket xs) [0..<1024]) ! i" by simp
qed

lemma cumulative:
  assumes "m \<le> 1024"
  shows "sum_list (take m (map (in_bucket xs) [0..<1024])) = length (filter (\<lambda>x. bucket_for x < m) xs)"
proof -
  have "sum_list (take m (map (in_bucket xs) [0..<1024])) = sum_list (map (in_bucket xs) [0..<m])"
    using assms by (simp add: take_map take_upt)
  also have "\<dots> = (\<Sum>i < m. in_bucket xs i)" by (simp add: sum_list_distinct_conv_sum_set atLeast0LessThan)
  finally show ?thesis by (simp add: sum_in_bucket)
qed

lemma sum_list_map_of_nat: "sum_list (map of_nat ys) = (of_nat (sum_list ys) :: u64)"
  by (induction ys) simp_all

lemma in_bucket_total: "sum_list (map (in_bucket xs) [0..<1024]) = length xs"
proof -
  have "bucket_for x < 1024" for x using bucket_for_le [of x] by simp
  then have "filter (\<lambda>x. bucket_for x < 1024) xs = xs" by (simp add: filter_id_conv)
  then show ?thesis using cumulative [of 1024 xs] by simp
qed

lemma filter_below_all:
  assumes "64 < j"
  shows "filter (\<lambda>x :: u64. unat x < 2 ^ (j - 1)) xs = xs"
proof -
  have "(2::nat) ^ 64 \<le> 2 ^ (j - 1)" using assms by (intro power_increasing) simp_all
  then have "\<forall>x \<in> set xs. unat x < 2 ^ (j - 1)" using unat_u64_less by (auto intro: order.strict_trans2)
  then show ?thesis by (simp add: filter_id_conv)
qed

text \<open>
  For fewer than \<open>2 ^ 53\<close> recorded latencies, \<^verbatim>\<open>LatencyHistogram::percentile\<close> returns a power of two
  \<open>r\<close> such that at least the target number of samples lie below \<open>2 * r\<close> and, unless it stopped
  in the first bucket, fewer than the target number lie below \<open>r\<close>; the target is the product of
  count and percentile in double arithmetic, truncated, and never exceeds the count.
\<close>

theorem percentile_correct:
  assumes len: "length xs < 2 ^ 53" and ne: "xs \<noteq> []" and p: "p53 \<le> 2 ^ 53"
  defines "t \<equiv> unat (percentile_target p53 (of_nat (length xs)))"
  shows "\<exists>j \<le> 64. unat (percentile p53 (hist_of xs)) = 2 ^ (j - 1) \<and> t \<le> length xs \<and>
    t \<le> length (filter (\<lambda>x. unat x < 2 ^ j) xs) \<and>
    (j = 0 \<or> length (filter (\<lambda>x. unat x < 2 ^ (j - 1)) xs) < t)"
proof -
  let ?bs = "map (in_bucket xs) [0..<1024]"
  let ?T = "percentile_target p53 (of_nat (length xs))"
  note all = in_bucket_total [of xs]
  have u: "unat (of_nat (length xs) :: u64) = length xs" using len by (simp add: unat_of_nat)
  have tle: "t \<le> length xs" using percentile_target_le [of "of_nat (length xs)" p53] len p u by (simp add: t_def)
  have "sum_list (hist_of xs) = of_nat (length xs)"
    unfolding hist_of_eq all [symmetric] by (rule sum_list_map_of_nat)
  moreover have "(of_nat (length xs) :: u64) \<noteq> 0" using u ne by (metis length_0_conv unsigned_0)
  ultimately have run: "percentile p53 (hist_of xs) = percentile_scan ?T 0 0 (hist_of xs)"
    by (simp add: percentile_def)
  have "0 + sum_list ?bs < 2 ^ 64" using all len by simp
  moreover have "unat ?T \<le> 0 + sum_list ?bs" using tle all by (simp add: t_def)
  moreover have "?bs \<noteq> []" by simp
  ultimately obtain j where j: "j < length ?bs"
    "percentile_scan ?T 0 (of_nat 0) (map of_nat ?bs) = push_bit (if 0 + j > 0 then 0 + j - 1 else 0) 1"
    "unat ?T \<le> 0 + sum_list (take (Suc j) ?bs)" "j = 0 \<or> 0 + sum_list (take j ?bs) < unat ?T"
    using scan_first by blast
  have jl: "Suc j \<le> 1024" using j(1) by simp
  have le: "t \<le> length (filter (\<lambda>x. unat x < 2 ^ j) xs)"
    using j(3) cumulative [OF jl, of xs] by (simp add: t_def less_Suc_eq_le bucket_for_bit_length bit_length_le_iff)
  have below: "j = 0 \<or> length (filter (\<lambda>x. unat x < 2 ^ (j - 1)) xs) < t"
  proof (cases j)
    case (Suc i)
    then show ?thesis
      using j(4) cumulative [of j xs] jl by (simp add: t_def less_Suc_eq_le bucket_for_bit_length bit_length_le_iff)
  qed simp
  have j64: "j \<le> 64"
  proof (rule ccontr)
    assume "\<not> j \<le> 64"
    then show False using below tle filter_below_all [of j xs] by simp
  qed
  have "percentile p53 (hist_of xs) = push_bit (j - 1) 1"
    using j(2) unfolding run by (simp add: hist_of_eq split: if_splits)
  then have "unat (percentile p53 (hist_of xs)) = 2 ^ (j - 1)"
    using j64 by (simp add: push_bit_eq_mult unat_pow2)
  with j64 tle le below show ?thesis by blast
qed

theorem percentile_correct_witness:
  "\<exists>j \<le> 64. unat (percentile P50 (hist_of [100, 200, 3000, 5000])) = 2 ^ (j - 1) \<and>
     (j = 0 \<or> length (filter (\<lambda>x. unat x < 2 ^ (j - 1)) [100, 200, 3000, 5000 :: u64]) <
        unat (percentile_target P50 (of_nat 4)))"
  using percentile_correct [of "[100, 200, 3000, 5000]" P50] by (auto simp: P50_def)

text \<open>
  A target of zero is reached in the first bucket whatever it holds: the median of a
  single sample of one second is reported as one nanosecond.
\<close>

lemma percentile_single_sample: "percentile P50 (hist_of [1000000000]) = 1"
proof -
  have eq: "hist_of [1000000000] = hist_record 1000000000 hist_new" by (simp add: hist_of_def)
  have "bucket_for 1000000000 = 30"
    by (simp add: bucket_for_bit_length bit_length.simps)
  then have h: "hist_of [1000000000] = replicate 30 0 @ 1 # replicate 993 0"
    unfolding eq hist_record_def hist_new_def by (simp add: list_update_append eval_nat_numeral)
  have "percentile_target P50 1 = 0"
    by (simp add: percentile_target_def to_double_exact P50_def)
  then show ?thesis unfolding h by (simp add: percentile_def sum_list_replicate eval_nat_numeral)
qed

end
