(* ===== verification/Executor.thy ===== *)
theory Executor
  imports "HOL-Library.Multiset" Model_Repository Metrics Ticket_Queue
begin

text \<open>
  \<^verbatim>\<open>model/model_executor.hpp\<close> and \<^verbatim>\<open>.cpp\<close> with the request and response types of
  \<^verbatim>\<open>inference/types.hpp\<close>: clients hand tasks to a bounded queue, workers collect them into batches, run
  the backend and resolve one promise per task. The steps use the MPMC queue through the contract of
  \<open>Ticket_Queue\<close>: a client claims a ticket and then publishes it, a worker takes a ticket. Clients and workers interleave; clock readings and the point
  at which a batch stops waiting are arbitrary.
\<close>

section \<open>Requests, responses and promises\<close>

record 'f InferenceRequest =
  req_model_id :: string
  req_shape :: "int list"
  req_input :: "'f list"
  req_output_len :: nat
  req_device :: DeviceKind

record InferenceResponse =
  ok :: bool
  error :: string
  resp_shape :: "int list"
  output_elems_written :: u32
  latency_ns :: u64
  routing_ns :: u64
  queue_wait_ns :: u64
  execution_ns :: u64
  send_ns :: u64

definition error_response :: "string \<Rightarrow> InferenceResponse" where
  "error_response msg = \<lparr> ok = False, error = msg, resp_shape = [], output_elems_written = 0, latency_ns = 0,
     routing_ns = 0, queue_wait_ns = 0, execution_ns = 0, send_ns = 0 \<rparr>"

text \<open>A promise is the number of the request that created it.\<close>

record 'f Task =
  req :: "'f InferenceRequest"
  promise :: nat
  enqueue_time :: u64
  task_routing_ns :: u64

text \<open>The lines of \<^verbatim>\<open>infer_async\<close>; \<open>C_Claimed p\<close> is inside \<^verbatim>\<open>try_push\<close>, with the task of promise \<open>p\<close> in the queue and not yet published.\<close>

datatype 'f client = C_Idle | C_Pushing "'f Task" | C_Try "'f Task" | C_Claimed nat | C_Full "'f Task" | C_Pushed | C_Notify

text \<open>
  The lines of \<^verbatim>\<open>worker_loop\<close>: \<open>W_Head\<close> the outer loop test; \<open>W_Batch\<close> the inner loop test, with the
  tasks collected and their queue waits; \<open>W_Pop\<close> before \<^verbatim>\<open>try_pop\<close>; \<open>W_Popped\<close> after the task was taken and before the decrement of
  \<^verbatim>\<open>queue_size_\<close>; \<open>W_Wait\<close> before the wait predicate; \<open>W_Checked\<close> the predicate was false and the thread, which
  holds the mutex, is about to block; \<open>W_Sleep\<close> blocked; \<open>W_Run\<close> the batch is complete.
\<close>

datatype 'f worker = W_Off | W_Head | W_Batch "('f Task \<times> u64) list" | W_Pop "('f Task \<times> u64) list"
  | W_Popped "('f Task \<times> u64) list" | W_Wait | W_Checked | W_Sleep | W_Run "('f Task \<times> u64) list"

record ('f, 'b) executor =
  meta :: "'b ModelMetadata option"
  num_workers :: nat
  tasks :: "'f Task tickets"
  stopped :: bool
  notifying :: bool
  queue_size :: int
  metrics :: PlainMetrics
  latency_hist :: LatencyHistogram
  clients :: "nat \<Rightarrow> 'f client"
  workers :: "nat \<Rightarrow> 'f worker"
  promises :: "nat \<rightharpoonup> InferenceResponse"
  requests :: "'f InferenceRequest list"

definition QUEUE_CAPACITY :: nat where "QUEUE_CAPACITY = 1024"

definition zero_metrics :: PlainMetrics where
  "zero_metrics = \<lparr> requests_received = 0, requests_completed = 0, requests_rejected = 0, queue_timeouts = 0 \<rparr>"

definition executor_new :: "'b ModelMetadata option \<Rightarrow> nat \<Rightarrow> ('f, 'b) executor" where
  "executor_new m n = \<lparr> meta = m, num_workers = (if n > 0 then n else 1), tasks = [], stopped = True,
     notifying = False, queue_size = 0, metrics = zero_metrics, latency_hist = hist_new, clients = (\<lambda>t. C_Idle),
     workers = (\<lambda>w. W_Off), promises = Map.empty, requests = [] \<rparr>"

text \<open>A second \<^verbatim>\<open>set_value\<close> throws; \<open>None\<close>.\<close>

definition set_value :: "nat \<Rightarrow> InferenceResponse \<Rightarrow> ('f, 'b) executor \<Rightarrow> ('f, 'b) executor option" where
  "set_value p r s = (if promises s p \<noteq> None then None else Some (s\<lparr> promises := (promises s)(p \<mapsto> r) \<rparr>))"

definition backend_ready :: "('f, 'b) executor \<Rightarrow> bool" where
  "backend_ready s \<longleftrightarrow> (case meta s of None \<Rightarrow> False | Some m \<Rightarrow> is_ready m \<and> handle m \<noteq> None)"

definition set_client :: "nat \<Rightarrow> 'f client \<Rightarrow> ('f, 'b) executor \<Rightarrow> ('f, 'b) executor" where
  "set_client t c s = s\<lparr> clients := (clients s)(t := c) \<rparr>"

definition set_worker :: "nat \<Rightarrow> 'f worker \<Rightarrow> ('f, 'b) executor \<Rightarrow> ('f, 'b) executor" where
  "set_worker w pc s = s\<lparr> workers := (workers s)(w := pc) \<rparr>"

section \<open>infer_async\<close>

text \<open>Up to the readiness check: a promise is created, and answered at once if the model is not ready.\<close>

definition infer_begin ::
  "nat \<Rightarrow> 'f InferenceRequest \<Rightarrow> u64 \<Rightarrow> u64 \<Rightarrow> ('f, 'b) executor \<Rightarrow> ('f, 'b) executor option" where
  "infer_begin t r now routing s0 =
     (let s = s0\<lparr> metrics := (metrics s0)\<lparr> requests_received := requests_received (metrics s0) + 1 \<rparr>,
                  requests := requests s0 @ [r] \<rparr>;
          slot = \<lparr> req = r, promise = length (requests s0), enqueue_time = now, task_routing_ns = routing \<rparr> in
      if \<not> backend_ready s then set_value (promise slot) (error_response (''model not ready: '' @ req_model_id r)) s
      else Some (set_client t (C_Pushing slot) s))"

definition push_timeout :: "nat \<Rightarrow> 'f Task \<Rightarrow> ('f, 'b) executor \<Rightarrow> ('f, 'b) executor option" where
  "push_timeout t slot s =
     set_value (promise slot) (error_response (''queue full timeout for model: '' @ req_model_id (req slot)))
       (set_client t C_Idle (s\<lparr> metrics := (metrics s)\<lparr> queue_timeouts := queue_timeouts (metrics s) + 1 \<rparr> \<rparr>))"

definition push_stopped :: "nat \<Rightarrow> 'f Task \<Rightarrow> ('f, 'b) executor \<Rightarrow> ('f, 'b) executor option" where
  "push_stopped t slot s = set_value (promise slot) (error_response ''executor stopped'') (set_client t C_Idle s)"

section \<open>worker_loop\<close>

definition with_timing :: "InferenceResponse \<Rightarrow> u64 \<Rightarrow> u64 \<Rightarrow> u64 \<Rightarrow> InferenceResponse" where
  "with_timing r routing wait exec = r\<lparr> routing_ns := routing, queue_wait_ns := wait, execution_ns := exec \<rparr>"

definition count_response :: "InferenceResponse \<Rightarrow> ('f, 'b) executor \<Rightarrow> ('f, 'b) executor" where
  "count_response r s = s\<lparr> latency_hist := hist_record (latency_ns r) (latency_hist s),
     metrics := (if ok r then (metrics s)\<lparr> requests_completed := requests_completed (metrics s) + 1 \<rparr>
                 else (metrics s)\<lparr> requests_rejected := requests_rejected (metrics s) + 1 \<rparr>) \<rparr>"

text \<open>The delivery loop reads \<^verbatim>\<open>resps[i]\<close> for every task of the batch; too few responses: \<open>None\<close>.\<close>

fun deliver ::
  "('f Task \<times> u64) list \<Rightarrow> InferenceResponse list \<Rightarrow> u64 \<Rightarrow> ('f, 'b) executor \<Rightarrow> ('f, 'b) executor option" where
  "deliver [] rs exec s = Some s"
| "deliver ((t, wait) # batch) [] exec s = None"
| "deliver ((t, wait) # batch) (r # rs) exec s =
     Option.bind (set_value (promise t) (with_timing r (task_routing_ns t) wait exec) (count_response r s))
       (deliver batch rs exec)"

fun deliver_unavailable :: "('f Task \<times> u64) list \<Rightarrow> ('f, 'b) executor \<Rightarrow> ('f, 'b) executor option" where
  "deliver_unavailable [] s = Some s"
| "deliver_unavailable ((t, wait) # batch) s =
     Option.bind (set_value (promise t) (error_response ''backend unavailable'') s) (deliver_unavailable batch)"

text \<open>Reading \<^verbatim>\<open>meta_\<close> when it is null has no result.\<close>

definition run_batch ::
  "('b \<Rightarrow> 'f InferenceRequest list \<Rightarrow> InferenceResponse list) \<Rightarrow> u64 \<Rightarrow> ('f Task \<times> u64) list \<Rightarrow> ('f, 'b) executor \<Rightarrow>
    ('f, 'b) executor option" where
  "run_batch infer_batch exec batch s =
     (case meta s of None \<Rightarrow> None
      | Some m \<Rightarrow> (case handle m of
          Some b \<Rightarrow> if is_ready m then deliver batch (infer_batch b (map (\<lambda>(t, w). req t) batch)) exec s
                    else deliver_unavailable batch s
        | None \<Rightarrow> deliver_unavailable batch s))"

definition max_batch :: "'b ModelMetadata \<Rightarrow> nat" where
  "max_batch m = unat (max_batch_size (config m))"

section \<open>The steps of the threads\<close>

text \<open>
  A push may be refused when the queue is full, and when a worker that took a task may not yet have released
  its slot. A client publishes its own ticket, that of its promise.
\<close>

definition refuses :: "('f, 'b) executor \<Rightarrow> bool" where
  "refuses s \<longleftrightarrow> length (tasks s) = QUEUE_CAPACITY \<or> (\<exists>w batch. workers s w = W_Popped batch)"

definition publish_task :: "nat \<Rightarrow> 'f Task tickets \<Rightarrow> 'f Task tickets" where
  "publish_task p q = map (\<lambda>(k, b). (k, b \<or> promise k = p)) q"

text \<open>
  Clients check \<^verbatim>\<open>stopped_\<close>, push, count and notify in separate steps. The notification is sent without
  the mutex: it wakes one sleeper if there is one and is lost otherwise.
\<close>

inductive client_step :: "('f, 'b) executor \<Rightarrow> ('f, 'b) executor \<Rightarrow> bool" where
  call: "clients s t = C_Idle \<Longrightarrow> infer_begin t r now routing s = Some s' \<Longrightarrow> client_step s s'"
| check_running: "clients s t = C_Pushing slot \<Longrightarrow> \<not> stopped s \<Longrightarrow> client_step s (set_client t (C_Try slot) s)"
| check_stopped: "clients s t = C_Pushing slot \<Longrightarrow> stopped s \<Longrightarrow> push_stopped t slot s = Some s' \<Longrightarrow> client_step s s'"
| claim: "clients s t = C_Try slot \<Longrightarrow> claim_ticket QUEUE_CAPACITY slot (tasks s) = Some q \<Longrightarrow>
    client_step s (set_client t (C_Claimed (promise slot)) (s\<lparr> tasks := q \<rparr>))"
| publish: "clients s t = C_Claimed p \<Longrightarrow>
    client_step s (set_client t C_Pushed (s\<lparr> tasks := publish_task p (tasks s) \<rparr>))"
| push_full: "clients s t = C_Try slot \<Longrightarrow> refuses s \<Longrightarrow> client_step s (set_client t (C_Full slot) s)"
| retry: "clients s t = C_Full slot \<Longrightarrow> client_step s (set_client t (C_Pushing slot) s)"
| deadline: "clients s t = C_Full slot \<Longrightarrow> push_timeout t slot s = Some s' \<Longrightarrow> client_step s s'"
| count: "clients s t = C_Pushed \<Longrightarrow>
    client_step s (set_client t C_Notify (s\<lparr> queue_size := queue_size s + 1 \<rparr>))"
| notify_one: "clients s t = C_Notify \<Longrightarrow> workers s w = W_Sleep \<Longrightarrow>
    client_step s (set_worker w W_Wait (set_client t C_Idle s))"
| notify_none: "clients s t = C_Notify \<Longrightarrow> (\<forall>w. workers s w \<noteq> W_Sleep) \<Longrightarrow> client_step s (set_client t C_Idle s)"

text \<open>Every load, pop and decrement of a worker is a step; a batch is delivered in one.\<close>

inductive worker_step ::
  "('b \<Rightarrow> 'f InferenceRequest list \<Rightarrow> InferenceResponse list) \<Rightarrow> nat \<Rightarrow> ('f, 'b) executor \<Rightarrow> ('f, 'b) executor \<Rightarrow> bool"
  for infer_batch w where
  leave: "workers s w = W_Head \<Longrightarrow> stopped s \<Longrightarrow> worker_step infer_batch w s (set_worker w W_Off s)"
| enter: "workers s w = W_Head \<Longrightarrow> \<not> stopped s \<Longrightarrow> meta s \<noteq> None \<Longrightarrow>
    worker_step infer_batch w s (set_worker w (W_Batch []) s)"
| more: "workers s w = W_Batch batch \<Longrightarrow> meta s = Some m \<Longrightarrow> length batch < max_batch m \<Longrightarrow> \<not> stopped s \<Longrightarrow>
    worker_step infer_batch w s (set_worker w (W_Pop batch) s)"
| enough: "workers s w = W_Batch batch \<Longrightarrow> meta s = Some m \<Longrightarrow> \<not> length batch < max_batch m \<or> stopped s \<Longrightarrow>
    worker_step infer_batch w s (set_worker w (if batch = [] then W_Wait else W_Run batch) s)"
| pop: "workers s w = W_Pop batch \<Longrightarrow> take_ticket (tasks s) = Some (t, q) \<Longrightarrow>
    worker_step infer_batch w s
      (set_worker w (W_Popped (batch @ [(t, now - enqueue_time t)])) (s\<lparr> tasks := q \<rparr>))"
| popped: "workers s w = W_Popped batch \<Longrightarrow>
    worker_step infer_batch w s (set_worker w (W_Batch batch) (s\<lparr> queue_size := queue_size s - 1 \<rparr>))"
| no_task: "workers s w = W_Pop [] \<Longrightarrow> take_ticket (tasks s) = None \<Longrightarrow>
    worker_step infer_batch w s (set_worker w W_Wait s)"
| pause: "workers s w = W_Pop batch \<Longrightarrow> batch \<noteq> [] \<Longrightarrow> take_ticket (tasks s) = None \<Longrightarrow>
    worker_step infer_batch w s (set_worker w (W_Batch batch) s)"
| delay_over: "workers s w = W_Pop batch \<Longrightarrow> batch \<noteq> [] \<Longrightarrow> take_ticket (tasks s) = None \<Longrightarrow>
    worker_step infer_batch w s (set_worker w (W_Run batch) s)"
| awake: "workers s w = W_Wait \<Longrightarrow> queue_size s > 0 \<or> stopped s \<Longrightarrow> worker_step infer_batch w s (set_worker w W_Head s)"
| idle: "workers s w = W_Wait \<Longrightarrow> \<not> (queue_size s > 0 \<or> stopped s) \<Longrightarrow>
    worker_step infer_batch w s (set_worker w W_Checked s)"
| block: "workers s w = W_Checked \<Longrightarrow> worker_step infer_batch w s (set_worker w W_Sleep s)"
| run: "workers s w = W_Run batch \<Longrightarrow> run_batch infer_batch exec batch s = Some s' \<Longrightarrow>
    worker_step infer_batch w s (set_worker w W_Head s')"

text \<open>
  \<open>start\<close> and \<open>stop\<close> act only on a change of \<^verbatim>\<open>stopped_\<close>. After the flag \<open>stop\<close> passes through the mutex,
  which no worker between check and block has released, and wakes all sleepers; its joins end when
  all workers are off. The metadata behind the pointer may change at any time, and a sleeper may wake
  spuriously.
\<close>

inductive control_step :: "('f, 'b) executor \<Rightarrow> ('f, 'b) executor \<Rightarrow> bool" where
  start: "stopped s \<Longrightarrow> (\<forall>w. workers s w = W_Off) \<Longrightarrow>
    control_step s (s\<lparr> stopped := False, workers := (\<lambda>w. if w < num_workers s then W_Head else W_Off) \<rparr>)"
| stop: "\<not> stopped s \<Longrightarrow> control_step s (s\<lparr> stopped := True, notifying := True \<rparr>)"
| notify_all: "notifying s \<Longrightarrow> (\<forall>w. workers s w \<noteq> W_Checked) \<Longrightarrow>
    control_step s (s\<lparr> notifying := False, workers := (\<lambda>w. if workers s w = W_Sleep then W_Wait else workers s w) \<rparr>)"
| reload: "meta s = Some m \<Longrightarrow> control_step s (s\<lparr> meta := Some m' \<rparr>)"
| spurious: "workers s w = W_Sleep \<Longrightarrow> control_step s (set_worker w W_Wait s)"

definition exec_step ::
  "('b \<Rightarrow> 'f InferenceRequest list \<Rightarrow> InferenceResponse list) \<Rightarrow> ('f, 'b) executor \<Rightarrow> ('f, 'b) executor \<Rightarrow> bool" where
  "exec_step infer_batch s s' \<longleftrightarrow> client_step s s' \<or> (\<exists>w. worker_step infer_batch w s s') \<or> control_step s s'"

definition exec_init :: "('f, 'b) executor \<Rightarrow> bool" where
  "exec_init s \<longleftrightarrow> (\<exists>m n. s = executor_new m n)"

section \<open>Who holds which promise\<close>

datatype holder = Client nat | Queue | Worker nat

fun client_tasks :: "'f client \<Rightarrow> 'f Task list" where
  "client_tasks (C_Pushing k) = [k]"
| "client_tasks (C_Try k) = [k]"
| "client_tasks (C_Full k) = [k]"
| "client_tasks _ = []"

fun worker_tasks :: "'f worker \<Rightarrow> 'f Task list" where
  "worker_tasks (W_Batch b) = map fst b"
| "worker_tasks (W_Pop b) = map fst b"
| "worker_tasks (W_Popped b) = map fst b"
| "worker_tasks (W_Run b) = map fst b"
| "worker_tasks _ = []"

fun tasks_of :: "('f, 'b) executor \<Rightarrow> holder \<Rightarrow> 'f Task list" where
  "tasks_of s (Client t) = client_tasks (clients s t)"
| "tasks_of s Queue = map fst (tasks s)"
| "tasks_of s (Worker w) = worker_tasks (workers s w)"

definition held :: "('f, 'b) executor \<Rightarrow> holder \<Rightarrow> nat list" where
  "held s h = map promise (tasks_of s h)"

text \<open>Every promise made so far is resolved or held, by one holder and once.\<close>

definition owns :: "(holder \<Rightarrow> nat list) \<Rightarrow> nat set \<Rightarrow> nat \<Rightarrow> bool" where
  "owns H D N \<longleftrightarrow> (\<forall>h. distinct (H h)) \<and> (\<forall>p h. p \<in> set (H h) \<longrightarrow> p \<notin> D \<and> p < N) \<and>
     (\<forall>p h h'. p \<in> set (H h) \<longrightarrow> p \<in> set (H h') \<longrightarrow> h = h') \<and>
     (\<forall>p \<in> D. p < N) \<and> (\<forall>p < N. p \<in> D \<or> (\<exists>h. p \<in> set (H h)))"

lemma ownsD:
  assumes "owns H D N"
  shows "distinct (H h)" "p \<in> set (H h) \<Longrightarrow> p \<notin> D" "p \<in> set (H h) \<Longrightarrow> p < N"
    "p \<in> set (H h) \<Longrightarrow> p \<in> set (H h') \<Longrightarrow> h = h'" "p \<in> D \<Longrightarrow> p < N"
    "p < N \<Longrightarrow> p \<in> D \<or> (\<exists>h. p \<in> set (H h))"
  using assms unfolding owns_def by blast+

lemma ownsI:
  assumes "\<And>h. distinct (H h)" "\<And>p h. p \<in> set (H h) \<Longrightarrow> p \<notin> D \<and> p < N"
    "\<And>p h h'. p \<in> set (H h) \<Longrightarrow> p \<in> set (H h') \<Longrightarrow> h = h'" "\<And>p. p \<in> D \<Longrightarrow> p < N"
    "\<And>p. p < N \<Longrightarrow> p \<notin> D \<Longrightarrow> \<exists>h. p \<in> set (H h)"
  shows "owns H D N"
  using assms unfolding owns_def by blast

lemma owns_move:
  assumes own: "owns H D N" and ab: "a \<noteq> b" and rest: "\<And>h. h \<noteq> a \<Longrightarrow> h \<noteq> b \<Longrightarrow> H' h = H h"
    and un: "set (H' a) \<union> set (H' b) = set (H a) \<union> set (H b)" and d: "distinct (H' a @ H' b)"
  shows "owns H' D N"
proof (rule ownsI)
  note ow = ownsD [OF own]
  have bk: "\<exists>g. p \<in> set (H g) \<and> (h \<notin> {a, b} \<longrightarrow> g = h) \<and> (h \<in> {a, b} \<longrightarrow> g \<in> {a, b})"
    if "p \<in> set (H' h)" for p h
    using that un rest [of h] by (cases "h = a \<or> h = b") auto
  show "distinct (H' h)" for h using d rest [of h] ow(1) by (cases "h = a \<or> h = b") auto
  show "p \<notin> D \<and> p < N" if "p \<in> set (H' h)" for p h using bk [OF that] ow(2,3) by blast
  show "p < N" if "p \<in> D" for p using ow(5) that .
  show "h = h'" if pp: "p \<in> set (H' h)" "p \<in> set (H' h')" for p h h'
  proof (cases "h \<in> {a, b} \<and> h' \<in> {a, b}")
    case True
    then show ?thesis using pp d by auto
  next
    case False
    obtain g g' where "p \<in> set (H g)" "h \<notin> {a, b} \<longrightarrow> g = h" "h \<in> {a, b} \<longrightarrow> g \<in> {a, b}"
      "p \<in> set (H g')" "h' \<notin> {a, b} \<longrightarrow> g' = h'" "h' \<in> {a, b} \<longrightarrow> g' \<in> {a, b}"
      using bk [OF pp(1)] bk [OF pp(2)] by blast
    moreover from this have "g = g'" using ow(4) by blast
    ultimately show ?thesis using False by blast
  qed
  show "\<exists>h. p \<in> set (H' h)" if p: "p < N" "p \<notin> D" for p
  proof -
    obtain h where h: "p \<in> set (H h)" using ow(6) p by blast
    then show ?thesis using un rest [of h] by (cases "h = a \<or> h = b") (blast, metis)
  qed
qed

lemma owns_resolve:
  assumes own: "owns H D N"
  shows "owns (H(a := [])) (D \<union> set (H a)) N"
proof (rule ownsI)
  note ow = ownsD [OF own]
  have sub: "h \<noteq> a \<and> p \<in> set (H h)" if "p \<in> set ((H(a := [])) h)" for p h using that by (auto split: if_splits)
  show "distinct ((H(a := [])) h)" for h using ow(1) by simp
  show "p \<notin> D \<union> set (H a) \<and> p < N" if "p \<in> set ((H(a := [])) h)" for p h
    using sub [OF that] ow(2,3,4) by blast
  show "h = h'" if "p \<in> set ((H(a := [])) h)" "p \<in> set ((H(a := [])) h')" for p h h'
    using sub [OF that(1)] sub [OF that(2)] ow(4) by blast
  show "p < N" if "p \<in> D \<union> set (H a)" for p using that ow(3,5) by blast
  show "\<exists>h. p \<in> set ((H(a := [])) h)" if p: "p < N" "p \<notin> D \<union> set (H a)" for p
  proof -
    obtain h where "p \<in> set (H h)" using ow(6) p by blast
    then show ?thesis using p(2) by (intro exI [of _ h]) auto
  qed
qed

lemma owns_new_held:
  assumes own: "owns H D N" and empty: "H a = []"
  shows "owns (H(a := [N])) D (Suc N)"
proof (rule ownsI)
  note ow = ownsD [OF own]
  show "distinct ((H(a := [N])) h)" for h using ow(1) by simp
  show "p \<notin> D \<and> p < Suc N" if "p \<in> set ((H(a := [N])) h)" for p h
    using that ow(2,3) ow(5) [of N] by (auto split: if_splits intro: less_SucI)
  show "h = h'" if "p \<in> set ((H(a := [N])) h)" "p \<in> set ((H(a := [N])) h')" for p h h'
    using that ow(3,4) by (auto split: if_splits)
  show "p < Suc N" if "p \<in> D" for p using ow(5) [OF that] by simp
  show "\<exists>h. p \<in> set ((H(a := [N])) h)" if p: "p < Suc N" "p \<notin> D" for p
  proof (cases "p = N")
    case True
    then show ?thesis by (intro exI [of _ a]) simp
  next
    case False
    then obtain h where "p \<in> set (H h)" using ow(6) p by (metis less_antisym)
    then show ?thesis using empty by (intro exI [of _ h]) auto
  qed
qed

lemma owns_new_resolved:
  assumes own: "owns H D N"
  shows "owns H (insert N D) (Suc N)"
proof (rule ownsI)
  note ow = ownsD [OF own]
  show "distinct (H h)" for h by (rule ow(1))
  show "p \<notin> insert N D \<and> p < Suc N" if "p \<in> set (H h)" for p h using ow(2,3) [OF that] by auto
  show "h = h'" if "p \<in> set (H h)" "p \<in> set (H h')" for p h h' using ow(4) that .
  show "p < Suc N" if "p \<in> insert N D" for p using that ow(5) by (auto intro: less_SucI)
  show "\<exists>h. p \<in> set (H h)" if "p < Suc N" "p \<notin> insert N D" for p using ow(6) that by (metis insertI1 insertI2 less_antisym)
qed

lemma owns_initial: "owns (\<lambda>h. []) {} 0"
  by (rule ownsI) auto

subsection \<open>How the steps change what is held\<close>

lemma tasks_of_set [simp]:
  "tasks_of (set_client t c s) = (tasks_of s)(Client t := client_tasks c)"
  "tasks_of (set_worker w pc s) = (tasks_of s)(Worker w := worker_tasks pc)"
  "tasks_of (s\<lparr> tasks := q \<rparr>) = (tasks_of s)(Queue := map fst q)"
proof -
  show "tasks_of (set_client t c s) = (tasks_of s)(Client t := client_tasks c)"
  proof
    fix h show "tasks_of (set_client t c s) h = ((tasks_of s)(Client t := client_tasks c)) h"
      by (cases h) (simp_all add: set_client_def)
  qed
  show "tasks_of (set_worker w pc s) = (tasks_of s)(Worker w := worker_tasks pc)"
  proof
    fix h show "tasks_of (set_worker w pc s) h = ((tasks_of s)(Worker w := worker_tasks pc)) h"
      by (cases h) (simp_all add: set_worker_def)
  qed
  show "tasks_of (s\<lparr> tasks := q \<rparr>) = (tasks_of s)(Queue := map fst q)"
  proof
    fix h show "tasks_of (s\<lparr> tasks := q \<rparr>) h = ((tasks_of s)(Queue := map fst q)) h" by (cases h) simp_all
  qed
qed

lemma tasks_of_cong:
  assumes "clients s = clients s'" "tasks s = tasks s'" "\<And>w. worker_tasks (workers s w) = worker_tasks (workers s' w)"
  shows "tasks_of s = tasks_of s'"
proof
  fix h show "tasks_of s h = tasks_of s' h" using assms by (cases h) simp_all
qed

lemma held_eq: "held s = (\<lambda>h. map promise (tasks_of s h))"
  by (rule ext) (simp add: held_def)

lemma set_simps [simp]:
  "promises (set_client t c s) = promises s" "requests (set_client t c s) = requests s"
  "workers (set_client t c s) = workers s" "clients (set_client t c s) = (clients s)(t := c)"
  "promises (set_worker w pc s) = promises s" "requests (set_worker w pc s) = requests s"
  "workers (set_worker w pc s) = (workers s)(w := pc)" "clients (set_worker w pc s) = clients s"
  "stopped (set_client t c s) = stopped s" "stopped (set_worker w pc s) = stopped s"
  "notifying (set_client t c s) = notifying s" "notifying (set_worker w pc s) = notifying s"
  "num_workers (set_client t c s) = num_workers s" "num_workers (set_worker w pc s) = num_workers s"
  "tasks (set_client t c s) = tasks s" "tasks (set_worker w pc s) = tasks s"
  "meta (set_client t c s) = meta s" "meta (set_worker w pc s) = meta s"
  by (simp_all add: set_client_def set_worker_def)

subsection \<open>Delivery\<close>

definition answers_only :: "('f, 'b) executor \<Rightarrow> ('f, 'b) executor \<Rightarrow> bool" where
  "answers_only s s' \<longleftrightarrow> requests s' = requests s \<and> clients s' = clients s \<and> workers s' = workers s \<and>
     tasks s' = tasks s \<and> stopped s' = stopped s \<and> notifying s' = notifying s \<and>
     num_workers s' = num_workers s \<and> meta s' = meta s \<and> queue_size s' = queue_size s"

lemma answers_onlyD:
  assumes "answers_only s s'"
  shows "requests s' = requests s" "clients s' = clients s" "workers s' = workers s" "tasks s' = tasks s"
    "stopped s' = stopped s" "notifying s' = notifying s" "num_workers s' = num_workers s" "meta s' = meta s"
  using assms unfolding answers_only_def by auto

lemma answers_only_refl: "answers_only s s"
  by (simp add: answers_only_def)

lemma answers_only_trans: "answers_only s t \<Longrightarrow> answers_only t u \<Longrightarrow> answers_only s u"
  by (simp add: answers_only_def)

lemma set_value_Some:
  "set_value p r s = Some s' \<longleftrightarrow> promises s p = None \<and> s' = s\<lparr> promises := (promises s)(p \<mapsto> r) \<rparr>"
  by (auto simp: set_value_def)

lemma set_value_only: "set_value p r s = Some s' \<Longrightarrow> answers_only s s'"
  by (auto simp: answers_only_def set_value_Some)

lemma count_response_only: "answers_only s (count_response r s)"
  by (simp add: answers_only_def count_response_def)

lemma promises_count [simp]: "promises (count_response r s) = promises s"
  by (simp add: count_response_def)

definition timed :: "('f Task \<times> u64) \<Rightarrow> u64 \<Rightarrow> InferenceResponse \<Rightarrow> InferenceResponse" where
  "timed tw exec r = with_timing r (task_routing_ns (fst tw)) (snd tw) exec"

definition resolves ::
  "nat set \<Rightarrow> (nat \<Rightarrow> InferenceResponse \<Rightarrow> bool) \<Rightarrow> ('f, 'b) executor \<Rightarrow> ('f, 'b) executor \<Rightarrow> bool" where
  "resolves D Q s s' \<longleftrightarrow> answers_only s s' \<and> dom (promises s') = dom (promises s) \<union> D \<and>
     (\<forall>p r. promises s' p = Some r \<longrightarrow> promises s p = Some r \<or> Q p r)"

lemma resolves_refl: "resolves {} Q s s"
  by (simp add: resolves_def answers_only_refl)

lemma resolves_trans:
  assumes "resolves D Q s t" "resolves D' Q' t u" "\<And>p r. Q p r \<Longrightarrow> R p r" "\<And>p r. Q' p r \<Longrightarrow> R p r"
  shows "resolves (D \<union> D') R s u"
  using assms answers_only_trans unfolding resolves_def by (metis sup_assoc)

lemma resolves_set_value:
  assumes "set_value p r s0 = Some s'" "answers_only s s0" "promises s0 = promises s" "Q p r"
  shows "resolves {p} Q s s'"
proof -
  have "promises s' = (promises s)(p \<mapsto> r)" using assms(1,3) by (simp add: set_value_Some)
  moreover have "answers_only s s'" using set_value_only [OF assms(1)] assms(2) answers_only_trans by blast
  ultimately show ?thesis using assms(4) unfolding resolves_def by (auto split: if_splits)
qed

lemma deliver_Some:
  "deliver batch rs exec s = Some s' \<Longrightarrow> length batch \<le> length rs \<and>
     resolves (promise ` fst ` set batch)
       (\<lambda>p r. \<exists>i < length batch. p = promise (fst (batch ! i)) \<and> r = timed (batch ! i) exec (rs ! i)) s s'"
proof (induction batch rs exec s rule: deliver.induct)
  case (3 t wait batch r rs exec s)
  from "3.prems" obtain s1 where s1: "set_value (promise t) (with_timing r (task_routing_ns t) wait exec) (count_response r s) = Some s1"
    and rest: "deliver batch rs exec s1 = Some s'" by (auto simp: Option.bind_eq_Some_conv)
  have head: "resolves {promise t} (\<lambda>p a. p = promise t \<and> a = timed (t, wait) exec r) s s1"
    using resolves_set_value [OF s1 count_response_only] by (simp add: timed_def)
  note ih = "3.IH" [OF s1 rest]
  have "resolves ({promise t} \<union> promise ` fst ` set batch) (\<lambda>p a. \<exists>i < length ((t, wait) # batch).
      p = promise (fst (((t, wait) # batch) ! i)) \<and> a = timed (((t, wait) # batch) ! i) exec ((r # rs) ! i)) s s'"
    by (rule resolves_trans [OF head conjunct2 [OF ih]]) (auto simp: less_Suc_eq_0_disj)
  moreover have "length ((t, wait) # batch) \<le> length (r # rs)" using ih by simp
  ultimately show ?case by simp
qed (simp_all add: resolves_refl)

lemma deliver_total:
  "distinct (map (promise \<circ> fst) batch) \<Longrightarrow> \<forall>tw \<in> set batch. promises s (promise (fst tw)) = None \<Longrightarrow>
     length batch \<le> length rs \<Longrightarrow> deliver batch rs exec s \<noteq> None"
proof (induction batch rs exec s rule: deliver.induct)
  case (3 t wait batch r rs exec s)
  obtain s1 where s1: "set_value (promise t) (with_timing r (task_routing_ns t) wait exec) (count_response r s) = Some s1"
    using "3.prems"(2) by (simp add: set_value_def)
  have "deliver batch rs exec s1 \<noteq> None"
    by (rule "3.IH" [OF s1]) (use "3.prems" s1 in \<open>auto simp: set_value_Some image_iff\<close>)
  then show ?case using s1 by simp
qed simp_all

lemma deliver_unavailable_Some:
  "deliver_unavailable batch s = Some s' \<Longrightarrow>
     resolves (promise ` fst ` set batch) (\<lambda>p r. p \<in> promise ` fst ` set batch \<and> r = error_response ''backend unavailable'') s s'"
proof (induction batch s rule: deliver_unavailable.induct)
  case (2 t wait batch s)
  from "2.prems" obtain s1 where s1: "set_value (promise t) (error_response ''backend unavailable'') s = Some s1"
    and rest: "deliver_unavailable batch s1 = Some s'" by (auto simp: Option.bind_eq_Some_conv)
  have head: "resolves {promise t} (\<lambda>p a. p = promise t \<and> a = error_response ''backend unavailable'') s s1"
    using resolves_set_value [OF s1 answers_only_refl] by simp
  show ?case
    using resolves_trans [OF head "2.IH" [OF s1 rest],
      where R = "\<lambda>p r. p \<in> promise ` fst ` set ((t, wait) # batch) \<and> r = error_response ''backend unavailable''"] by auto
qed (simp add: resolves_refl)

lemma deliver_unavailable_total:
  "distinct (map (promise \<circ> fst) batch) \<Longrightarrow> \<forall>tw \<in> set batch. promises s (promise (fst tw)) = None \<Longrightarrow>
     deliver_unavailable batch s \<noteq> None"
proof (induction batch s rule: deliver_unavailable.induct)
  case (2 t wait batch s)
  obtain s1 where s1: "set_value (promise t) (error_response ''backend unavailable'') s = Some s1"
    using "2.prems"(2) by (simp add: set_value_def)
  have "deliver_unavailable batch s1 \<noteq> None"
    by (rule "2.IH" [OF s1]) (use "2.prems" s1 in \<open>auto simp: set_value_Some image_iff\<close>)
  then show ?case using s1 by simp
qed simp

section \<open>The invariant\<close>

text \<open>An answer to a request: one of the error messages, or the backend's response to that very request.\<close>

definition answer_ok ::
  "('b \<Rightarrow> 'f InferenceRequest list \<Rightarrow> InferenceResponse list) \<Rightarrow> 'f InferenceRequest \<Rightarrow> InferenceResponse \<Rightarrow> bool" where
  "answer_ok infer_batch q r \<longleftrightarrow>
     r \<in> error_response ` {''model not ready: '' @ req_model_id q, ''queue full timeout for model: '' @ req_model_id q,
        ''executor stopped'', ''backend unavailable''} \<or>
     (\<exists>b rs i x y z. i < length rs \<and> rs ! i = q \<and> i < length (infer_batch b rs) \<and>
        r = with_timing (infer_batch b rs ! i) x y z)"

text \<open>
  The part of the invariant that speaks of promises, over the tasks of each holder, the resolved
  promises and the requests made: unresolved promises have one holder, held tasks carry the request of
  their promise, and resolved promises carry an answer to it.
\<close>

definition promises_ok ::
  "('b \<Rightarrow> 'f InferenceRequest list \<Rightarrow> InferenceResponse list) \<Rightarrow> (holder \<Rightarrow> 'f Task list) \<Rightarrow>
    (nat \<rightharpoonup> InferenceResponse) \<Rightarrow> 'f InferenceRequest list \<Rightarrow> bool" where
  "promises_ok infer_batch T P R \<longleftrightarrow> owns (\<lambda>h. map promise (T h)) (dom P) (length R) \<and>
     (\<forall>h. \<forall>k \<in> set (T h). req k = R ! promise k) \<and> (\<forall>p r. P p = Some r \<longrightarrow> answer_ok infer_batch (R ! p) r)"

definition waking :: "('f, 'b) executor \<Rightarrow> bool" where
  "waking s \<longleftrightarrow> (stopped s \<longrightarrow> notifying s \<or> (\<forall>w. workers s w \<noteq> W_Checked \<and> workers s w \<noteq> W_Sleep)) \<and>
     (\<forall>w \<ge> num_workers s. workers s w = W_Off)"

text \<open>A task that cannot be taken yet belongs to a client that is about to publish it.\<close>

definition published :: "('f, 'b) executor \<Rightarrow> bool" where
  "published s \<longleftrightarrow> (\<forall>k. (k, False) \<in> set (tasks s) \<longrightarrow> (\<exists>t. clients s t = C_Claimed (promise k)))"

lemma run_batch_Some:
  assumes run: "run_batch infer_batch exec batch s = Some s'"
    and q: "\<And>tw. tw \<in> set batch \<Longrightarrow> req (fst tw) = requests s ! promise (fst tw)"
  shows "resolves (promise ` fst ` set batch) (\<lambda>p. answer_ok infer_batch (requests s ! p)) s s'"
proof -
  have sub: "resolves D R s s'" if "resolves D Q s s'" "\<And>p r. Q p r \<Longrightarrow> R p r" for D Q R
    using that unfolding resolves_def by blast
  show ?thesis
  proof (cases "\<exists>m b. meta s = Some m \<and> handle m = Some b \<and> is_ready m")
    case True
    then obtain m b where b: "meta s = Some m" "handle m = Some b" "is_ready m" by blast
    let ?reqs = "map (\<lambda>(t, w). req t) batch"
    have d: "deliver batch (infer_batch b ?reqs) exec s = Some s'" using run b by (simp add: run_batch_def)
    note dd = deliver_Some [OF d]
    show ?thesis
    proof (rule sub [OF conjunct2 [OF dd]], elim exE conjE)
      fix p r i assume i: "i < length batch" and p: "p = promise (fst (batch ! i))" and r: "r = timed (batch ! i) exec (infer_batch b ?reqs ! i)"
      have "?reqs ! i = requests s ! p" using i p q [of "batch ! i"] by (simp add: case_prod_beta)
      then have "i < length ?reqs \<and> ?reqs ! i = requests s ! p \<and> i < length (infer_batch b ?reqs) \<and>
          r = with_timing (infer_batch b ?reqs ! i) (task_routing_ns (fst (batch ! i))) (snd (batch ! i)) exec"
        using i dd r by (simp add: timed_def)
      then show "answer_ok infer_batch (requests s ! p) r" unfolding answer_ok_def by blast
    qed
  next
    case False
    then have "deliver_unavailable batch s = Some s'" using run by (auto simp: run_batch_def split: option.splits if_splits)
    from deliver_unavailable_Some [OF this] show ?thesis by (rule sub) (simp add: answer_ok_def)
  qed
qed

lemma run_batch_total:
  assumes "meta s \<noteq> None" "distinct (map (promise \<circ> fst) batch)"
    "\<forall>tw \<in> set batch. promises s (promise (fst tw)) = None"
    "\<And>b rs. length (infer_batch b rs) = length rs"
  shows "run_batch infer_batch exec batch s \<noteq> None"
  using assms deliver_total [OF assms(2,3)] deliver_unavailable_total [OF assms(2,3)]
  by (auto simp: run_batch_def split: option.splits)

definition exec_inv ::
  "('b \<Rightarrow> 'f InferenceRequest list \<Rightarrow> InferenceResponse list) \<Rightarrow> ('f, 'b) executor \<Rightarrow> bool" where
  "exec_inv infer_batch s \<longleftrightarrow> promises_ok infer_batch (tasks_of s) (promises s) (requests s) \<and> waking s \<and> published s"

lemma promises_okD:
  assumes "promises_ok ib T P R"
  shows "owns (\<lambda>h. map promise (T h)) (dom P) (length R)" "k \<in> set (T h) \<Longrightarrow> req k = R ! promise k"
    "P p = Some r \<Longrightarrow> answer_ok ib (R ! p) r" "k \<in> set (T h) \<Longrightarrow> P (promise k) = None"
    "k \<in> set (T h) \<Longrightarrow> promise k < length R" "distinct (map promise (T h))"
proof -
  have own: "owns (\<lambda>h. map promise (T h)) (dom P) (length R)" using assms by (simp add: promises_ok_def)
  then show "owns (\<lambda>h. map promise (T h)) (dom P) (length R)" .
  show "k \<in> set (T h) \<Longrightarrow> req k = R ! promise k" "P p = Some r \<Longrightarrow> answer_ok ib (R ! p) r"
    using assms unfolding promises_ok_def by blast+
  show "distinct (map promise (T h))" using ownsD(1) [OF own] .
  have m: "promise k \<in> set (map promise (T h))" if "k \<in> set (T h)" using that by simp
  show "k \<in> set (T h) \<Longrightarrow> P (promise k) = None" using ownsD(2) [OF own m] by auto
  show "k \<in> set (T h) \<Longrightarrow> promise k < length R" using ownsD(3) [OF own m] by auto
qed

lemma promises_ok_move:
  assumes ok: "promises_ok ib T P R" and ab: "a \<noteq> b" and rest: "\<And>h. h \<noteq> a \<Longrightarrow> h \<noteq> b \<Longrightarrow> T' h = T h"
    and un: "mset (T' a @ T' b) = mset (T a @ T b)"
  shows "promises_ok ib T' P R"
proof -
  note od = ownsD [OF promises_okD(1) [OF ok]]
  have st: "set (T' a) \<union> set (T' b) = set (T a) \<union> set (T b)" using mset_eq_setD [OF un] by simp
  have "mset (map promise (T' a @ T' b)) = mset (map promise (T a @ T b))" by (simp only: mset_map un)
  moreover have "distinct (map promise (T a @ T b))"
    using od(1) [of a] od(1) [of b] od(4) [of _ a b] ab by auto
  ultimately have d: "distinct (map promise (T' a @ T' b))" by (metis mset_eq_imp_distinct_iff)
  have "owns (\<lambda>h. map promise (T' h)) (dom P) (length R)"
  proof (rule owns_move [OF promises_okD(1) [OF ok] ab])
    show "set (map promise (T' a)) \<union> set (map promise (T' b)) = set (map promise (T a)) \<union> set (map promise (T b))"
      using st by (simp add: image_Un [symmetric])
  qed (use rest d in simp_all)
  moreover have "req k = R ! promise k" if "k \<in> set (T' h)" for h k
  proof -
    have "k \<in> set (T h) \<or> k \<in> set (T a) \<union> set (T b)"
      using that rest [of h] st by (cases "h = a \<or> h = b") auto
    then show ?thesis using promises_okD(2) [OF ok] by auto
  qed
  ultimately show ?thesis using promises_okD(3) [OF ok] unfolding promises_ok_def by blast
qed

lemma promises_ok_resolve:
  assumes ok: "promises_ok ib T P R" and d: "dom P' = dom P \<union> promise ` set (T a)"
    and new: "\<And>p r. P' p = Some r \<Longrightarrow> P p = Some r \<or> answer_ok ib (R ! p) r"
  shows "promises_ok ib (T(a := [])) P' R"
proof -
  have "(\<lambda>h. map promise ((T(a := [])) h)) = (\<lambda>h. map promise (T h))(a := [])" by auto
  then have "owns (\<lambda>h. map promise ((T(a := [])) h)) (dom P') (length R)"
    using owns_resolve [OF promises_okD(1) [OF ok], of a] d by simp
  moreover have "req k = R ! promise k" if "k \<in> set ((T(a := [])) h)" for h k
    using that promises_okD(2) [OF ok] by (auto split: if_splits)
  ultimately show ?thesis using promises_okD(3) [OF ok] new unfolding promises_ok_def by blast
qed

lemma promises_ok_new:
  assumes ok: "promises_ok ib T P R"
  shows "T a = [] \<Longrightarrow> promise k = length R \<Longrightarrow> req k = r \<Longrightarrow> promises_ok ib (T(a := [k])) P (R @ [r])"
    and "answer_ok ib r e \<Longrightarrow> promises_ok ib T (P(length R \<mapsto> e)) (R @ [r])"
proof -
  note od = ownsD [OF promises_okD(1) [OF ok]]
  have old: "req k = (R @ [r]) ! promise k" if "k \<in> set (T h)" for h k
    using promises_okD(2,5) [OF ok that] by (simp add: nth_append)
  have ans: "answer_ok ib ((R @ [r]) ! p) e" if "P p = Some e" for p e
    using promises_okD(3) [OF ok that] od(5) [of p] that by (auto simp: nth_append)
  show "promises_ok ib (T(a := [k])) P (R @ [r])" if "T a = []" "promise k = length R" "req k = r"
  proof -
    have "(\<lambda>h. map promise ((T(a := [k])) h)) = (\<lambda>h. map promise (T h))(a := [length R])" using that by auto
    then have "owns (\<lambda>h. map promise ((T(a := [k])) h)) (dom P) (length (R @ [r]))"
      using owns_new_held [OF promises_okD(1) [OF ok], of a] that by simp
    then show ?thesis using old ans that unfolding promises_ok_def by (auto split: if_splits)
  qed
  show "promises_ok ib T (P(length R \<mapsto> e)) (R @ [r])" if "answer_ok ib r e"
  proof -
    have "owns (\<lambda>h. map promise (T h)) (dom (P(length R \<mapsto> e))) (length (R @ [r]))"
      using owns_new_resolved [OF promises_okD(1) [OF ok]] by simp
    then show ?thesis using old ans that unfolding promises_ok_def by (auto split: if_splits)
  qed
qed

section \<open>Every step keeps it\<close>

lemma publish_task_fst [simp]: "map fst (publish_task p q) = map fst q"
  by (induction q) (auto simp: publish_task_def)

lemma publish_task_False: "(k, False) \<in> set (publish_task p q) \<longleftrightarrow> (k, False) \<in> set q \<and> promise k \<noteq> p"
  by (force simp: publish_task_def)

lemma promises_ok_answer:
  assumes ok: "promises_ok ib (tasks_of s) (promises s) (requests s)"
    and c: "client_tasks (clients s t) = [slot]"
    and set: "set_value (promise slot) e (set_client t C_Idle (upd s)) = Some s'"
    and upd: "promises (upd s) = promises s" "requests (upd s) = requests s" "tasks_of (upd s) = tasks_of s"
    and e: "answer_ok ib (req slot) e"
  shows "promises_ok ib (tasks_of s') (promises s') (requests s')"
proof -
  have slot: "slot \<in> set (tasks_of s (Client t))" using c by simp
  have "s' = set_client t C_Idle (upd s) \<lparr> promises := (promises s)(promise slot \<mapsto> e) \<rparr>"
    using set upd by (simp add: set_value_Some)
  moreover have "tasks_of (set_client t C_Idle (upd s) \<lparr> promises := (promises s)(promise slot \<mapsto> e) \<rparr>) =
      (tasks_of s)(Client t := [])"
    using tasks_of_cong [of "set_client t C_Idle (upd s) \<lparr> promises := (promises s)(promise slot \<mapsto> e) \<rparr>" "set_client t C_Idle (upd s)"] upd
    by simp
  moreover have "promises_ok ib ((tasks_of s)(Client t := [])) ((promises s)(promise slot \<mapsto> e)) (requests s)"
    by (rule promises_ok_resolve [OF ok]) (use c e promises_okD(2) [OF ok slot] in \<open>auto split: if_splits\<close>)
  ultimately show ?thesis using upd by simp
qed

lemma promises_ok_client:
  assumes "client_step s s'" and ok: "promises_ok ib (tasks_of s) (promises s) (requests s)"
  shows "promises_ok ib (tasks_of s') (promises s') (requests s')"
  using assms(1)
proof cases
  case (call t r now routing)
  let ?k = "\<lparr> req = r, promise = length (requests s), enqueue_time = now, task_routing_ns = routing \<rparr>"
  let ?s = "s\<lparr> metrics := (metrics s)\<lparr> requests_received := requests_received (metrics s) + 1 \<rparr>, requests := requests s @ [r] \<rparr>"
  have ts: "tasks_of ?s = tasks_of s" by (rule tasks_of_cong) simp_all
  show ?thesis
  proof (cases "backend_ready ?s")
    case True
    then have "s' = set_client t (C_Pushing ?k) ?s" using call(2) by (simp add: infer_begin_def Let_def)
    then show ?thesis using promises_ok_new(1) [OF ok, of "Client t" ?k r] call(1) ts by simp
  next
    case False
    let ?e = "error_response (''model not ready: '' @ req_model_id r)"
    have "s' = ?s\<lparr> promises := (promises s)(length (requests s) \<mapsto> ?e) \<rparr>"
      using call(2) False by (simp add: infer_begin_def Let_def set_value_Some)
    moreover from this have "tasks_of s' = tasks_of s" by (intro tasks_of_cong) simp_all
    ultimately show ?thesis using promises_ok_new(2) [OF ok, of r ?e] by (simp add: answer_ok_def)
  qed
next
  case (check_stopped t slot)
  then show ?thesis
    using promises_ok_answer [OF ok, of t slot "error_response ''executor stopped''" "\<lambda>s. s" s']
    by (simp add: push_stopped_def answer_ok_def)
next
  case (deadline t slot)
  let ?upd = "\<lambda>s. s\<lparr> metrics := (metrics s)\<lparr> queue_timeouts := queue_timeouts (metrics s) + 1 \<rparr> \<rparr>"
  have "tasks_of (?upd s) = tasks_of s" by (rule tasks_of_cong) simp_all
  then show ?thesis
    using promises_ok_answer [OF ok, of t slot _ ?upd s'] deadline by (simp add: push_timeout_def answer_ok_def)
next
  case (claim t slot q)
  have "promises_ok ib (((tasks_of s)(Queue := map fst q))(Client t := [])) (promises s) (requests s)"
    by (rule promises_ok_move [OF ok, of "Client t" Queue]) (use claim in auto)
  then show ?thesis using claim by simp
next
  case (count t)
  have "tasks_of (s\<lparr> queue_size := queue_size s + 1 \<rparr>) = tasks_of s" by (rule tasks_of_cong) simp_all
  then show ?thesis using ok count by (simp add: fun_upd_idem)
qed (use ok in \<open>simp_all add: fun_upd_idem\<close>)

lemma promises_ok_worker:
  assumes "worker_step ib w s s'" and ok: "promises_ok ib (tasks_of s) (promises s) (requests s)"
  shows "promises_ok ib (tasks_of s') (promises s') (requests s')"
  using assms(1)
proof cases
  case (pop batch t q now)
  have "promises_ok ib (((tasks_of s)(Queue := map fst q))(Worker w := map fst batch @ [t])) (promises s) (requests s)"
    by (rule promises_ok_move [OF ok, of "Worker w" Queue]) (use pop in auto)
  then show ?thesis using pop by simp
next
  case (popped batch)
  have "tasks_of (s\<lparr> queue_size := queue_size s - 1 \<rparr>) = tasks_of s" by (rule tasks_of_cong) simp_all
  then show ?thesis using ok popped by (simp add: fun_upd_idem)
next
  case (run batch exec s1)
  have "req (fst tw) = requests s ! promise (fst tw)" if "tw \<in> set batch" for tw
    using promises_okD(2) [OF ok, of "fst tw" "Worker w"] that run(2) by simp
  from run_batch_Some [OF run(3) this]
  have res: "resolves (promise ` fst ` set batch) (\<lambda>p. answer_ok ib (requests s ! p)) s s1" .
  then have "promises_ok ib ((tasks_of s)(Worker w := [])) (promises s1) (requests s)"
    by (intro promises_ok_resolve [OF ok]) (use run(2) in \<open>auto simp: resolves_def\<close>)
  moreover have only: "answers_only s s1" using res by (simp add: resolves_def)
  moreover have "tasks_of s1 = tasks_of s" by (rule tasks_of_cong) (simp_all add: answers_onlyD [OF only])
  ultimately show ?thesis using run by (simp add: answers_onlyD [OF only])
qed (use ok in \<open>simp_all add: fun_upd_idem\<close>)

lemma promises_ok_control:
  assumes "control_step s s'" and ok: "promises_ok ib (tasks_of s) (promises s) (requests s)"
  shows "promises_ok ib (tasks_of s') (promises s') (requests s')"
proof -
  have "tasks_of s' = tasks_of s" using assms(1) by cases (auto intro: tasks_of_cong simp: set_worker_def)
  moreover have "promises s' = promises s" "requests s' = requests s" using assms(1) by (cases; simp)+
  ultimately show ?thesis using ok by simp
qed

lemma waking_client: "client_step s s' \<Longrightarrow> waking s \<Longrightarrow> waking s'"
  by (erule client_step.cases)
    (auto simp: waking_def infer_begin_def push_stopped_def push_timeout_def set_value_Some Let_def split: if_splits)

lemma waking_worker:
  assumes "worker_step ib w s s'" and wk: "waking s"
  shows "waking s'"
  using assms(1)
proof cases
  case (run batch exec s1)
  have "stopped s1 = stopped s" "notifying s1 = notifying s" "workers s1 = workers s" "num_workers s1 = num_workers s"
    using run(3) deliver_Some [of batch _ exec s s1] deliver_unavailable_Some [of batch s s1]
    by (auto simp: run_batch_def resolves_def answers_only_def split: option.splits if_splits)
  then show ?thesis using wk run by (auto simp: waking_def)
qed (use wk in \<open>auto simp: waking_def\<close>)

lemma waking_control: "control_step s s' \<Longrightarrow> waking s \<Longrightarrow> waking s'"
  by (erule control_step.cases) (auto simp: waking_def split: if_splits)

lemma run_batch_fields:
  assumes "run_batch ib exec batch s = Some s'"
  shows "answers_only s s'"
  using assms deliver_Some [of batch _ exec s s'] deliver_unavailable_Some [of batch s s']
  by (auto simp: run_batch_def resolves_def split: option.splits if_splits)

lemma published_client:
  assumes "client_step s s'" and pub: "published s"
  shows "published s'"
proof -
  have keep: "published s'" if "tasks s' = tasks s" "\<And>u p. clients s u = C_Claimed p \<Longrightarrow> clients s' u = C_Claimed p"
    using pub that unfolding published_def by metis
  from assms(1) show ?thesis
  proof cases
    case (publish t p)
    have "\<exists>u. u \<noteq> t \<and> clients s u = C_Claimed (promise k)" if "(k, False) \<in> set (tasks s)" "promise k \<noteq> p" for k
      using pub that publish(2) unfolding published_def by (metis client.inject(3))
    then show ?thesis using publish by (fastforce simp: published_def publish_task_False)
  next
    case (claim t slot q)
    have "\<exists>u. u \<noteq> t \<and> clients s u = C_Claimed (promise k)" if "(k, False) \<in> set (tasks s)" for k
      using pub that claim(2) unfolding published_def by (metis client.distinct)
    then show ?thesis using claim by (fastforce simp: published_def)
  next
    case (call t r now routing)
    then show ?thesis by (intro keep) (auto simp: infer_begin_def Let_def set_value_Some split: if_splits)
  qed (rule keep; auto simp: push_stopped_def push_timeout_def set_value_Some)+
qed

lemma published_worker:
  assumes "worker_step ib w s s'" and pub: "published s"
  shows "published s'"
proof -
  have "clients s' = clients s \<and> set (tasks s') \<subseteq> set (tasks s)"
    using assms(1) by cases (auto dest: run_batch_fields simp: answers_onlyD)
  then show ?thesis using pub unfolding published_def by auto
qed

lemma published_control: "control_step s s' \<Longrightarrow> published s \<Longrightarrow> published s'"
  by (erule control_step.cases) (simp_all add: published_def)

interpretation executor: inductive_invariant exec_init "exec_step ib" "exec_inv ib" for ib
proof unfold_locales
  fix s :: "('a, 'b) executor" assume "exec_init s"
  then obtain m n where s: "s = executor_new m n" by (auto simp: exec_init_def)
  have "tasks_of s h = []" for h using s by (cases h) (simp_all add: executor_new_def)
  then show "exec_inv ib s" using s owns_initial
    by (simp add: exec_inv_def promises_ok_def waking_def published_def executor_new_def)
next
  fix s s' :: "('a, 'b) executor" assume "exec_inv ib s" "exec_step ib s s'"
  then show "exec_inv ib s'"
    unfolding exec_inv_def exec_step_def
    by (elim disjE exE conjE) (intro conjI; (erule promises_ok_client promises_ok_worker promises_ok_control waking_client waking_worker
      waking_control published_client published_worker published_control, assumption))+
qed

section \<open>Stopping\<close>

text \<open>The steps left to a worker once \<^verbatim>\<open>stopped_\<close> is set.\<close>

fun worker_rank :: "'f worker \<Rightarrow> nat" where
  "worker_rank W_Off = 0"
| "worker_rank W_Head = 1"
| "worker_rank W_Wait = 2"
| "worker_rank (W_Run b) = 2"
| "worker_rank W_Sleep = 3"
| "worker_rank (W_Batch b) = 3"
| "worker_rank W_Checked = 4"
| "worker_rank (W_Popped b) = 4"
| "worker_rank (W_Pop b) = 5"

definition stop_rank :: "('f, 'b) executor \<Rightarrow> nat" where
  "stop_rank s = (\<Sum>w < num_workers s. worker_rank (workers s w))"

lemma rank_worker_step:
  assumes "worker_step ib w s s'" "stopped s"
  shows "worker_rank (workers s' w) < worker_rank (workers s w) \<and> (\<forall>v. v \<noteq> w \<longrightarrow> workers s' v = workers s v) \<and>
    num_workers s' = num_workers s \<and> workers s w \<noteq> W_Off"
  using assms by cases (auto dest!: run_batch_fields simp: answers_onlyD)

lemma stop_rank_worker:
  assumes "worker_step ib w s s'" "stopped s" "waking s"
  shows "stop_rank s' < stop_rank s"
proof -
  note st = rank_worker_step [OF assms(1,2)]
  then have w: "w < num_workers s" using assms(3) by (auto simp: waking_def not_less [symmetric])
  have "(\<Sum>v < num_workers s. worker_rank (workers s' v)) < (\<Sum>v < num_workers s. worker_rank (workers s v))"
  proof (rule sum_strict_mono_ex1)
    show "\<forall>v \<in> {..<num_workers s}. worker_rank (workers s' v) \<le> worker_rank (workers s v)"
      using st by (metis le_refl less_imp_le)
    show "\<exists>v \<in> {..<num_workers s}. worker_rank (workers s' v) < worker_rank (workers s v)" using st w by auto
  qed simp
  then show ?thesis using st by (simp add: stop_rank_def)
qed

lemma stop_rank_other:
  assumes "client_step s s' \<or> control_step s s'" "stopped s" "stopped s'"
  shows "stop_rank s' \<le> stop_rank s"
proof -
  have "num_workers s' = num_workers s \<and> (\<forall>w. worker_rank (workers s' w) \<le> worker_rank (workers s w))"
    using assms(1)
  proof
    assume "client_step s s'" then show ?thesis
      by cases (auto simp: infer_begin_def push_stopped_def push_timeout_def set_value_Some Let_def split: if_splits)
  next
    assume "control_step s s'" then show ?thesis using assms(2,3) by cases auto
  qed
  then show ?thesis unfolding stop_rank_def by (simp add: sum_mono)
qed

lemma worker_progress:
  assumes inv: "exec_inv ib s" and len: "\<And>b rs. length (ib b rs) = length rs" and m: "meta s = Some m"
    and w: "workers s w \<noteq> W_Off" "workers s w \<noteq> W_Sleep"
  shows "\<exists>s'. worker_step ib w s s'"
proof (cases "workers s w")
  case (W_Run batch)
  note pk = promises_okD [OF conjunct1 [OF inv [unfolded exec_inv_def]]]
  have "run_batch ib 0 batch s \<noteq> None"
    using pk(6) [of "Worker w"] pk(4) [of _ "Worker w"] m len W_Run by (intro run_batch_total) (auto simp: comp_def)
  then show ?thesis using worker_step.run [OF W_Run] by blast
next
  case (W_Pop batch)
  then show ?thesis
    by (cases "take_ticket (tasks s)"; cases "batch = []")
      (metis worker_step.pop worker_step.no_task worker_step.delay_over surj_pair)+
next
  case W_Head
  then show ?thesis using m worker_step.leave worker_step.enter by (metis option.distinct(1))
next
  case (W_Batch batch)
  then show ?thesis using m worker_step.more worker_step.enough by metis
next
  case (W_Popped batch)
  then show ?thesis using worker_step.popped by blast
next
  case W_Wait
  then show ?thesis using worker_step.awake worker_step.idle by blast
next
  case W_Checked
  then show ?thesis using worker_step.block by blast
qed (use w in simp_all)

text \<open>A sequence that never rises and drops at every marked index has finitely many marks.\<close>

lemma finite_drops:
  fixes f :: "nat \<Rightarrow> nat"
  assumes mono: "\<And>i. f (Suc i) \<le> f i" and drop: "\<And>i. M i \<Longrightarrow> f (Suc i) < f i"
  shows "finite {i. M i}"
proof -
  have "card {i. i < n \<and> M i} + f n \<le> f 0" for n
  proof (induction n)
    case (Suc n)
    show ?case
    proof (cases "M n")
      case True
      then have "{i. i < Suc n \<and> M i} = insert n {i. i < n \<and> M i}" by (auto simp: less_Suc_eq)
      then have "card {i. i < Suc n \<and> M i} = Suc (card {i. i < n \<and> M i})" by simp
      then show ?thesis using Suc drop [OF True] by linarith
    next
      case False
      then have "{i. i < Suc n \<and> M i} = {i. i < n \<and> M i}" by (auto simp: less_Suc_eq)
      then have "card {i. i < Suc n \<and> M i} = card {i. i < n \<and> M i}" by (rule arg_cong)
      then show ?thesis using Suc mono [of n] by linarith
    qed
  qed simp
  then have bound: "card {i. i < n \<and> M i} \<le> f 0" for n using add_leD1 by blast
  have "card F \<le> f 0" if F: "F \<subseteq> {i. M i}" "finite F" for F
  proof -
    obtain n where "\<forall>x \<in> F. x < n" using F(2) finite_nat_set_iff_bounded by blast
    then have "F \<subseteq> {i. i < n \<and> M i}" using F(1) by auto
    then show ?thesis using bound [of n] card_mono [of "{i. i < n \<and> M i}" F] by simp
  qed
  then show ?thesis by (metis finite_if_finite_subsets_card_bdd)
qed

section \<open>Properties\<close>

text \<open>
  C3. Whatever clients, workers, reloads, starts and stops interleave: every promise created by
  \<^verbatim>\<open>infer_async\<close> is either resolved, with an answer to its own request (a response that the backend gave
  to this request, or one of the four errors) and then held by nobody, or it is unresolved and in
  exactly one place, a client, the queue or a worker's batch, once. No other promise is ever resolved. A queued task that workers cannot take yet belongs to a client that is about to publish it.
\<close>

theorem executor_promises:
  assumes "reach exec_init (exec_step ib) s"
  shows "(\<forall>p < length (requests s).
      (case promises s p of
         Some r \<Rightarrow> answer_ok ib (requests s ! p) r \<and> (\<forall>h. p \<notin> set (held s h))
       | None \<Rightarrow> (\<exists>!h. p \<in> set (held s h)))) \<and>
    (\<forall>h. distinct (held s h)) \<and> dom (promises s) \<subseteq> {..<length (requests s)} \<and>
    (\<forall>k. (k, False) \<in> set (tasks s) \<longrightarrow> (\<exists>t. clients s t = C_Claimed (promise k)))"
proof -
  have ok: "promises_ok ib (tasks_of s) (promises s) (requests s)"
    and pub: "published s" using executor.reach_inv [OF assms] by (simp_all add: exec_inv_def)
  have own: "owns (held s) (dom (promises s)) (length (requests s))" using promises_okD(1) [OF ok] by (simp add: held_eq)
  note od = ownsD [OF own]
  have "case promises s p of
         Some r \<Rightarrow> answer_ok ib (requests s ! p) r \<and> (\<forall>h. p \<notin> set (held s h))
       | None \<Rightarrow> (\<exists>!h. p \<in> set (held s h))" if p: "p < length (requests s)" for p
  proof (cases "promises s p")
    case None
    then obtain h where "p \<in> set (held s h)" using od(6) [OF p] by auto
    then show ?thesis using None od(4) by auto
  next
    case (Some r)
    then show ?thesis using promises_okD(3) [OF ok Some] od(2) [of p] by auto
  qed
  moreover have "dom (promises s) \<subseteq> {..<length (requests s)}" using od(5) by auto
  ultimately show ?thesis using od(1) pub unfolding published_def by blast
qed

definition ready_meta :: "unit ModelMetadata" where
  "ready_meta = \<lparr> config = default_config, state = Ready, handle = Some () \<rparr>"

definition some_request :: "nat InferenceRequest" where
  "some_request = \<lparr> req_model_id = ''m'', req_shape = [1], req_input = [7], req_output_len = 1, req_device = Cpu \<rparr>"

theorem executor_promises_witness:
  "\<exists>s :: (nat, unit) executor. length (requests s) = 1 \<and> (\<exists>!h. 0 \<in> set (held s h))"
proof -
  let ?s0 = "executor_new (Some ready_meta) 1 :: (nat, unit) executor"
  have ready: "is_ready ready_meta" "handle ready_meta = Some ()" by (simp_all add: ready_meta_def is_ready_def)
  have "\<exists>s. infer_begin 0 some_request 0 0 ?s0 = Some s \<and> requests s = [some_request] \<and> promises s = Map.empty"
    by (simp add: infer_begin_def Let_def backend_ready_def executor_new_def ready)
  then obtain s where some: "infer_begin 0 some_request 0 0 ?s0 = Some s"
    and s: "requests s = [some_request]" "promises s = Map.empty" by blast
  have "reach exec_init (exec_step (\<lambda>b rs. [])) s"
  proof (rule reach_step [OF reach_init])
    show "exec_init ?s0" by (auto simp: exec_init_def)
    have "client_step ?s0 s" by (rule client_step.call [OF _ some]) (simp add: executor_new_def)
    then show "exec_step (\<lambda>b rs. []) ?s0 s" unfolding exec_step_def by blast
  qed
  from executor_promises [OF this] show ?thesis using s by (intro exI [of _ s]) simp
qed

text \<open>
  C26. \<^verbatim>\<open>stop()\<close> ends. Along every execution that stays stopped, whatever clients keep doing, the workers take
  finitely many steps; and as long as some worker has not left its loop, a worker can take a step or
  the notification of \<^verbatim>\<open>stop()\<close> is still to come. The backend returns one response per request.
\<close>

theorem executor_stop_joins:
  assumes r: "reach exec_init (exec_step ib) (f 0)" and run: "\<And>i. exec_step ib (f i) (f (Suc i))"
    and st: "\<And>i. stopped (f i)"
    and len: "\<And>b rs. length (ib b rs) = length rs" and m: "\<And>i. meta (f i) \<noteq> None"
  shows "finite {i. \<exists>w. worker_step ib w (f i) (f (Suc i))} \<and>
    (\<forall>i. (\<exists>w. workers (f i) w \<noteq> W_Off) \<longrightarrow> (\<exists>v s'. worker_step ib v (f i) s') \<or> notifying (f i))"
proof -
  have "reach exec_init (exec_step ib) (f i)" for i by (induction i) (use r run in \<open>auto intro: reach_step\<close>)
  then have inv: "exec_inv ib (f i)" for i by (rule executor.reach_inv)
  then have wk: "waking (f i)" for i by (simp add: exec_inv_def)
  have "finite {i. \<exists>w. worker_step ib w (f i) (f (Suc i))}"
  proof (rule finite_drops [of "\<lambda>i. stop_rank (f i)"])
    fix i
    show drop: "\<exists>w. worker_step ib w (f i) (f (Suc i)) \<Longrightarrow> stop_rank (f (Suc i)) < stop_rank (f i)"
      using stop_rank_worker [OF _ st wk] by blast
    show "stop_rank (f (Suc i)) \<le> stop_rank (f i)"
      using run [of i] drop stop_rank_other [OF _ st st] unfolding exec_step_def by (metis less_imp_le)
  qed
  moreover have "(\<exists>v s'. worker_step ib v (f i) s') \<or> notifying (f i)" if w: "workers (f i) w \<noteq> W_Off" for i w
  proof (cases "workers (f i) w = W_Sleep")
    case True
    then show ?thesis using wk [of i] st [of i] by (auto simp: waking_def)
  next
    case False
    obtain mm where "meta (f i) = Some mm" using m [of i] by auto
    then show ?thesis using worker_progress [OF inv len _ w False] by blast
  qed
  ultimately show ?thesis by blast
qed

lemma exec_stepI:
  "client_step s s' \<Longrightarrow> exec_step ib s s'" "worker_step ib w s s' \<Longrightarrow> exec_step ib s s'" "control_step s s' \<Longrightarrow> exec_step ib s s'"
  unfolding exec_step_def by blast+

definition fresh :: "(nat, unit) executor" where
  "fresh = executor_new (Some ready_meta) 1"

definition started :: "(nat, unit) executor" where
  "started = fresh\<lparr> stopped := False, workers := (\<lambda>w. if w < 1 then W_Head else W_Off) \<rparr>"

lemma reach_started: "reach exec_init (exec_step ib) started"
proof (rule reach_step [OF reach_init])
  show "exec_init fresh" by (auto simp: exec_init_def fresh_def)
  have "control_step fresh (fresh\<lparr> stopped := False, workers := (\<lambda>w. if w < num_workers fresh then W_Head else W_Off) \<rparr>)"
    by (rule control_step.start) (simp_all add: fresh_def executor_new_def)
  then show "exec_step ib fresh started" by (intro exec_stepI(3)) (simp add: started_def fresh_def executor_new_def)
qed

theorem executor_stop_joins_witness:
  "\<exists>f :: nat \<Rightarrow> (nat, unit) executor. worker_step (\<lambda>b. map (\<lambda>q. error_response [])) 0 (f 0) (f 1) \<and>
     finite {i. \<exists>w. worker_step (\<lambda>b. map (\<lambda>q. error_response [])) w (f i) (f (Suc i))}"
proof -
  let ?ib = "\<lambda>b :: unit. map (\<lambda>q :: nat InferenceRequest. error_response [])"
  let ?s = "started\<lparr> stopped := True, notifying := True \<rparr>"
  let ?f = "\<lambda>i :: nat. if i = 0 then ?s else set_worker 0 W_Off ?s"
  have "control_step started ?s" by (rule control_step.stop) (simp add: started_def)
  from reach_step [OF reach_started exec_stepI(3) [OF this]] have r: "reach exec_init (exec_step ?ib) (?f 0)" by simp
  have w: "worker_step ?ib 0 ?s (set_worker 0 W_Off ?s)" by (rule worker_step.leave) (simp_all add: started_def)
  have meta: "meta ?s = Some ready_meta" by (simp add: started_def fresh_def executor_new_def)
  have "control_step (set_worker 0 W_Off ?s) ((set_worker 0 W_Off ?s)\<lparr> meta := Some ready_meta \<rparr>)"
    by (rule control_step.reload [of _ ready_meta]) (use meta in simp)
  moreover have "(set_worker 0 W_Off ?s)\<lparr> meta := Some ready_meta \<rparr> = set_worker 0 W_Off ?s"
    using meta by (simp add: set_worker_def)
  ultimately have "exec_step ?ib (?f i) (?f (Suc i))" for i using exec_stepI(2) [OF w] exec_stepI(3) by (cases i) simp_all
  from executor_stop_joins [of ?ib ?f, OF r this] meta have "finite {i. \<exists>w. worker_step ?ib w (?f i) (?f (Suc i))}" by simp
  then show ?thesis using w by (intro exI [of _ ?f]) simp
qed

subsection \<open>Two executions\<close>

definition slot0 :: "nat Task" where
  "slot0 = \<lparr> req = some_request, promise = 0, enqueue_time = 0, task_routing_ns = 0 \<rparr>"

lemma ready_meta_simps: "is_ready ready_meta" "handle ready_meta = Some ()" "0 < max_batch ready_meta"
  by (simp_all add: ready_meta_def is_ready_def max_batch_def default_config_def)

definition with_task :: "(nat, unit) executor \<Rightarrow> (nat, unit) executor" where
  "with_task s = s\<lparr> metrics := (metrics s)\<lparr> requests_received := requests_received (metrics s) + 1 \<rparr>,
     requests := requests s @ [some_request], tasks := tasks s @ [(slot0, True)], queue_size := queue_size s + 1, clients := (\<lambda>t. C_Idle) \<rparr>"

text \<open>A client call whose notification finds no sleeper.\<close>

lemma client_call:
  assumes r: "reach exec_init (exec_step ib) s" and idle: "clients s = (\<lambda>t. C_Idle)" and st: "\<not> stopped s"
    and m: "meta s = Some ready_meta" and q: "tasks s = []" "requests s = []"
    and awake: "\<forall>w. workers s w \<noteq> W_Sleep"
  shows "reach exec_init (exec_step ib) (with_task s)"
proof -
  let ?s1 = "s\<lparr> metrics := (metrics s)\<lparr> requests_received := requests_received (metrics s) + 1 \<rparr>, requests := requests s @ [some_request] \<rparr>"
  have "client_step s (set_client 0 (C_Pushing slot0) ?s1)"
    by (rule client_step.call [of s 0 some_request 0 0])
      (simp_all add: infer_begin_def Let_def backend_ready_def m ready_meta_simps idle slot0_def q)
  note r = reach_step [OF r exec_stepI(1) [OF this]]
  note r = reach_step [OF r exec_stepI(1) [OF client_step.check_running [of _ 0 slot0]]]
  note r = reach_step [OF r exec_stepI(1) [OF client_step.claim [of _ 0 slot0 "[(slot0, False)]"]]]
  note r = reach_step [OF r exec_stepI(1) [OF client_step.publish [of _ 0 0]]]
  note r = reach_step [OF r exec_stepI(1) [OF client_step.count [of _ 0]]]
  note r = reach_step [OF r exec_stepI(1) [OF client_step.notify_none [of _ 0]]]
  have upd: "(\<lambda>t. C_Idle)(0 := C_Idle) = (\<lambda>t :: nat. C_Idle)" by auto
  show ?thesis using r st idle q awake
    by (simp add: set_client_def with_task_def QUEUE_CAPACITY_def publish_task_def slot0_def upd)
qed

lemma started_simps [simp]: "workers started = (\<lambda>w. if w = 0 then W_Head else W_Off)" "\<not> stopped started"
    "\<not> notifying started" "meta started = Some ready_meta" "tasks started = []" "queue_size started = 0" "clients started = (\<lambda>t. C_Idle)"
    "requests started = []" "promises started = Map.empty"
  by (auto simp: started_def fresh_def executor_new_def fun_eq_iff)

text \<open>The worker finds nothing to do, decides to sleep, misses the notification, and sleeps.\<close>

definition asleep :: "(nat, unit) executor" where
  "asleep = set_worker 0 W_Sleep (with_task (set_worker 0 W_Checked started))"

lemma reach_asleep: "reach exec_init (exec_step ib) asleep"
proof -
  note r = reach_step [OF reach_started exec_stepI(2) [OF worker_step.enter [of _ 0]]]
  note r = reach_step [OF r exec_stepI(2) [OF worker_step.more [of _ 0 "[]" ready_meta]]]
  note r = reach_step [OF r exec_stepI(2) [OF worker_step.no_task [of _ 0]]]
  note r = reach_step [OF r exec_stepI(2) [OF worker_step.idle [of _ 0]]]
  have "reach exec_init (exec_step ib) (set_worker 0 W_Checked started)"
    using r [of ib] by (simp add: set_worker_def ready_meta_simps fun_upd_twist)
  from client_call [OF this] have r: "reach exec_init (exec_step ib) (with_task (set_worker 0 W_Checked started))"
    by (simp add: set_worker_def)
  note r = reach_step [OF r exec_stepI(2) [OF worker_step.block [of _ 0]]]
  then show ?thesis by (simp add: asleep_def with_task_def)
qed

text \<open>
  C36. A wake-up can be lost. Because \<^verbatim>\<open>infer_async\<close> counts and notifies without holding \<^verbatim>\<open>cv_mu_\<close>, a running executor
  can reach a state in which a task is queued, all clients have returned, and no
  worker can take a step: the promise stays unresolved until some later call notifies again.
\<close>

theorem executor_lost_wakeup:
  "\<exists>s :: (nat, unit) executor. reach exec_init (exec_step ib) s \<and> \<not> stopped s \<and> (\<forall>t. clients s t = C_Idle) \<and>
     tasks s \<noteq> [] \<and> promises s 0 = None \<and> (\<forall>w s'. \<not> worker_step ib w s s')"
proof -
  have "\<not> worker_step ib w asleep s'" for w s'
    by (auto simp: asleep_def with_task_def worker_step.simps split: if_splits)
  then show ?thesis using reach_asleep
    by (intro exI [of _ asleep]) (simp add: asleep_def with_task_def)
qed

text \<open>
  Requests accepted before \<^verbatim>\<open>stop()\<close> can stay unanswered: an executor can be stopped, with all workers gone
  and all clients returned, while a task is still in the queue and its promise unresolved.
\<close>

theorem executor_abandons_queued:
  "\<exists>s :: (nat, unit) executor. reach exec_init (exec_step ib) s \<and> stopped s \<and> \<not> notifying s \<and>
     (\<forall>w. workers s w = W_Off) \<and> (\<forall>t. clients s t = C_Idle) \<and> tasks s \<noteq> [] \<and> promises s 0 = None"
proof -
  have r: "reach exec_init (exec_step ib) (with_task started)"
    by (rule client_call) (simp_all add: reach_started)
  let ?s = "(with_task started)\<lparr> stopped := True, notifying := True \<rparr>"
  let ?s' = "?s\<lparr> notifying := False, workers := workers ?s \<rparr>"
  have "control_step (with_task started) ?s" by (rule control_step.stop) (simp add: with_task_def)
  note r = reach_step [OF r exec_stepI(3) [OF this]]
  have same: "(\<lambda>w. if workers ?s w = W_Sleep then W_Wait else workers ?s w) = workers ?s" by (auto simp: with_task_def)
  have "control_step ?s (?s\<lparr> notifying := False, workers := (\<lambda>w. if workers ?s w = W_Sleep then W_Wait else workers ?s w) \<rparr>)"
    by (rule control_step.notify_all) (simp_all add: with_task_def)
  then have "control_step ?s ?s'" unfolding same .
  note r = reach_step [OF r exec_stepI(3) [OF this]]
  have "worker_step ib 0 ?s' (set_worker 0 W_Off ?s')" by (rule worker_step.leave) (simp_all add: with_task_def)
  note r = reach_step [OF r exec_stepI(2) [OF this]]
  then show ?thesis by (intro exI [of _ "set_worker 0 W_Off ?s'"]) (simp add: with_task_def)
qed

end
