(* ===== verification/Torch_Backend.thy ===== *)
theory Torch_Backend
  imports Executor
begin

text \<open>
  \<^verbatim>\<open>inference/torch_backend.cpp\<close>. The Torch library is a parameter: a record of the functions that the
  backend calls, each returning an exception's message on the left or its result on the right. A
  request's output buffer is given by its length, and what the backend copies into it is part
  of the result. \<open>tensor_data\<close> has as many elements as \<^verbatim>\<open>numel()\<close> says, and \<open>dtype_error\<close> is what \<^verbatim>\<open>data_ptr<float>()\<close> throws on a tensor of another type. Reading past the input or past the vector of chunks has no result (\<open>None\<close>).
\<close>

section \<open>The backend\<close>

record ('f, 'm, 'x) torch =
  cuda_available :: bool
  jit_load :: "string \<Rightarrow> DeviceKind \<Rightarrow> string + 'm"
  from_blob :: "'f list \<Rightarrow> int list \<Rightarrow> DeviceKind \<Rightarrow> string + 'x"
  module_forward :: "'m \<Rightarrow> 'x \<Rightarrow> string + 'x"
  relu2p1 :: "'x \<Rightarrow> string + 'x"
  cat :: "'x list \<Rightarrow> string + 'x"
  chunk :: "'x \<Rightarrow> nat \<Rightarrow> string + 'x list"
  sizes :: "'x \<Rightarrow> int list"
  tensor_data :: "'x \<Rightarrow> 'f list"
  dtype_error :: "'x \<Rightarrow> string option"

record 'm torch_model =
  module_of :: "'m option"
  torch_device :: DeviceKind

type_synonym 'm torch_models = "(string, 'm torch_model) table"

definition torch_load ::
  "('f, 'm, 'x) torch \<Rightarrow> string \<Rightarrow> string \<Rightarrow> DeviceKind \<Rightarrow> 'm torch_models \<Rightarrow> bool \<times> 'm torch_models" where
  "torch_load T mid path dev ms =
     (if table_find ms mid \<noteq> None then (True, ms)
      else let d = (if dev = Cuda \<and> cuda_available T then Cuda else Cpu) in
        if path \<noteq> [] then
          (case jit_load T path d of
             Inl e \<Rightarrow> (False, ms)
           | Inr m \<Rightarrow> (True, snd (table_emplace mid \<lparr> module_of = Some m, torch_device = d \<rparr> ms)))
        else (True, snd (table_emplace mid \<lparr> module_of = None, torch_device = d \<rparr> ms)))"

definition torch_unload :: "string \<Rightarrow> 'm torch_models \<Rightarrow> bool \<times> 'm torch_models" where
  "torch_unload mid ms = (table_find ms mid \<noteq> None, table_erase mid ms)"

text \<open>\<^verbatim>\<open>from_blob\<close> reads as many elements as the shape has.\<close>

definition numel_of :: "int list \<Rightarrow> nat" where
  "numel_of shape = prod_list (map nat shape)"

definition blob_ok :: "'f InferenceRequest \<Rightarrow> bool" where
  "blob_ok r \<longleftrightarrow> numel_of (req_shape r) \<le> length (req_input r)"

definition apply_model :: "('f, 'm, 'x) torch \<Rightarrow> 'm torch_model \<Rightarrow> 'x \<Rightarrow> string + 'x" where
  "apply_model T st x = (case module_of st of Some m \<Rightarrow> module_forward T m x | None \<Rightarrow> relu2p1 T x)"

text \<open>The copy into the output buffer: the response, what was copied, and the exception that ended it.\<close>

definition fill_response ::
  "('f, 'm, 'x) torch \<Rightarrow> 'x \<Rightarrow> nat \<Rightarrow> InferenceResponse \<times> 'f list \<times> string option" where
  "fill_response T y room =
     (let r = (error_response [])\<lparr> resp_shape := sizes T y \<rparr>; numel = length (tensor_data T y) in
      if numel > room then (r\<lparr> error := ''output buffer too small'' \<rparr>, [], None)
      else (case dtype_error T y of
          Some e \<Rightarrow> (r, [], Some e)
        | None \<Rightarrow> (r\<lparr> output_elems_written := of_nat numel, ok := True \<rparr>, tensor_data T y, None)))"

text \<open>The handler stores the message.\<close>

definition caught :: "string option \<Rightarrow> InferenceResponse \<times> 'f list \<Rightarrow> InferenceResponse \<times> 'f list" where
  "caught ex ro = (case ex of None \<Rightarrow> ro | Some e \<Rightarrow> ((fst ro)\<lparr> error := e \<rparr>, snd ro))"

definition timed_response :: "u64 \<Rightarrow> InferenceResponse \<times> 'f list \<Rightarrow> InferenceResponse \<times> 'f list" where
  "timed_response lat ro = ((fst ro)\<lparr> latency_ns := lat \<rparr>, snd ro)"

definition torch_infer ::
  "('f, 'm, 'x) torch \<Rightarrow> 'm torch_models \<Rightarrow> u64 \<Rightarrow> 'f InferenceRequest \<Rightarrow> (InferenceResponse \<times> 'f list) option" where
  "torch_infer T ms lat r =
     (case table_find ms (req_model_id r) of
        None \<Rightarrow> Some (error_response (''model not loaded: '' @ req_model_id r), [])
      | Some st \<Rightarrow>
          if \<not> blob_ok r then None
          else (case from_blob T (req_input r) (req_shape r) (torch_device st) of
              Inl e \<Rightarrow> Some ((error_response e)\<lparr> latency_ns := lat \<rparr>, [])
            | Inr x \<Rightarrow> (case apply_model T st x of
                Inl e \<Rightarrow> Some ((error_response e)\<lparr> latency_ns := lat \<rparr>, [])
              | Inr y \<Rightarrow> (case fill_response T y (req_output_len r) of
                  (resp, out, ex) \<Rightarrow> Some (timed_response lat (caught ex (resp, out)))))))"

text \<open>The tensors of a batch are built in order; the first exception ends the loop.\<close>

fun make_tensors :: "('f, 'm, 'x) torch \<Rightarrow> DeviceKind \<Rightarrow> 'f InferenceRequest list \<Rightarrow> (string + 'x list) option" where
  "make_tensors T dev [] = Some (Inr [])"
| "make_tensors T dev (r # rs) =
     (if \<not> blob_ok r then None
      else (case from_blob T (req_input r) (req_shape r) dev of
          Inl e \<Rightarrow> Some (Inl e)
        | Inr x \<Rightarrow> (case make_tensors T dev rs of
            None \<Rightarrow> None
          | Some (Inl e) \<Rightarrow> Some (Inl e)
          | Some (Inr xs) \<Rightarrow> Some (Inr (x # xs)))))"

text \<open>
  The loop over \<^verbatim>\<open>chunks[i]\<close>; \<open>lat i\<close> is the time measured at request \<open>i\<close>. An exception leaves the responses behind it as they were created.
\<close>

fun fill_batch ::
  "('f, 'm, 'x) torch \<Rightarrow> 'x list \<Rightarrow> 'f InferenceRequest list \<Rightarrow> (nat \<Rightarrow> u64) \<Rightarrow>
    ((InferenceResponse \<times> 'f list) list \<times> string option) option" where
  "fill_batch T cs [] lat = Some ([], None)"
| "fill_batch T [] (r # rs) lat = None"
| "fill_batch T (c # cs) (r # rs) lat =
     (case fill_response T c (req_output_len r) of
        (resp, out, Some e) \<Rightarrow> Some ((resp, out) # map (\<lambda>r. (error_response [], [])) rs, Some e)
      | (resp, out, None) \<Rightarrow>
          (case fill_batch T cs rs (\<lambda>i. lat (Suc i)) of
             None \<Rightarrow> None
           | Some (res, ex) \<Rightarrow> Some (timed_response (lat 0) (resp, out) # res, ex)))"

definition batch_error :: "string \<Rightarrow> 'f InferenceRequest list \<Rightarrow> (InferenceResponse \<times> 'f list) list" where
  "batch_error e batch = map (\<lambda>r. (error_response e, [])) batch"

definition torch_infer_batch ::
  "('f, 'm, 'x) torch \<Rightarrow> 'm torch_models \<Rightarrow> (nat \<Rightarrow> u64) \<Rightarrow> 'f InferenceRequest list \<Rightarrow>
    (InferenceResponse \<times> 'f list) list option" where
  "torch_infer_batch T ms lat batch =
     (if batch = [] then Some []
      else (case table_find ms (req_model_id (hd batch)) of
          None \<Rightarrow> Some (batch_error (''model not loaded: '' @ req_model_id (hd batch)) batch)
        | Some st \<Rightarrow> (case make_tensors T (torch_device st) batch of
            None \<Rightarrow> None
          | Some (Inl e) \<Rightarrow> Some (batch_error e batch)
          | Some (Inr xs) \<Rightarrow> (case cat T xs of
              Inl e \<Rightarrow> Some (batch_error e batch)
            | Inr x \<Rightarrow> (case apply_model T st x of
                Inl e \<Rightarrow> Some (batch_error e batch)
              | Inr y \<Rightarrow> (case chunk T y (length batch) of
                  Inl e \<Rightarrow> Some (batch_error e batch)
                | Inr cs \<Rightarrow> (case fill_batch T cs batch lat of
                    None \<Rightarrow> None
                  | Some (res, ex) \<Rightarrow> Some (map (caught ex) res))))))))"

section \<open>Every response is in bounds\<close>

definition response_ok :: "'f InferenceRequest \<Rightarrow> InferenceResponse \<times> 'f list \<Rightarrow> bool" where
  "response_ok r ro \<longleftrightarrow> length (snd ro) \<le> req_output_len r \<and> unat (output_elems_written (fst ro)) \<le> length (snd ro) \<and>
     (if ok (fst ro) then output_elems_written (fst ro) = of_nat (length (snd ro))
      else output_elems_written (fst ro) = 0 \<and> snd ro = [])"

lemma fill_response_ok: "fill_response T y (req_output_len r) = (resp, out, ex) \<Longrightarrow> response_ok r (resp, out)"
  by (auto simp: response_ok_def fill_response_def Let_def error_response_def unat_of_nat split: if_splits option.splits)

lemma response_ok_frame [simp]: "response_ok r (caught ex ro) = response_ok r ro" "response_ok r (timed_response lat ro) = response_ok r ro"
  by (cases ex; simp add: response_ok_def caught_def timed_response_def)+

lemma error_response_ok: "response_ok r ((error_response e)\<lparr> latency_ns := lat \<rparr>, [])" "response_ok r (error_response e, [])"
  by (simp_all add: response_ok_def error_response_def)

lemma batch_error_ok: "list_all2 response_ok batch (batch_error e batch)"
  by (induction batch) (simp_all add: batch_error_def error_response_ok)

lemma fill_batch_ok: "fill_batch T cs batch lat = Some (res, ex) \<Longrightarrow> list_all2 response_ok batch res"
proof (induction T cs batch lat arbitrary: res rule: fill_batch.induct)
  case (3 T c cs r rs lat)
  obtain resp out e where f: "fill_response T c (req_output_len r) = (resp, out, e)" by (metis prod_cases3)
  have "list_all2 response_ok rs (map (\<lambda>r. (error_response [], [])) rs)"
    by (simp add: list_all2_conv_all_nth error_response_ok)
  then show ?case using 3 f fill_response_ok [OF f] by (auto split: option.splits)
qed simp_all

lemma caught_all_ok: "list_all2 response_ok batch res \<Longrightarrow> list_all2 response_ok batch (map (caught ex) res)"
  by (simp add: list_all2_map2)

text \<open>
  The interface of \<^verbatim>\<open>inference/backend.hpp\<close> as its callers use it: one response per request, in order, within the
  bounds of the request's buffer.
\<close>

locale inference_backend =
  fixes infer_batch :: "'f InferenceRequest list \<Rightarrow> (InferenceResponse \<times> 'f list) list option"
  assumes batch_responses: "infer_batch batch = Some out \<Longrightarrow> list_all2 response_ok batch out"
begin

lemma batch_nth:
  assumes "infer_batch batch = Some out"
  shows "length out = length batch \<and> (\<forall>i < length batch. response_ok (batch ! i) (out ! i))"
  using batch_responses [OF assms] by (auto simp: list_all2_conv_all_nth)

text \<open>What a caller may read from the buffer after a successful call.\<close>

lemma written_in_buffer:
  assumes "infer_batch batch = Some out" "i < length batch" "ok (fst (out ! i))"
  shows "unat (output_elems_written (fst (out ! i))) \<le> req_output_len (batch ! i)"
  using batch_nth [OF assms(1)] assms(2) by (fastforce simp: response_ok_def)

end

interpretation torch: inference_backend "torch_infer_batch T ms lat" for T ms lat
proof
  fix batch out assume "torch_infer_batch T ms lat batch = Some out"
  then show "list_all2 response_ok batch out"
    by (auto simp: torch_infer_batch_def intro: batch_error_ok caught_all_ok fill_batch_ok split: if_splits option.splits sum.splits)
qed

text \<open>Chunks are views of one tensor and have its element type.\<close>

definition uniform_chunks :: "('f, 'm, 'x) torch \<Rightarrow> bool" where
  "uniform_chunks T \<longleftrightarrow> (\<forall>y n cs. chunk T y n = Inr cs \<longrightarrow>
     (\<forall>c \<in> set cs. \<forall>d \<in> set cs. dtype_error T c = None \<longleftrightarrow> dtype_error T d = None))"

lemma fill_response_cases:
  assumes "fill_response T y room = (resp, out, ex)"
  shows "ok resp \<Longrightarrow> dtype_error T y = None \<and> error resp = []" "ex \<noteq> None \<Longrightarrow> dtype_error T y \<noteq> None \<and> \<not> ok resp"
  using assms by (auto simp: fill_response_def Let_def error_response_def split: if_splits option.splits)

text \<open>A successful response before an exception would need chunks of different types.\<close>

lemma fill_batch_clean:
  "fill_batch T cs batch lat = Some (res, ex) \<Longrightarrow> ro \<in> set res \<Longrightarrow> ok (fst ro) \<Longrightarrow>
     error (fst ro) = [] \<and> (\<exists>c \<in> set cs. dtype_error T c = None)"
proof (induction T cs batch lat arbitrary: res rule: fill_batch.induct)
  case (3 T c cs r rs lat)
  obtain resp out e where f: "fill_response T c (req_output_len r) = (resp, out, e)" by (metis prod_cases3)
  have "\<not> ok (error_response [])" by (simp add: error_response_def)
  moreover have "error (fst ro) = [] \<and> (\<exists>c \<in> set cs. dtype_error T c = None)"
    if "e = None" "fill_batch T cs rs (\<lambda>i. lat (Suc i)) = Some (res', ex)" "ro \<in> set res'" for res'
    using "3.IH" [OF f [symmetric], of out e] that "3.prems"(3) by simp
  ultimately show ?case using "3.prems" f fill_response_cases [OF f]
    by (fastforce simp: timed_response_def split: option.splits)
qed simp_all

lemma fill_batch_exception: "fill_batch T cs batch lat = Some (res, Some e) \<Longrightarrow> \<exists>c \<in> set cs. dtype_error T c \<noteq> None"
proof (induction T cs batch lat arbitrary: res rule: fill_batch.induct)
  case (3 T c cs r rs lat)
  obtain resp out x where f: "fill_response T c (req_output_len r) = (resp, out, x)" by (metis prod_cases3)
  have "\<exists>c \<in> set cs. dtype_error T c \<noteq> None" if "x = None" "fill_batch T cs rs (\<lambda>i. lat (Suc i)) = Some (res', Some e)" for res'
    using "3.IH" [OF f [symmetric], of out x] that by simp
  then show ?case using "3.prems" f fill_response_cases(2) [OF f] by (fastforce split: option.splits)
qed simp_all

lemma torch_batch_clean:
  assumes "torch_infer_batch T ms lat batch = Some out" "uniform_chunks T" "ro \<in> set out" "ok (fst ro)"
  shows "error (fst ro) = []"
proof -
  have "\<not> ok (error_response e)" for e by (simp add: error_response_def)
  then have "ro \<notin> set (batch_error e batch)" for e using assms(4) by (auto simp: batch_error_def)
  then obtain y n cs res ex where c: "chunk T y n = Inr cs" "fill_batch T cs batch lat = Some (res, ex)" "out = map (caught ex) res"
    using assms(1,3) by (auto simp: torch_infer_batch_def split: if_splits option.splits sum.splits)
  then obtain ro' where ro': "ro' \<in> set res" "ro = caught ex ro'" using assms(3) by auto
  then have "ok (fst ro')" using assms(4) by (cases ex) (simp_all add: caught_def)
  note clean = fill_batch_clean [OF c(2) ro'(1) this]
  moreover have "ex = None"
  proof (cases ex)
    case (Some e)
    then obtain d where d: "d \<in> set cs" "dtype_error T d \<noteq> None" using fill_batch_exception [of T cs batch lat res e] c(2) by blast
    obtain c' where c': "c' \<in> set cs" "dtype_error T c' = None" using clean by blast
    have "dtype_error T c' = None \<longleftrightarrow> dtype_error T d = None" using assms(2) c(1) c'(1) d(1) unfolding uniform_chunks_def by blast
    then show ?thesis using c'(2) d(2) by simp
  qed
  ultimately show ?thesis using ro'(2) by (simp add: caught_def)
qed

text \<open>
  C25. Whatever Torch does, when \<^verbatim>\<open>infer_batch\<close> returns it returns one response per request, in order; a
  successful one reports exactly the elements copied, which fit the request's
  output buffer; a failed one reports and copies none. Since chunks have the element type of the tensor they are cut from, a successful one has no error.
\<close>

theorem torch_batch_bounds:
  assumes "torch_infer_batch T ms lat batch = Some out"
  shows "length out = length batch \<and> (\<forall>i < length batch. response_ok (batch ! i) (out ! i)) \<and>
    (uniform_chunks T \<longrightarrow> (\<forall>i < length batch. ok (fst (out ! i)) \<longrightarrow> error (fst (out ! i)) = []))"
proof -
  note b = torch.batch_nth [OF assms]
  then have "out ! i \<in> set out" if "i < length batch" for i using that by simp
  then show ?thesis using b torch_batch_clean [OF assms] by blast
qed

section \<open>Batches agree with single calls\<close>

text \<open>What batching relies on: splitting undoes joining, and the model treats the joined rows alike.\<close>

definition chunk_undoes_cat :: "('f, 'm, 'x) torch \<Rightarrow> 'x list \<Rightarrow> bool" where
  "chunk_undoes_cat T ys \<longleftrightarrow> (\<forall>z. cat T ys = Inr z \<longrightarrow> chunk T z (length ys) = Inr ys)"

definition row_wise :: "('f, 'm, 'x) torch \<Rightarrow> 'm torch_model \<Rightarrow> 'x list \<Rightarrow> 'x list \<Rightarrow> bool" where
  "row_wise T st xs ys \<longleftrightarrow> list_all2 (\<lambda>x y. apply_model T st x = Inr y) xs ys \<and>
     (\<exists>x y. cat T xs = Inr x \<and> apply_model T st x = Inr y \<and> cat T ys = Inr y)"

lemma make_tensors_ok:
  "list_all2 (\<lambda>r x. blob_ok r \<and> from_blob T (req_input r) (req_shape r) dev = Inr x) rs xs \<Longrightarrow>
     make_tensors T dev rs = Some (Inr xs)"
  by (induction rs xs rule: list_all2_induct) simp_all

lemma fill_response_float:
  "dtype_error T y = None \<Longrightarrow> \<exists>resp out. fill_response T y room = (resp, out, None)"
  by (auto simp: fill_response_def Let_def)

definition single_response :: "('f, 'm, 'x) torch \<Rightarrow> 'x \<Rightarrow> nat \<Rightarrow> u64 \<Rightarrow> InferenceResponse \<times> 'f list" where
  "single_response T y room lat = (case fill_response T y room of (resp, out, ex) \<Rightarrow> timed_response lat (caught ex (resp, out)))"

lemma fill_batch_nth:
  "length cs = length rs \<Longrightarrow> \<forall>c \<in> set cs. dtype_error T c = None \<Longrightarrow> \<exists>out. fill_batch T cs rs lat = Some (out, None) \<and> length out = length rs \<and>
     (\<forall>i < length rs. out ! i = single_response T (cs ! i) (req_output_len (rs ! i)) (lat i))"
proof (induction T cs rs lat rule: fill_batch.induct)
  case (3 T c cs r rs lat)
  obtain resp o1 where f: "fill_response T c (req_output_len r) = (resp, o1, None)"
    using fill_response_float [of T c "req_output_len r"] "3.prems"(2) by auto
  then obtain out where out: "fill_batch T cs rs (\<lambda>i. lat (Suc i)) = Some (out, None)" "length out = length rs"
    "\<forall>i < length rs. out ! i = single_response T (cs ! i) (req_output_len (rs ! i)) (lat (Suc i))" using "3.IH" [OF f [symmetric], of o1 None] "3.prems" by auto
  show ?case
    using out f by (intro exI [of _ "timed_response (lat 0) (resp, o1) # out"])
      (auto simp: nth_Cons single_response_def caught_def split: nat.splits)
qed simp_all

text \<open>
  C24. Batching does not change results. If all requests of a batch name the same loaded model and
  have readable inputs, the model treats joined rows alike, its outputs are floats and \<^verbatim>\<open>chunk\<close> undoes \<^verbatim>\<open>cat\<close> on them, then
  response \<open>i\<close> of \<^verbatim>\<open>infer_batch\<close> and its output are what \<^verbatim>\<open>infer\<close> gives for request \<open>i\<close> alone.
\<close>

theorem torch_batch_agrees:
  assumes "batch \<noteq> []" and same: "\<forall>r \<in> set batch. req_model_id r = mid" and st: "table_find ms mid = Some st"
    and xs: "list_all2 (\<lambda>r x. blob_ok r \<and> from_blob T (req_input r) (req_shape r) (torch_device st) = Inr x) batch xs"
    and rows: "row_wise T st xs ys" and undo: "chunk_undoes_cat T ys" and fl: "\<forall>y \<in> set ys. dtype_error T y = None"
  shows "\<exists>out. torch_infer_batch T ms lat batch = Some out \<and> length out = length batch \<and>
    (\<forall>i < length batch. torch_infer T ms (lat i) (batch ! i) = Some (out ! i))"
proof -
  obtain x y where xy: "cat T xs = Inr x" "apply_model T st x = Inr y" "cat T ys = Inr y"
    and all: "list_all2 (\<lambda>x y. apply_model T st x = Inr y) xs ys" using rows by (auto simp: row_wise_def)
  have len: "length xs = length batch" "length ys = length batch"
    using list_all2_lengthD [OF xs] list_all2_lengthD [OF all] by auto
  then have ch: "chunk T y (length batch) = Inr ys" using undo xy(3) by (auto simp: chunk_undoes_cat_def)
  have hdm: "req_model_id (hd batch) = mid" using assms(1) same by (cases batch) simp_all
  obtain out where out: "fill_batch T ys batch lat = Some (out, None)" "length out = length batch"
    "\<forall>i < length batch. out ! i = single_response T (ys ! i) (req_output_len (batch ! i)) (lat i)"
    using fill_batch_nth [OF len(2) fl, of lat] by blast
  have "map (caught None) out = out" by (simp add: caught_def map_idI)
  then have "torch_infer_batch T ms lat batch = Some out"
    using assms(1) hdm st make_tensors_ok [OF xs] xy ch out(1) by (simp add: torch_infer_batch_def)
  moreover have "torch_infer T ms (lat i) (batch ! i) = Some (out ! i)" if i: "i < length batch" for i
    using i out(3) st same [rule_format, OF nth_mem [OF i]] list_all2_nthD [OF xs i] list_all2_nthD [OF all, of i] len
    by (simp add: torch_infer_def single_response_def case_prod_beta)
  ultimately show ?thesis using out(2) by blast
qed

section \<open>A small Torch\<close>

text \<open>
  One-dimensional tensors with the library's documented behaviour: \<^verbatim>\<open>cat\<close> joins along
  the first dimension, \<^verbatim>\<open>chunk\<close> cuts it into pieces of equal size rounded up, the last one possibly smaller.
\<close>

fun pieces :: "nat \<Rightarrow> nat \<Rightarrow> 'a list \<Rightarrow> 'a list list" where
  "pieces 0 k xs = []"
| "pieces (Suc n) k xs = (if xs = [] then [] else take k xs # pieces n k (drop k xs))"

definition small_torch :: "('a::comm_semiring_1, unit, 'a list) torch" where
  "small_torch = \<lparr> cuda_available = False, jit_load = (\<lambda>p d. Inl ''no such file''),
     from_blob = (\<lambda>xs shape d. Inr (take (numel_of shape) xs)), module_forward = (\<lambda>m x. Inr x),
     relu2p1 = (\<lambda>x. Inr (map (\<lambda>v. 2 * v + 1) x)), cat = (\<lambda>xs. Inr (concat xs)),
     chunk = (\<lambda>x n. Inr (pieces n ((length x + n - 1) div n) x)), sizes = (\<lambda>x. [int (length x)]), tensor_data = (\<lambda>x. x), dtype_error = (\<lambda>x. None) \<rparr>"

definition small_request :: "nat list \<Rightarrow> nat InferenceRequest" where
  "small_request xs = \<lparr> req_model_id = ''m'', req_shape = [int (length xs)], req_input = xs, req_output_len = length xs, req_device = Cpu \<rparr>"

definition small_models :: "unit torch_models" where
  "small_models = snd (torch_load (small_torch :: (nat, unit, nat list) torch) ''m'' [] Cpu [])"

lemma small_models_m: "table_find small_models ''m'' = Some \<lparr> module_of = None, torch_device = Cpu \<rparr>"
  by (simp add: small_models_def torch_load_def table_find_def table_emplace_def Let_def)

theorem torch_batch_bounds_witness:
  "\<exists>out. torch_infer_batch small_torch small_models (\<lambda>i. 9) [small_request [1, 2], small_request [3, 4]] = Some out \<and>
     length out = 2 \<and> response_ok (small_request [3, 4]) (out ! 1)"
proof -
  let ?b = "[small_request [1, 2], small_request [3, 4]]"
  have "\<not> Option.is_none (torch_infer_batch small_torch small_models (\<lambda>i. 9) ?b)" by code_simp
  then obtain out where out: "torch_infer_batch small_torch small_models (\<lambda>i. 9) ?b = Some out"
    by (auto simp: Option.is_none_def)
  from torch_batch_bounds [OF this] have "length out = 2 \<and> response_ok (small_request [3, 4]) (out ! 1)" by auto
  then show ?thesis using out by blast
qed

theorem torch_batch_agrees_witness:
  "\<exists>out. torch_infer_batch small_torch small_models (\<lambda>i. 9) [small_request [1, 2], small_request [3, 4]] = Some out \<and>
     torch_infer small_torch small_models 9 (small_request [3, 4]) = Some (out ! 1)"
proof -
  let ?b = "[small_request [1, 2], small_request [3, 4]]"
  let ?st = "\<lparr> module_of = None, torch_device = Cpu \<rparr> :: unit torch_model"
  have 1: "list_all2 (\<lambda>r x. blob_ok r \<and> from_blob small_torch (req_input r) (req_shape r) (torch_device ?st) = Inr x) ?b [[1, 2], [3, 4]]"
    by (simp add: small_request_def blob_ok_def numel_of_def small_torch_def)
  have 2: "row_wise small_torch ?st [[1, 2], [3, 4]] [[3, 5], [7, 9]]"
    by (simp add: row_wise_def small_torch_def apply_model_def)
  have 3: "chunk_undoes_cat small_torch [[3, 5], [7, 9 :: nat]]"
  proof -
    have "chunk small_torch (concat [[3, 5], [7, 9 :: nat]]) 2 = Inr [[3, 5], [7, 9]]" by code_simp
    then show ?thesis by (simp add: chunk_undoes_cat_def small_torch_def numeral_2_eq_2)
  qed
  from torch_batch_agrees [OF _ _ small_models_m 1 2 3, of "\<lambda>i. 9"] have "\<exists>out. torch_infer_batch small_torch small_models (\<lambda>i. 9) ?b = Some out \<and>
      (\<forall>i < 2. torch_infer small_torch small_models 9 (?b ! i) = Some (out ! i))" by (auto simp: small_request_def small_torch_def)
  then
  obtain out where "torch_infer_batch small_torch small_models (\<lambda>i. 9) ?b = Some out"
    and each: "\<forall>i < 2. torch_infer small_torch small_models 9 (?b ! i) = Some (out ! i)" by blast
  then show ?thesis using each [rule_format, of 1] by (intro exI [of _ out]) simp
qed

text \<open>
  Requests with different leading dimensions in one batch are cut at the wrong places: of two requests
  with one and three rows, the first is refused for lack of room and the second is reported
  successful with two rows that are not its own, while each alone is answered correctly.
\<close>

theorem torch_batch_missplits:
  "map_option (map (\<lambda>(r, out). (ok r, error r, out)))
     (torch_infer_batch small_torch small_models (\<lambda>i. 9) [small_request [5], small_request [1, 2, 3]]) =
     Some [(False, ''output buffer too small'', []), (True, [], [5, 7])] \<and>
   map_option snd (torch_infer small_torch small_models 9 (small_request [5])) = Some [11] \<and>
   map_option snd (torch_infer small_torch small_models 9 (small_request [1, 2, 3])) = Some [3, 5, 7]"
  by code_simp

end
