(* ===== verification/Session.thy ===== *)
theory Session
  imports Torch_Backend
begin

text \<open>
  A client connection: the reads and writes of \<^verbatim>\<open>net/async_socket.cpp\<close>, the exceptions of \<^verbatim>\<open>core/errors.hpp\<close> and
  the coroutine \<^verbatim>\<open>session\<close> of \<^verbatim>\<open>server/main.cpp\<close>. The peer and the kernel are a list of what successive
  \<^verbatim>\<open>recv\<close> calls find: bytes, nothing for now, an error; the end of the list is the end of the stream.
  A \<^verbatim>\<open>float\<close> is its 32 bits.
\<close>

section \<open>Sockets\<close>

datatype recv_event = Data "u8 list" | Again | Err

datatype recv_result = Got "u8 list" | Closed | Would_Block | Failed

fun recv :: "nat \<Rightarrow> recv_event list \<Rightarrow> recv_result \<times> recv_event list" where
  "recv n [] = (Closed, [])"
| "recv n (Data bs # es) =
     (if bs = [] then recv n es
      else if length bs \<le> n then (Got bs, es) else (Got (take n bs), Data (drop n bs) # es))"
| "recv n (Again # es) = (Would_Block, es)"
| "recv n (Err # es) = (Failed, es)"

lemma recv_Got: "recv n es = (Got bs, es') \<Longrightarrow> 0 < n \<Longrightarrow> bs \<noteq> [] \<and> length bs \<le> n"
  by (induction n es rule: recv.induct) (auto split: if_splits)

lemma remaining_shrinks: "a < n \<Longrightarrow> xs \<noteq> [] \<Longrightarrow> n - (a + length xs) < n - a"
  by (cases xs) auto

text \<open>The loop of \<^verbatim>\<open>AsyncReadAwaitable::await_resume\<close>: the result, and what it stored in the buffer.\<close>

function read_loop :: "nat \<Rightarrow> u8 list \<Rightarrow> recv_event list \<Rightarrow> int \<times> u8 list \<times> recv_event list" where
  "read_loop len acc es =
     (if length acc < len then
        (case recv (len - length acc) es of
           (Got bs, es') \<Rightarrow> read_loop len (acc @ bs) es'
         | (Closed, es') \<Rightarrow> (int (length acc), acc, es')
         | (Would_Block, es') \<Rightarrow> (int (length acc), acc, es')
         | (Failed, es') \<Rightarrow> (- 1, acc, es'))
      else (int (length acc), acc, es))"
  by pat_completeness auto
termination
  by (relation "measure (\<lambda>(len, acc, es). len - length acc)") (auto dest!: recv_Got [OF sym] intro: remaining_shrinks)

declare read_loop.simps [simp del]

definition sock_read :: "nat \<Rightarrow> recv_event list \<Rightarrow> int \<times> u8 list \<times> recv_event list" where
  "sock_read len es = read_loop len [] es"

text \<open>\<^verbatim>\<open>send\<close> takes as many bytes as the kernel has room for, one number per call; the caller ignores the count.\<close>

fun sock_write :: "u8 list \<Rightarrow> nat list \<Rightarrow> u8 list \<times> nat list" where
  "sock_write bs [] = (bs, [])"
| "sock_write bs (k # ks) = (take k bs, ks)"

section \<open>Exceptions\<close>

datatype JellybeanException = MemoryException string | NetworkException string | InferenceException string
  | ConfigurationException string | TimeoutException string | ServerException string

fun what :: "JellybeanException \<Rightarrow> string" where
  "what (MemoryException msg) = ''Memory Error: '' @ msg"
| "what (NetworkException msg) = ''Network Error: '' @ msg"
| "what (InferenceException msg) = ''Inference Error: '' @ msg"
| "what (ConfigurationException msg) = ''Configuration Error: '' @ msg"
| "what (TimeoutException msg) = ''Timeout Error: '' @ msg"
| "what (ServerException msg) = ''Server Error: '' @ msg"

section \<open>Reading a request\<close>

definition MAX_ELEMS :: u32 where "MAX_ELEMS = 100000000"

definition store :: "'a list \<Rightarrow> 'a list \<Rightarrow> 'a list" where
  "store bs buf = bs @ drop (length bs) buf"

definition byte_char :: "u8 \<Rightarrow> char" where "byte_char b = char_of (unat b)"

fun floats :: "u8 list \<Rightarrow> u32 list" where
  "floats (a # b # c # d # bs) = le_word [a, b, c, d] # floats bs"
| "floats _ = []"

lemma read_loop_bounds:
  "read_loop len acc es = (n, bs, es') \<Longrightarrow> length acc \<le> len \<Longrightarrow>
     length bs \<le> len \<and> (n = int (length bs) \<or> n = - 1) \<and> length acc \<le> length bs"
proof (induction len acc es rule: read_loop.induct)
  case (1 len acc es)
  show ?case
  proof (cases "length acc < len")
    case True
    obtain r es1 where r: "recv (len - length acc) es = (r, es1)" by fastforce
    show ?thesis
    proof (cases r)
      case (Got xs)
      then have xs: "length (acc @ xs) \<le> len" using recv_Got [of "len - length acc" es xs es1] r True by auto
      show ?thesis
        using "1.IH" [OF True r [symmetric] Got _ xs] "1.prems" r True Got by (subst (asm) read_loop.simps) auto
    qed (use "1.prems" r True in \<open>subst (asm) read_loop.simps, auto\<close>)+
  qed (use "1.prems" in \<open>subst (asm) read_loop.simps, auto\<close>)
qed

lemma sock_read_bounds:
  "sock_read len es = (n, bs, es') \<Longrightarrow> length bs \<le> len \<and> (n = int (length bs) \<or> n = - 1)"
  using read_loop_bounds [of len "[]"] by (auto simp: sock_read_def)

text \<open>The loop that collects the payload; \<open>None\<close>: the peer is gone.\<close>

function read_payload :: "nat \<Rightarrow> u8 list \<Rightarrow> recv_event list \<Rightarrow> u8 list option \<times> recv_event list" where
  "read_payload bytes_to_read acc es =
     (if length acc < bytes_to_read then
        (case sock_read (bytes_to_read - length acc) es of
           (n, bs, es') \<Rightarrow> if n \<le> 0 then (None, es') else read_payload bytes_to_read (acc @ bs) es')
      else (Some acc, es))"
  by pat_completeness auto
termination
  by (relation "measure (\<lambda>(len, acc, es). len - length acc)") (auto dest!: sock_read_bounds [OF sym] intro: remaining_shrinks)

declare read_payload.simps [simp del]

datatype read_result = Ended | Thrown JellybeanException | Received string "u32 list"

text \<open>\<open>alloc\<close>, and \<open>alloc_out\<close> below, tell whether a vector of that many elements can be allocated.\<close>

definition read_request :: "(nat \<Rightarrow> bool) \<Rightarrow> recv_event list \<Rightarrow> read_result \<times> recv_event list" where
  "read_request alloc es0 =
     (case sock_read 1 es0 of (n, bs, es1) \<Rightarrow>
      if n \<le> 0 then (Ended, es1) else
      let model_id_len = unat (hd bs) in
      case sock_read model_id_len es1 of (n, bs, es2) \<Rightarrow>
      if n \<le> 0 then (Ended, es2) else
      let mid = map byte_char (store bs (replicate model_id_len 0)) in
      case sock_read 4 es2 of (n, bs, es3) \<Rightarrow>
      if n \<le> 0 then (Ended, es3) else
      let input_elems = (le_word (store bs [0, 0, 0, 0]) :: u32) in
      if input_elems > MAX_ELEMS then
        (Thrown (MemoryException (''Input elements exceed maximum limit: '' @ nat_to_string (unat input_elems))), es3)
      else if \<not> alloc (unat input_elems) then
        (Thrown (MemoryException (''Failed to allocate input buffer for '' @ nat_to_string (unat input_elems) @ '' elements'')), es3)
      else (case read_payload (unat input_elems * 4) [] es3 of
          (None, es4) \<Rightarrow> (Ended, es4)
        | (Some payload, es4) \<Rightarrow> (Received mid (floats payload), es4)))"

section \<open>The session\<close>

definition response_writes :: "InferenceResponse \<Rightarrow> u32 list \<Rightarrow> u8 list list" where
  "response_writes resp output_buf =
     [[if ok resp then 1 else 0], le_bytes 8 (latency_ns resp), le_bytes 4 (output_elems_written resp)] @
     (if ok resp \<and> output_elems_written resp > 0
      then [concat (map (le_bytes 4) (take (unat (output_elems_written resp)) output_buf))] else [])"

fun write_all :: "u8 list list \<Rightarrow> nat list \<Rightarrow> u8 list \<times> nat list" where
  "write_all [] ks = ([], ks)"
| "write_all (w # wss) ks = (let (bs, ks1) = sock_write w ks; (rest, ks2) = write_all wss ks1 in (bs @ rest, ks2))"

datatype session_end = Not_Running | Disconnected | Exception JellybeanException | Undefined

record session_trace =
  handled :: "u32 InferenceRequest list"
  sent :: "u8 list"
  ended :: session_end

text \<open>
  \<open>serve\<close> is \<^verbatim>\<open>runtime.infer_async\<close> together with what the backend leaves in the output buffer. The
  session finds \<^verbatim>\<open>g_running\<close> true \<open>k\<close> times. Writing from beyond the output buffer is undefined.
\<close>

fun session ::
  "(nat \<Rightarrow> bool) \<Rightarrow> (nat \<Rightarrow> bool) \<Rightarrow> (u32 InferenceRequest \<Rightarrow> (InferenceResponse \<times> u32 list) option) \<Rightarrow> int list \<Rightarrow> DeviceKind \<Rightarrow>
    nat \<Rightarrow> recv_event list \<Rightarrow> nat list \<Rightarrow> session_trace" where
  "session alloc alloc_out serve shape dev 0 es ks = \<lparr> handled = [], sent = [], ended = Not_Running \<rparr>"
| "session alloc alloc_out serve shape dev (Suc k) es ks =
     (case read_request alloc es of
        (Ended, es') \<Rightarrow> \<lparr> handled = [], sent = [], ended = Disconnected \<rparr>
      | (Thrown e, es') \<Rightarrow> \<lparr> handled = [], sent = [], ended = Exception e \<rparr>
      | (Received mid xs, es') \<Rightarrow>
          if \<not> alloc_out (length xs) then
            \<lparr> handled = [], sent = [], ended = Exception (MemoryException
                (''Failed to allocate output buffer for '' @ nat_to_string (length xs) @ '' elements'')) \<rparr>
          else let r = \<lparr> req_model_id = mid, req_shape = shape, req_input = xs, req_output_len = length xs, req_device = dev \<rparr> in
          (case serve r of
             None \<Rightarrow> \<lparr> handled = [r], sent = [], ended = Undefined \<rparr>
           | Some (resp, out) \<Rightarrow>
               let output_buf = store out (replicate (length xs) 0) in
               if ok resp \<and> unat (output_elems_written resp) > length output_buf
               then \<lparr> handled = [r], sent = [], ended = Undefined \<rparr>
               else
                 let (bs, ks') = write_all (response_writes resp output_buf) ks;
                     rest = session alloc alloc_out serve shape dev k es' ks' in
                 rest\<lparr> handled := r # handled rest, sent := bs @ sent rest \<rparr>))"

section \<open>What arrives\<close>

text \<open>The event list byte by byte; \<open>None\<close> is a moment with nothing to read.\<close>

fun flat :: "recv_event list \<Rightarrow> u8 option list" where
  "flat [] = []"
| "flat (Data bs # es) = map Some bs @ flat es"
| "flat (Again # es) = None # flat es"
| "flat (Err # es) = flat es"

definition quiet :: "recv_event list \<Rightarrow> bool" where
  "quiet es \<longleftrightarrow> Err \<notin> set es"

lemma recv_flat_byte:
  "quiet es \<Longrightarrow> flat es = Some b # ys \<Longrightarrow> 0 < n \<Longrightarrow> \<exists>bs es' zs. recv n es = (Got bs, es') \<and> bs \<noteq> [] \<and> length bs \<le> n \<and>
     flat es = map Some bs @ flat es' \<and> quiet es'"
proof (induction n es rule: recv.induct)
  case (2 n bs es)
  show ?case
  proof (cases "bs = []")
    case True
    then show ?thesis using 2 by (auto simp: quiet_def)
  next
    case False
    have "map Some (take n bs) @ map Some (drop n bs) @ flat es = map Some bs @ flat es"
      by (metis append.assoc append_take_drop_id map_append)
    then have "flat (Data bs # es) = map Some (take n bs) @ flat (Data (drop n bs) # es)" by simp
    moreover have "quiet (Data (drop n bs) # es)" "quiet es" using "2.prems"(1) by (simp_all add: quiet_def)
    ultimately show ?thesis using "2.prems"(3) False
      by (cases "length bs \<le> n") (auto simp del: flat.simps(2), simp)
  qed
qed (simp_all add: quiet_def)

lemma recv_flat_gap:
  "quiet es \<Longrightarrow> flat es = None # ys \<Longrightarrow> \<exists>es'. recv n es = (Would_Block, es') \<and> flat es' = ys \<and> quiet es'"
proof (induction n es rule: recv.induct)
  case (2 n bs es)
  have "bs = []" using "2.prems"(2) by (cases bs) simp_all
  then show ?case using 2 by (simp add: quiet_def)
qed (simp_all add: quiet_def)

lemma recv_flat_end: "quiet es \<Longrightarrow> flat es = [] \<Longrightarrow> recv n es = (Closed, [])"
  by (induction n es rule: recv.induct) (auto simp: quiet_def)

lemma map_Some_prefix:
  assumes "map Some xs @ ys = map Some bs @ zs" "length bs \<le> length xs"
  shows "xs = bs @ drop (length bs) xs \<and> zs = map Some (drop (length bs) xs) @ ys"
proof -
  have "take (length bs) (map Some xs @ ys) = map Some bs" using assms(1) by simp
  then have "map Some (take (length bs) xs) = map Some bs" using assms(2) by (simp add: take_map)
  then have t: "take (length bs) xs = bs" by (simp add: inj_map_eq_map)
  have "drop (length bs) (map Some xs @ ys) = zs" using assms(1) by simp
  then show ?thesis using t assms(2) by (metis append_take_drop_id drop_append drop_map diff_is_0_eq' drop_0 length_map)
qed

text \<open>A read that finds all its bytes, and one that finds a gap first.\<close>

lemma read_flat:
  "quiet es \<Longrightarrow> flat es = map Some xs @ ys \<Longrightarrow> length acc + length xs = len \<Longrightarrow>
     \<exists>es'. read_loop len acc es = (int len, acc @ xs, es') \<and> flat es' = ys \<and> quiet es'"
proof (induction "length xs" arbitrary: xs acc es rule: less_induct)
  case less
  show ?case
  proof (cases xs)
    case Nil
    then show ?thesis using less.prems by (simp add: read_loop.simps)
  next
    case (Cons x xs')
    obtain bs es1 where r: "recv (len - length acc) es = (Got bs, es1)" "bs \<noteq> []" "length bs \<le> length xs"
      "map Some xs @ ys = map Some bs @ flat es1" "quiet es1"
      using recv_flat_byte [OF less.prems(1), of x "map Some xs' @ ys" "len - length acc"] less.prems Cons by auto
    note pre = map_Some_prefix [OF r(4,3)]
    have "length (drop (length bs) xs) < length xs" using r(2) Cons by simp
    from less.hyps [OF this r(5) conjunct2 [OF pre], of "acc @ bs"] less.prems(3) r(3)
    obtain es' where "read_loop len (acc @ bs) es1 = (int len, (acc @ bs) @ drop (length bs) xs, es')" "flat es' = ys" "quiet es'" by auto
    then show ?thesis using r(1) pre less.prems(3) Cons by (subst read_loop.simps) auto
  qed
qed

lemma read_flat_gap:
  "quiet es \<Longrightarrow> flat es = map Some xs @ None # ys \<Longrightarrow> length acc + length xs < len \<Longrightarrow>
     \<exists>es'. read_loop len acc es = (int (length (acc @ xs)), acc @ xs, es') \<and> flat es' = ys \<and> quiet es'"
proof (induction "length xs" arbitrary: xs acc es rule: less_induct)
  case less
  show ?case
  proof (cases xs)
    case Nil
    then show ?thesis using less.prems recv_flat_gap [OF less.prems(1), of ys "len - length acc"]
      by (subst read_loop.simps) auto
  next
    case (Cons x xs')
    obtain bs es1 where r: "recv (len - length acc) es = (Got bs, es1)" "bs \<noteq> []" "length bs \<le> len - length acc"
      "map Some xs @ None # ys = map Some bs @ flat es1" "quiet es1"
      using recv_flat_byte [OF less.prems(1), of x "map Some xs' @ None # ys" "len - length acc"] less.prems Cons by auto
    have le: "length bs \<le> length xs"
    proof (rule ccontr)
      assume "\<not> length bs \<le> length xs"
      then have "(map Some bs @ flat es1) ! length xs = Some (bs ! length xs)" by (simp add: nth_append)
      then show False using r(4) [symmetric] by (simp add: nth_append)
    qed
    note pre = map_Some_prefix [OF r(4) le]
    have "length (drop (length bs) xs) < length xs" using r(2) Cons by simp
    from less.hyps [OF this r(5) conjunct2 [OF pre], of "acc @ bs"] less.prems(3) le
    obtain es' where e: "read_loop len (acc @ bs) es1 = (int (length ((acc @ bs) @ drop (length bs) xs)), (acc @ bs) @ drop (length bs) xs, es')"
      "flat es' = ys" "quiet es'" by auto
    have "(acc @ bs) @ drop (length bs) xs = acc @ xs" using conjunct1 [OF pre] by simp
    then show ?thesis using r(1) e less.prems(3) by (subst read_loop.simps) auto
  qed
qed

text \<open>A payload that arrives in non-empty blocks with a gap between any two.\<close>

fun gapped :: "u8 list list \<Rightarrow> u8 option list" where
  "gapped [] = []"
| "gapped [b] = map Some b"
| "gapped (b # bs) = map Some b @ None # gapped bs"

lemma read_payload_gapped:
  "quiet es \<Longrightarrow> flat es = gapped blocks @ ys \<Longrightarrow> [] \<notin> set blocks \<Longrightarrow> length acc + length (concat blocks) = len \<Longrightarrow>
     \<exists>es'. read_payload len acc es = (Some (acc @ concat blocks), es') \<and> flat es' = ys \<and> quiet es'"
proof (induction blocks arbitrary: acc es rule: gapped.induct)
  case 1
  then show ?case by (simp add: read_payload.simps)
next
  case (2 b)
  then have b: "0 < length b" by simp
  obtain es' where "read_loop (len - length acc) [] es = (int (len - length acc), b, es')" "flat es' = ys" "quiet es'"
    using read_flat [OF "2.prems"(1), of b ys "[]" "len - length acc"] "2.prems" by auto
  then show ?case using b "2.prems"(4)
    by (subst read_payload.simps) (auto simp: sock_read_def read_payload.simps)
next
  case (3 b c bs)
  have b: "0 < length b" "0 < length c" using "3.prems"(3) by auto
  obtain es1 where e: "read_loop (len - length acc) [] es = (int (length b), b, es1)" "flat es1 = gapped (c # bs) @ ys" "quiet es1"
    using read_flat_gap [OF "3.prems"(1), of b "gapped (c # bs) @ ys" "[]" "len - length acc"] "3.prems" b by auto
  obtain es' where "read_payload len (acc @ b) es1 = (Some ((acc @ b) @ concat (c # bs)), es')" "flat es' = ys" "quiet es'"
    using "3.IH" [OF e(3,2), of "acc @ b"] "3.prems"(3,4) by auto
  then show ?case using e(1) b "3.prems"(4) by (subst read_payload.simps) (auto simp: sock_read_def)
qed

section \<open>Requests as a client sends them\<close>

definition request_header :: "u8 list \<Rightarrow> u32 list \<Rightarrow> u8 list" where
  "request_header mid xs = of_nat (length mid) # mid @ le_bytes 4 (of_nat (length xs) :: u32)"

definition payload_bytes :: "u32 list \<Rightarrow> u8 list" where
  "payload_bytes xs = concat (map (le_bytes 4) xs)"

lemma floats_payload: "floats (payload_bytes xs) = xs"
proof (induction xs)
  case (Cons x xs)
  have "length (le_bytes 4 x) = Suc (Suc (Suc (Suc 0)))" by simp
  then obtain a b c d where abcd: "le_bytes 4 x = [a, b, c, d]" unfolding length_Suc_conv by auto
  have "le_word (le_bytes 4 x) = x" by (rule le_word_le_bytes) simp
  then show ?case using Cons by (simp add: payload_bytes_def abcd)
qed (simp add: payload_bytes_def)

lemma length_payload: "length (payload_bytes xs) = length xs * 4"
  by (induction xs) (simp_all add: payload_bytes_def)

definition sendable :: "u8 list \<Rightarrow> u32 list \<Rightarrow> u8 list list \<Rightarrow> bool" where
  "sendable mid xs blocks \<longleftrightarrow> 0 < length mid \<and> length mid \<le> 255 \<and> length xs \<le> 100000000 \<and>
     [] \<notin> set blocks \<and> concat blocks = payload_bytes xs"

lemma read_request_arrival:
  assumes q: "quiet es" and fl: "flat es = map Some (request_header mid xs) @ gapped blocks @ ys"
    and ok: "sendable mid xs blocks" and alloc: "alloc (length xs)"
  shows "\<exists>es'. read_request alloc es = (Received (map byte_char mid) xs, es') \<and> flat es' = ys \<and> quiet es'"
proof -
  note sd = ok [unfolded sendable_def]
  let ?n = "of_nat (length xs) :: u32"
  have un: "unat ?n = length xs" using sd by (simp add: unat_of_nat)
  have um: "unat (of_nat (length mid) :: u8) = length mid" using sd by (simp add: unat_of_nat)
  have le: "le_word (le_bytes 4 ?n) = ?n" by (rule le_word_le_bytes) simp
  have small: "\<not> ?n > MAX_ELEMS" using sd un by (simp add: MAX_ELEMS_def word_less_nat_alt)
  obtain e1 where e1: "sock_read 1 es = (1, [of_nat (length mid)], e1)"
    "flat e1 = map Some mid @ map Some (le_bytes 4 ?n) @ gapped blocks @ ys" "quiet e1"
    using read_flat [OF q, of "[of_nat (length mid)]" _ "[]" 1] fl by (auto simp: sock_read_def request_header_def)
  obtain e2 where e2: "sock_read (length mid) e1 = (int (length mid), mid, e2)"
    "flat e2 = map Some (le_bytes 4 ?n) @ gapped blocks @ ys" "quiet e2"
    using read_flat [OF e1(3,2), of "[]" "length mid"] by (auto simp: sock_read_def)
  obtain e3 where e3: "sock_read 4 e2 = (4, le_bytes 4 ?n, e3)" "flat e3 = gapped blocks @ ys" "quiet e3"
    using read_flat [OF e2(3,2), of "[]" 4] by (auto simp: sock_read_def)
  obtain e4 where e4: "read_payload (length xs * 4) [] e3 = (Some (payload_bytes xs), e4)" "flat e4 = ys" "quiet e4"
    using read_payload_gapped [OF e3(3,2), of "[]" "length xs * 4"] sd by (auto simp: length_payload)
  have "store (le_bytes 4 ?n) [0, 0, 0, 0] = le_bytes 4 ?n" "store mid (replicate (length mid) 0) = mid" by (simp_all add: store_def)
  then show ?thesis
    using e1(1) e2(1) e3(1) e4 sd small alloc
    by (simp add: read_request_def um un le floats_payload)
qed

lemma length_floats: "length (floats bs) = length bs div 4"
  by (induction bs rule: floats.induct) simp_all

lemma read_payload_length: "read_payload len acc es = (Some bs, es') \<Longrightarrow> length acc \<le> len \<Longrightarrow> length bs = len"
proof (induction len acc es rule: read_payload.induct)
  case (1 len acc es)
  obtain n xs es1 where r: "sock_read (len - length acc) es = (n, xs, es1)" by (cases "sock_read (len - length acc) es") auto
  have "length (acc @ xs) \<le> len" if "length acc < len" using sock_read_bounds [OF r] that by auto
  then show ?case using 1 r by (subst (asm) (2) read_payload.simps) (auto split: if_splits)
qed

lemma read_request_bounds:
  assumes "read_request alloc es = (Received mid xs, es')"
  shows "0 < length mid \<and> length mid \<le> 255 \<and> length xs \<le> 100000000"
proof -
  obtain n1 b1 e1 where 1: "sock_read 1 es = (n1, b1, e1)" by (cases "sock_read 1 es") auto
  obtain n2 b2 e2 where 2: "sock_read (unat (hd b1)) e1 = (n2, b2, e2)" by (cases "sock_read (unat (hd b1)) e1") auto
  obtain n3 b3 e3 where 3: "sock_read 4 e2 = (n3, b3, e3)" by (cases "sock_read 4 e2") auto
  let ?n = "le_word (store b3 [0, 0, 0, 0]) :: u32"
  obtain p e4 where 4: "read_payload (unat ?n * 4) [] e3 = (p, e4)" by fastforce
  note ok = assms [unfolded read_request_def, simplified 1 2 3 4 Let_def prod.case]
  have n2: "n2 > 0" and mid: "mid = map byte_char (store b2 (replicate (unat (hd b1)) 0))" and n: "\<not> ?n > MAX_ELEMS"
    and p: "p = Some q \<Longrightarrow> xs = floats q" "p \<noteq> None" for q
    using ok by (auto split: if_splits option.splits)
  have b2: "length b2 \<le> unat (hd b1)" "0 < length b2" using sock_read_bounds [OF 2] n2 by auto
  then have m: "length mid = unat (hd b1)" by (simp add: mid store_def)
  moreover have "0 < length mid" using b2 unfolding m by linarith
  moreover have "unat (hd b1) < 256" using unsigned_less [of "hd b1"] by simp
  moreover have "unat ?n \<le> 100000000" using n by (simp add: MAX_ELEMS_def word_less_nat_alt not_less)
  moreover obtain q where "p = Some q" using p(2) by auto
  ultimately show ?thesis using read_payload_length [of "unat ?n * 4" "[]" e3 q e4] 4 p(1) by (auto simp: length_floats)
qed

section \<open>Properties\<close>

text \<open>
  C34. Whatever a client sends, in whatever pieces, every request that a session hands to the runtime has a
  model name of 1 to 255 characters, at most 100000000 input elements, and an output buffer of that size.
\<close>

theorem session_bounds:
  "\<forall>r \<in> set (handled (session alloc alloc_out serve shape dev k es ks)).
     0 < length (req_model_id r) \<and> length (req_model_id r) \<le> 255 \<and>
     length (req_input r) \<le> 100000000 \<and> req_output_len r = length (req_input r)"
proof (induction k arbitrary: es ks)
  case (Suc k)
  show ?case
  proof (cases "\<exists>mid xs es'. read_request alloc es = (Received mid xs, es')")
    case True
    then obtain mid xs es' where r: "read_request alloc es = (Received mid xs, es')" by blast
    have "0 < length mid \<and> length mid \<le> 255 \<and> length xs \<le> 100000000" by (rule read_request_bounds [OF r])
    then show ?thesis using r Suc by (auto simp: Let_def split: option.splits prod.splits if_splits)
  next
    case False
    then show ?thesis by (auto split: prod.splits read_result.splits)
  qed
qed simp

theorem session_bounds_witness:
  "\<exists>r. handled (session (\<lambda>n. True) (\<lambda>n. True) (\<lambda>r. Some (error_response [], [])) [1] Cpu 2
      [Data [1, 109, 1, 0, 0, 0, 7, 0], Again, Data [0, 0]] []) = [r] \<and> length (req_model_id r) \<le> 255 \<and> req_output_len r = length (req_input r)"
proof -
  let ?rs = "handled (session (\<lambda>n. True) (\<lambda>n. True) (\<lambda>r. Some (error_response [], [])) [1] Cpu 2
      [Data [1, 109, 1, 0, 0, 0, 7, 0], Again, Data [0, 0]] [])"
  have "length ?rs = 1" by code_simp
  then obtain r where "?rs = [r]" by (cases ?rs) auto
  with session_bounds [of "\<lambda>n. True" "\<lambda>n. True" "\<lambda>r. Some (error_response [], [])" "[1]" Cpu 2
      "[Data [1, 109, 1, 0, 0, 0, 7, 0], Again, Data [0, 0]]" "[]"] show ?thesis by auto
qed

text \<open>The request that the session builds, and the bytes of an answer.\<close>

definition session_request :: "int list \<Rightarrow> DeviceKind \<Rightarrow> u8 list \<Rightarrow> u32 list \<Rightarrow> u32 InferenceRequest" where
  "session_request shape dev mid xs =
     \<lparr> req_model_id = map byte_char mid, req_shape = shape, req_input = xs, req_output_len = length xs, req_device = dev \<rparr>"

definition response_bytes :: "nat \<Rightarrow> InferenceResponse \<times> u32 list \<Rightarrow> u8 list" where
  "response_bytes n ro = concat (response_writes (fst ro) (store (snd ro) (replicate n 0)))"

lemma write_all_complete: "write_all wss [] = (concat wss, [])"
  by (induction wss) simp_all

lemma response_room:
  assumes "response_ok (session_request shape dev mid xs) (resp, out)"
  shows "\<not> (ok resp \<and> length (store out (replicate (length xs) 0)) < unat (output_elems_written resp))"
  using assms by (auto simp: response_ok_def session_request_def store_def)

lemma session_request_step:
  assumes q: "quiet es" and fl: "flat es = map Some (request_header mid xs) @ gapped blocks @ ys"
    and ok: "sendable mid xs blocks" and alloc: "alloc (length xs)" "alloc_out (length xs)"
    and sv: "serve (session_request shape dev mid xs) = Some ro" "response_ok (session_request shape dev mid xs) ro"
  shows "\<exists>es'. flat es' = ys \<and> quiet es' \<and> session alloc alloc_out serve shape dev (Suc k) es [] =
    (let rest = session alloc alloc_out serve shape dev k es' [] in
      rest\<lparr> handled := session_request shape dev mid xs # handled rest, sent := response_bytes (length xs) ro @ sent rest \<rparr>)"
proof -
  obtain es' where es': "read_request alloc es = (Received (map byte_char mid) xs, es')" "flat es' = ys" "quiet es'"
    using read_request_arrival [OF q fl ok, of alloc] alloc by blast
  obtain resp out where ro: "ro = (resp, out)" by (cases ro)
  show ?thesis using es' sv alloc response_room [of shape dev mid xs resp out] write_all_complete
    by (intro exI [of _ es']) (auto simp: session_request_def [symmetric] ro Let_def response_bytes_def)
qed

text \<open>
  C2. A well-formed conversation is served completely and in order. The requests of a client, each with a name of 1 to
  255 bytes and at most 100000000 elements, may arrive in any segmentation, the payloads also with
  pauses, as long as there is no pause inside a header: the session then hands exactly these
  requests to the runtime, in order, and sends back exactly the encoded answers (when the kernel
  takes every write), and ends when the client disconnects.
\<close>

theorem session_serves:
  assumes "quiet es" and "flat es = concat (map (\<lambda>(mid, xs, blocks). map Some (request_header mid xs) @ gapped blocks) rs)"
    and "\<forall>(mid, xs, blocks) \<in> set rs. sendable mid xs blocks \<and> alloc (length xs) \<and> alloc_out (length xs) \<and>
      serve (session_request shape dev mid xs) = Some (answer (mid, xs)) \<and>
      response_ok (session_request shape dev mid xs) (answer (mid, xs))"
  shows "session alloc alloc_out serve shape dev (Suc (length rs)) es [] =
    \<lparr> handled = map (\<lambda>(mid, xs, blocks). session_request shape dev mid xs) rs,
      sent = concat (map (\<lambda>(mid, xs, blocks). response_bytes (length xs) (answer (mid, xs))) rs), ended = Disconnected \<rparr>"
  using assms
proof (induction rs arbitrary: es)
  case Nil
  then have "recv 1 es = (Closed, [])" using recv_flat_end by simp
  then show ?case by (simp add: read_request_def sock_read_def read_loop.simps)
next
  case (Cons r rs)
  obtain mid xs blocks where r: "r = (mid, xs, blocks)" by (cases r) auto
  let ?ys = "concat (map (\<lambda>(mid, xs, blocks). map Some (request_header mid xs) @ gapped blocks) rs)"
  have "flat es = map Some (request_header mid xs) @ gapped blocks @ ?ys" using Cons.prems(2) r by simp
  from session_request_step [OF Cons.prems(1) this, of alloc alloc_out serve shape dev "answer (mid, xs)" "Suc (length rs)"] Cons.prems(3) r
  obtain es' where es': "flat es' = ?ys" "quiet es'" "session alloc alloc_out serve shape dev (Suc (Suc (length rs))) es [] =
    (let rest = session alloc alloc_out serve shape dev (Suc (length rs)) es' [] in
      rest\<lparr> handled := session_request shape dev mid xs # handled rest, sent := response_bytes (length xs) (answer (mid, xs)) @ sent rest \<rparr>)"
    by auto
  have "session alloc alloc_out serve shape dev (Suc (length rs)) es' [] =
    \<lparr> handled = map (\<lambda>(mid, xs, blocks). session_request shape dev mid xs) rs,
      sent = concat (map (\<lambda>(mid, xs, blocks). response_bytes (length xs) (answer (mid, xs))) rs), ended = Disconnected \<rparr>"
    using Cons.IH [OF es'(2,1)] Cons.prems(3) by simp
  then show ?case using es'(3) r by (simp add: Let_def del: session.simps)
qed

lemma seven: "payload_bytes [7] = [7, 0, 0, 0]"
  by code_simp

theorem session_serves_witness:
  "session (\<lambda>n. True) (\<lambda>n. True) (\<lambda>r. Some (error_response ''no'', [])) [1] Cpu 2
     [Data [1, 109, 1], Data [0, 0, 0, 7], Again, Data [0, 0, 0]] [] =
   \<lparr> handled = [session_request [1] Cpu [109] [7]], sent = response_bytes 1 (error_response ''no'', []), ended = Disconnected \<rparr>"
proof -
  let ?es = "[Data [1, 109, 1], Data [0, 0, 0, 7], Again, Data [0, 0, 0]]"
  have fl: "flat ?es = concat (map (\<lambda>(mid, xs, blocks). map Some (request_header mid xs) @ gapped blocks) [([109], [7], [[7], [0, 0, 0]])])"
    by code_simp
  have q: "quiet ?es" by (simp add: quiet_def)
  have s: "sendable [109] [7] [[7], [0, 0, 0]]" by (simp add: sendable_def seven)
  have r: "response_ok (session_request [1] Cpu [109] [7]) (error_response ''no'', [])"
    by (simp add: response_ok_def session_request_def error_response_def)
  from session_serves [OF q fl, of "\<lambda>n. True" "\<lambda>n. True" "\<lambda>r. Some (error_response ''no'', [])" "[1]" Cpu "\<lambda>c. (error_response ''no'', [])"]
  show ?thesis using s r by (simp add: numeral_2_eq_2 del: session.simps)
qed

text \<open>
  A pause inside a header desynchronises the session: the four bytes of the element count are accepted as soon as one of
  them has arrived. A client sends a request with 257 elements, whose count arrives in two
  pieces; the session builds a request with the single element 1 out of the rest of the count and the first byte of the payload.
\<close>

theorem session_short_read:
  "\<exists>es xs. quiet es \<and> map the (filter (\<lambda>c. c \<noteq> None) (flat es)) = request_header [109] xs @ payload_bytes xs \<and>
     length xs = 257 \<and> fst (read_request (\<lambda>n. True) es) = Received ''m'' [1]"
proof -
  let ?xs = "replicate 257 0 :: u32 list"
  let ?es = "[Data [1, 109, 1], Again, Data ([1, 0, 0] @ payload_bytes ?xs)]"
  have q: "quiet ?es" by (simp add: quiet_def)
  have z: "payload_bytes ?xs = 0 # tl (payload_bytes ?xs)"
    by (simp add: payload_bytes_def numeral_eq_Suc le_bytes_def)
  have fl: "flat ?es = map Some [1] @ map Some [109] @ map Some [1] @ None # map Some [1, 0, 0, 0] @ map Some (tl (payload_bytes ?xs))"
    by (subst z) simp
  obtain e1 where e1: "sock_read 1 ?es = (1, [1], e1)" "quiet e1"
    "flat e1 = map Some [109] @ map Some [1] @ None # map Some [1, 0, 0, 0] @ map Some (tl (payload_bytes ?xs))"
    using read_flat [OF q fl, of "[]" 1] by (auto simp: sock_read_def)
  obtain e2 where e2: "sock_read 1 e1 = (1, [109], e2)" "quiet e2"
    "flat e2 = map Some [1] @ None # map Some [1, 0, 0, 0] @ map Some (tl (payload_bytes ?xs))"
    using read_flat [OF e1(2,3), of "[]" 1] by (auto simp: sock_read_def)
  obtain e3 where e3: "sock_read 4 e2 = (1, [1], e3)" "quiet e3" "flat e3 = map Some [1, 0, 0, 0] @ map Some (tl (payload_bytes ?xs))"
    using read_flat_gap [OF e2(2,3), of "[]" 4] by (auto simp: sock_read_def)
  have one: "le_word [1, 0, 0, 0] = (1 :: u32)" by code_simp
  have g: "flat e3 = gapped [[1, 0, 0, 0]] @ map Some (tl (payload_bytes ?xs))" using e3(3) by simp
  obtain e4 where e4: "read_payload 4 [] e3 = (Some [1, 0, 0, 0], e4)"
    using read_payload_gapped [OF e3(2) g, of "[]" 4] by auto
  have "byte_char 109 = CHR ''m''" by code_simp
  then have "fst (read_request (\<lambda>n. True) ?es) = Received ''m'' [1]"
    using e1(1) e2(1) e3(1) e4 one by (simp add: read_request_def store_def MAX_ELEMS_def)
  moreover have "map the (filter (\<lambda>c. c \<noteq> None) (flat ?es)) = request_header [109] ?xs @ payload_bytes ?xs"
  proof -
    have "map the (filter (\<lambda>c. c \<noteq> None) (map Some bs)) = bs" for bs :: "u8 list" by (induction bs) simp_all
    moreover have "request_header [109] ?xs = [1, 109, 1, 1, 0, 0]"
    proof -
      have "le_bytes 4 (257 :: u32) = [1, 1, 0, 0]" by code_simp
      then show ?thesis by (simp add: request_header_def)
    qed
    ultimately show ?thesis by simp
  qed
  ultimately show ?thesis using q by (intro exI [of _ ?es] exI [of _ ?xs]) simp
qed

section \<open>With the Torch backend\<close>

text \<open>A request alone in its batch.\<close>

definition torch_serve ::
  "('f, 'm, 'x) torch \<Rightarrow> 'm torch_models \<Rightarrow> u64 \<Rightarrow> 'f InferenceRequest \<Rightarrow> (InferenceResponse \<times> 'f list) option" where
  "torch_serve T ms lat r = (case torch_infer_batch T ms (\<lambda>i. lat) [r] of Some [ro] \<Rightarrow> Some ro | _ \<Rightarrow> None)"

text \<open>
  C35. The session does not compare the number of elements a client sends with the configured input shape. A client that
  names a loaded model and sends fewer elements than the shape has makes the backend read beyond
  the input vector: the behaviour is undefined.
\<close>

theorem session_overread:
  assumes "quiet es" and "flat es = map Some (request_header mid xs) @ gapped blocks @ ys"
    and "sendable mid xs blocks" and "alloc (length xs)" and "alloc_out (length xs)"
    and "table_find ms (map byte_char mid) = Some st" and "length xs < numel_of shape"
  shows "ended (session alloc alloc_out (torch_serve T ms lat) shape dev (Suc k) es ks) = Undefined"
proof -
  obtain es' where es': "read_request alloc es = (Received (map byte_char mid) xs, es')"
    using read_request_arrival [OF assms(1-3), of alloc] assms(4) by blast
  have "torch_serve T ms lat (session_request shape dev mid xs) = None"
    using assms(6,7) by (simp add: torch_serve_def torch_infer_batch_def session_request_def blob_ok_def)
  then show ?thesis using es' assms(5) by (simp add: session_request_def)
qed

theorem session_overread_witness:
  "ended (session (\<lambda>n. True) (\<lambda>n. True) (torch_serve small_torch small_models 9) [4] Cpu 1 [Data [1, 109, 1, 0, 0, 0, 7, 0, 0, 0]] []) = Undefined"
proof -
  let ?es = "[Data [1, 109, 1, 0, 0, 0, 7, 0, 0, 0]]"
  have fl: "flat ?es = map Some (request_header [109] [7]) @ gapped [[7, 0, 0, 0]] @ []" by code_simp
  have q: "quiet ?es" by (simp add: quiet_def)
  have s: "sendable [109] [7] [[7, 0, 0, 0]]" by (simp add: sendable_def seven)
  have "map byte_char [109] = ''m''" by code_simp
  then have m: "table_find small_models (map byte_char [109]) = Some \<lparr> module_of = None, torch_device = Cpu \<rparr>"
    using small_models_m by simp
  from session_overread [OF q fl s _ _ m, of "\<lambda>n. True" "\<lambda>n. True" "[4]" small_torch 9 Cpu 0 "[]"]
  show ?thesis by (simp add: numel_of_def del: session.simps)
qed

end
