(* ===== verification/Runtime.thy ===== *)
theory Runtime
  imports Executor
begin

text \<open>
  \<^verbatim>\<open>InferenceRuntime\<close> of \<^verbatim>\<open>inference/runtime.cpp\<close> with \<^verbatim>\<open>get_all_metrics\<close>: a table from model names to
  executors. Executors are shared objects; the runtime's state numbers every executor it ever
  created and keeps of each what the runtime sees: its metadata, its \<^verbatim>\<open>stopped_\<close> flag and its
  counters. What an executor does between \<^verbatim>\<open>start()\<close> and \<^verbatim>\<open>stop()\<close> is the subject of \<open>Executor\<close>.
\<close>

section \<open>State and operations\<close>

record 'b exec_view =
  view_meta :: "'b ModelMetadata"
  view_workers :: nat
  view_stopped :: bool
  view_metrics :: PlainMetrics
  view_hist :: LatencyHistogram

record 'b InferenceRuntime =
  worker_threads :: nat
  executors :: "(string, nat) table"
  rt_stopped :: bool
  pool :: "'b exec_view list"

definition runtime_new :: "nat \<Rightarrow> 'b InferenceRuntime" where
  "runtime_new n = \<lparr> worker_threads = n, executors = [], rt_stopped = False, pool = [] \<rparr>"

definition view_new :: "'b ModelMetadata \<Rightarrow> nat \<Rightarrow> 'b exec_view" where
  "view_new m n = \<lparr> view_meta = m, view_workers = (if n > 0 then n else 1), view_stopped = True,
     view_metrics = zero_metrics, view_hist = hist_new \<rparr>"

definition view_start :: "'b exec_view \<Rightarrow> 'b exec_view" where
  "view_start e = e\<lparr> view_stopped := False \<rparr>"

definition view_stop :: "'b exec_view \<Rightarrow> 'b exec_view" where
  "view_stop e = e\<lparr> view_stopped := True \<rparr>"

definition stop_at :: "nat \<Rightarrow> 'b InferenceRuntime \<Rightarrow> 'b InferenceRuntime" where
  "stop_at h rt = (if h < length (pool rt) then rt\<lparr> pool := (pool rt)[h := view_stop (pool rt ! h)] \<rparr> else rt)"

text \<open>A refused executor goes out of scope and its destructor stops it.\<close>

definition runtime_register :: "string \<Rightarrow> 'b ModelMetadata option \<Rightarrow> 'b InferenceRuntime \<Rightarrow> bool \<times> 'b InferenceRuntime" where
  "runtime_register mid mo rt =
     (case mo of None \<Rightarrow> (False, rt)
      | Some m \<Rightarrow>
          if \<not> is_ready m then (False, rt)
          else let e = view_start (view_new m (worker_threads rt));
                   (inserted, t) = table_emplace mid (length (pool rt)) (executors rt) in
            (inserted, rt\<lparr> executors := t, pool := pool rt @ [if inserted then e else view_stop e] \<rparr>))"

definition runtime_unregister :: "string \<Rightarrow> 'b InferenceRuntime \<Rightarrow> bool \<times> 'b InferenceRuntime" where
  "runtime_unregister mid rt =
     (case table_find (executors rt) mid of None \<Rightarrow> (False, rt)
      | Some h \<Rightarrow> (True, stop_at h (rt\<lparr> executors := table_erase mid (executors rt) \<rparr>)))"

datatype route = Answered InferenceResponse | To_Executor nat u64

definition runtime_infer_async :: "'f InferenceRequest \<Rightarrow> u64 \<Rightarrow> 'b InferenceRuntime \<Rightarrow> route" where
  "runtime_infer_async r routing rt =
     (if rt_stopped rt then Answered (error_response ''runtime stopped'')
      else case table_find (executors rt) (req_model_id r) of
          None \<Rightarrow> Answered (error_response (''model not registered in runtime: '' @ req_model_id r))
        | Some h \<Rightarrow> To_Executor h routing)"

definition runtime_shutdown :: "'b InferenceRuntime \<Rightarrow> 'b InferenceRuntime" where
  "runtime_shutdown rt =
     (if rt_stopped rt then rt
      else fold (\<lambda>(k, h). stop_at h) (executors rt) (rt\<lparr> rt_stopped := True, executors := [] \<rparr>))"

record ModelExecutorMetrics =
  mem_model_id :: string
  mem_metrics :: PlainMetrics
  p50_ns :: u64
  p95_ns :: u64
  p99_ns :: u64

definition get_all_metrics :: "'b InferenceRuntime \<Rightarrow> ModelExecutorMetrics list" where
  "get_all_metrics rt =
     map (\<lambda>(k, h). let e = pool rt ! h in
        \<lparr> mem_model_id = k, mem_metrics = view_metrics e, p50_ns = percentile P50 (view_hist e),
          p95_ns = percentile P95 (view_hist e), p99_ns = percentile P99 (view_hist e) \<rparr>) (executors rt)"

section \<open>The invariant\<close>

text \<open>Exactly the executors in the table run, each under one name.\<close>

definition runtime_ok :: "'b InferenceRuntime \<Rightarrow> bool" where
  "runtime_ok rt \<longleftrightarrow> table_ok (executors rt) \<and> distinct (map snd (executors rt)) \<and>
     (\<forall>h \<in> snd ` set (executors rt). h < length (pool rt)) \<and>
     (\<forall>h < length (pool rt). view_stopped (pool rt ! h) \<longleftrightarrow> h \<notin> snd ` set (executors rt))"

lemma stop_at_fields [simp]:
  "executors (stop_at h rt) = executors rt" "rt_stopped (stop_at h rt) = rt_stopped rt"
  "length (pool (stop_at h rt)) = length (pool rt)" "worker_threads (stop_at h rt) = worker_threads rt"
  by (simp_all add: stop_at_def)

lemma stop_at_pool:
  "i < length (pool rt) \<Longrightarrow> pool (stop_at h rt) ! i = (if i = h then view_stop (pool rt ! i) else pool rt ! i)"
  by (simp add: stop_at_def)

lemma view_stop_stopped [simp]: "view_stopped (view_stop e)" "view_meta (view_stop e) = view_meta e"
    "\<not> view_stopped (view_start e)" "view_meta (view_start e) = view_meta e" "view_meta (view_new m n) = m"
  by (simp_all add: view_stop_def view_start_def view_new_def)

lemma stop_all_fields:
  "executors (fold (\<lambda>(k, h). stop_at h) es rt) = executors rt \<and> rt_stopped (fold (\<lambda>(k, h). stop_at h) es rt) = rt_stopped rt \<and>
   length (pool (fold (\<lambda>(k, h). stop_at h) es rt)) = length (pool rt)"
  by (induction es arbitrary: rt) (simp_all add: case_prod_beta)

lemma stop_all_pool:
  "i < length (pool rt) \<Longrightarrow> pool (fold (\<lambda>(k, h). stop_at h) es rt) ! i =
     (if i \<in> snd ` set es then view_stop (pool rt ! i) else pool rt ! i)"
proof (induction es arbitrary: rt)
  case (Cons e es)
  have "view_stop (view_stop x) = view_stop x" for x :: "'a exec_view" by (simp add: view_stop_def)
  then show ?case using Cons.IH [of "stop_at (snd e) rt"] Cons.prems by (auto simp: case_prod_beta stop_at_pool)
qed simp

lemma register_ok:
  assumes ok: "runtime_ok rt"
  shows "runtime_ok (snd (runtime_register mid mo rt))"
proof (cases "\<exists>m. mo = Some m \<and> is_ready m")
  case True
  then obtain m where m: "mo = Some m" "is_ready m" by blast
  have tok: "table_ok (snd (table_emplace mid (length (pool rt)) (executors rt)))"
    using table_i.emplace_inv ok by (auto simp: runtime_ok_def)
  have "length (pool rt) \<notin> snd ` set (executors rt)" using ok by (auto simp: runtime_ok_def)
  then show ?thesis using ok m tok
    by (auto simp: runtime_register_def table_emplace_def runtime_ok_def Let_def nth_append less_Suc_eq)
qed (use ok in \<open>auto simp: runtime_register_def split: option.splits\<close>)

lemma unregister_ok:
  assumes ok: "runtime_ok rt"
  shows "runtime_ok (snd (runtime_unregister mid rt))"
proof (cases "table_find (executors rt) mid")
  case (Some h)
  let ?t = "table_erase mid (executors rt)"
  have d: "distinct (map fst (executors rt))" "distinct (map snd (executors rt))" using ok by (auto simp: runtime_ok_def table_ok_def)
  have mem: "(mid, h) \<in> set (executors rt)" using Some by (simp add: table_find_def map_of_SomeD)
  have vals: "snd ` set ?t = snd ` set (executors rt) - {h}"
  proof
    show "snd ` set ?t \<subseteq> snd ` set (executors rt) - {h}"
      using mem d by (auto simp: table_erase_def distinct_map inj_on_def) (metis snd_conv fst_conv)
    show "snd ` set (executors rt) - {h} \<subseteq> snd ` set ?t"
    proof
      fix g assume g: "g \<in> snd ` set (executors rt) - {h}"
      then obtain k where k: "(k, g) \<in> set (executors rt)" by auto
      have "k \<noteq> mid" using g k mem eq_key_imp_eq_value [OF d(1), of mid g h] by blast
      then show "g \<in> snd ` set ?t" using k by (force simp: table_erase_def)
    qed
  qed
  have "distinct (map snd ?t)" using d(2) by (simp add: table_erase_def distinct_map_filter)
  moreover have "table_ok ?t" using ok table_erase_ok by (auto simp: runtime_ok_def)
  ultimately show ?thesis using ok vals Some
    by (auto simp: runtime_unregister_def runtime_ok_def stop_at_pool)
qed (use ok in \<open>simp add: runtime_unregister_def\<close>)

lemma shutdown_ok:
  assumes ok: "runtime_ok rt"
  shows "runtime_ok (runtime_shutdown rt)"
proof (cases "rt_stopped rt")
  case False
  then show ?thesis using ok stop_all_fields [of "executors rt" "rt\<lparr> rt_stopped := True, executors := [] \<rparr>"]
    stop_all_pool [where es = "executors rt" and rt = "rt\<lparr> rt_stopped := True, executors := [] \<rparr>"]
    by (auto simp: runtime_shutdown_def runtime_ok_def table_ok_def)
qed (use ok in \<open>simp add: runtime_shutdown_def\<close>)

section \<open>Refinement of a map from names to models\<close>

text \<open>What a user of the runtime may think it is: a set of named models and a flag.\<close>

datatype 'b rt_op = Register string "'b ModelMetadata option" | Unregister string | Shutdown

fun rt_step :: "'b rt_op \<Rightarrow> 'b InferenceRuntime \<Rightarrow> bool \<times> 'b InferenceRuntime" where
  "rt_step (Register mid m) rt = runtime_register mid m rt"
| "rt_step (Unregister mid) rt = runtime_unregister mid rt"
| "rt_step Shutdown rt = (True, runtime_shutdown rt)"

type_synonym 'b service = "(string \<rightharpoonup> 'b ModelMetadata) \<times> bool"

fun service_step :: "'b rt_op \<Rightarrow> 'b service \<Rightarrow> bool \<times> 'b service" where
  "service_step (Register mid None) (M, x) = (False, (M, x))"
| "service_step (Register mid (Some m)) (M, x) =
     (if is_ready m \<and> M mid = None then (True, (M(mid \<mapsto> m), x)) else (False, (M, x)))"
| "service_step (Unregister mid) (M, x) = (M mid \<noteq> None, (M(mid := None), x))"
| "service_step Shutdown (M, x) = (True, (if x then M else Map.empty, True))"

definition service :: "'b InferenceRuntime \<Rightarrow> 'b service" where
  "service rt = ((\<lambda>k. map_option (\<lambda>h. view_meta (pool rt ! h)) (table_find (executors rt) k)), rt_stopped rt)"

fun answers :: "('o \<Rightarrow> 's \<Rightarrow> bool \<times> 's) \<Rightarrow> 'o list \<Rightarrow> 's \<Rightarrow> bool list \<times> 's" where
  "answers step [] s = ([], s)"
| "answers step (c # cs) s = (let (b, s') = step c s; (bs, s'') = answers step cs s' in (b # bs, s''))"

lemma find_in_pool: "runtime_ok rt \<Longrightarrow> table_find (executors rt) k = Some h \<Longrightarrow> h < length (pool rt) \<and> \<not> view_stopped (pool rt ! h)"
  unfolding runtime_ok_def table_find_def by (force dest!: map_of_SomeD)

lemma service_register:
  assumes ok: "runtime_ok rt"
  shows "(fst (runtime_register mid mo rt), service (snd (runtime_register mid mo rt))) = service_step (Register mid mo) (service rt)"
proof (cases "\<exists>m. mo = Some m \<and> is_ready m")
  case True
  then obtain m where m: "mo = Some m" "is_ready m" by blast
  have "(pool rt @ x) ! h = pool rt ! h" if "table_find (executors rt) k = Some h" for k h x
    using find_in_pool [OF ok that] by (simp add: nth_append)
  then have old: "map_option (\<lambda>h. view_meta ((pool rt @ x) ! h)) (table_find (executors rt) k) =
      map_option (\<lambda>h. view_meta (pool rt ! h)) (table_find (executors rt) k)" for k x
    by (cases "table_find (executors rt) k") auto
  have "table_find (executors rt @ [(mid, n)]) k =
      (if table_find (executors rt) k = None \<and> k = mid then Some n else table_find (executors rt) k)" for n k
    by (auto simp: table_find_def map_add_def split: option.splits)
  then show ?thesis using m old
    by (auto simp: runtime_register_def table_emplace_def service_def Let_def fun_eq_iff)
qed (auto simp: runtime_register_def service_def split: option.splits)

lemma service_unregister:
  assumes ok: "runtime_ok rt"
  shows "(fst (runtime_unregister mid rt), service (snd (runtime_unregister mid rt))) = service_step (Unregister mid) (service rt)"
proof (cases "table_find (executors rt) mid")
  case None
  then show ?thesis by (auto simp: runtime_unregister_def service_def fun_eq_iff)
next
  case (Some h)
  have "map_option (\<lambda>g. view_meta (pool (stop_at h (rt\<lparr> executors := t \<rparr>)) ! g)) (table_find (executors rt) k) =
      map_option (\<lambda>g. view_meta (pool rt ! g)) (table_find (executors rt) k)" for k t
    using find_in_pool [OF ok, of k] by (cases "table_find (executors rt) k") (auto simp: stop_at_pool)
  then show ?thesis using Some by (auto simp: runtime_unregister_def service_def fun_eq_iff table_find_erase)
qed

lemma service_shutdown: "service (runtime_shutdown rt) = snd (service_step Shutdown (service rt))"
  using stop_all_fields [of "executors rt" "rt\<lparr> rt_stopped := True, executors := [] \<rparr>"]
  by (auto simp: runtime_shutdown_def service_def table_find_def fun_eq_iff)

lemma rt_step_refines:
  assumes "runtime_ok rt"
  shows "runtime_ok (snd (rt_step c rt))" "service_step c (service rt) = (fst (rt_step c rt), service (snd (rt_step c rt)))"
proof -
  show "runtime_ok (snd (rt_step c rt))"
    using register_ok [OF assms] unregister_ok [OF assms] shutdown_ok [OF assms] by (cases c) simp_all
  show "service_step c (service rt) = (fst (rt_step c rt), service (snd (rt_step c rt)))"
  proof (cases c)
    case (Register mid m)
    show ?thesis using service_register [OF assms, of mid m] unfolding Register by simp
  next
    case (Unregister mid)
    show ?thesis using service_unregister [OF assms, of mid] unfolding Unregister by simp
  next
    case Shutdown
    show ?thesis using service_shutdown [of rt] unfolding Shutdown by (simp add: service_def)
  qed
qed

lemma answers_refine:
  "runtime_ok rt \<Longrightarrow> fst (answers rt_step cs rt) = fst (answers service_step cs (service rt)) \<and>
     service (snd (answers rt_step cs rt)) = snd (answers service_step cs (service rt)) \<and> runtime_ok (snd (answers rt_step cs rt))"
proof (induction cs arbitrary: rt)
  case (Cons c cs)
  note st = rt_step_refines [OF Cons.prems, of c]
  show ?case using Cons.IH [OF st(1)] by (simp add: st(2) case_prod_beta Let_def)
qed simp

lemma runtime_new_ok: "runtime_ok (runtime_new n)" "service (runtime_new n) = (Map.empty, False)"
  by (auto simp: runtime_ok_def runtime_new_def table_ok_def service_def table_find_def)

text \<open>
  C7. Under any sequence of \<^verbatim>\<open>register_model\<close>, \<^verbatim>\<open>unregister_model\<close> and \<^verbatim>\<open>shutdown\<close> the runtime answers like a
  map from names to ready models, and the running executors are exactly those in the table. Inference
  then goes to a running executor of the model registered under the name, or is answered at once
  with the error for a stopped runtime or an unknown name.
\<close>

theorem runtime_refines_service:
  assumes run: "answers rt_step cs (runtime_new n) = (bs, rt)" and spec: "answers service_step cs (Map.empty, False) = (bs', sv)"
  shows "bs = bs' \<and> service rt = sv \<and>
    (\<forall>h < length (pool rt). \<not> view_stopped (pool rt ! h) \<longleftrightarrow> h \<in> snd ` set (executors rt)) \<and>
    (case runtime_infer_async r routing rt of
       To_Executor h x \<Rightarrow> h < length (pool rt) \<and> \<not> view_stopped (pool rt ! h) \<and> x = routing \<and> \<not> snd sv \<and>
         fst sv (req_model_id r) = Some (view_meta (pool rt ! h))
     | Answered e \<Rightarrow> if snd sv then e = error_response ''runtime stopped''
         else fst sv (req_model_id r) = None \<and> e = error_response (''model not registered in runtime: '' @ req_model_id r))"
proof -
  have ref: "bs = bs'" "service rt = sv" "runtime_ok rt"
    using answers_refine [OF runtime_new_ok(1), of cs n] run spec by (auto simp: runtime_new_ok(2))
  have sv: "snd sv = rt_stopped rt" "fst sv k = map_option (\<lambda>h. view_meta (pool rt ! h)) (table_find (executors rt) k)" for k
    using ref(2) by (auto simp: service_def)
  have "\<forall>h < length (pool rt). \<not> view_stopped (pool rt ! h) \<longleftrightarrow> h \<in> snd ` set (executors rt)"
    using ref(3) by (auto simp: runtime_ok_def)
  then show ?thesis using ref(1,2) sv find_in_pool [OF ref(3)]
    by (auto simp: runtime_infer_async_def split: option.splits)
qed

theorem runtime_refines_service_witness:
  "\<exists>rt. answers rt_step [Register ''m'' (Some ready_meta), Register ''m'' (Some ready_meta)] (runtime_new 1) = ([True, False], rt) \<and>
     runtime_infer_async some_request 5 rt = To_Executor 0 5 \<and> \<not> view_stopped (pool rt ! 0) \<and> view_stopped (pool rt ! 1)"
proof -
  let ?cs = "[Register ''m'' (Some ready_meta), Register ''m'' (Some ready_meta)]"
  obtain bs rt where run: "answers rt_step ?cs (runtime_new 1) = (bs, rt)" by fastforce
  have "answers service_step ?cs (Map.empty, False) = ([True, False], ([''m'' \<mapsto> ready_meta], False))"
    by (simp add: ready_meta_simps)
  from runtime_refines_service [OF run this, of some_request 5]
  have bs: "bs = [True, False]" and st: "\<forall>h < length (pool rt). \<not> view_stopped (pool rt ! h) \<longleftrightarrow> h \<in> snd ` set (executors rt)"
    by blast+
  have rt: "length (pool rt) = 2" "executors rt = [(''m'', 0)]" "\<not> rt_stopped rt"
    using run by (auto simp: runtime_register_def ready_meta_simps table_emplace_def table_find_def runtime_new_def Let_def)
  then show ?thesis using run bs st [rule_format, of 0] st [rule_format, of 1]
    by (intro exI [of _ rt]) (simp add: runtime_infer_async_def some_request_def table_find_def)
qed

section \<open>The metrics endpoint\<close>

text \<open>
  \<^verbatim>\<open>telemetry/metrics_export.cpp\<close>: the JSON text, the thread's life cycle and its write loop. \<^verbatim>\<open>socket\<close>, \<^verbatim>\<open>bind\<close> and \<^verbatim>\<open>listen\<close>
  are given by their results.
\<close>

definition nl :: string where "nl = [newline]"

definition quote :: string where "quote = [CHR 0x22]"

definition json_field :: "string \<Rightarrow> u64 \<Rightarrow> string \<Rightarrow> string" where
  "json_field k v sep = ''    '' @ quote @ k @ quote @ '': '' @ nat_to_string (unat v) @ sep @ nl"

definition json_entry :: "ModelExecutorMetrics \<Rightarrow> string" where
  "json_entry m = ''  '' @ quote @ mem_model_id m @ quote @ '': {'' @ nl @
     json_field ''requests_received'' (requests_received (mem_metrics m)) '','' @
     json_field ''requests_completed'' (requests_completed (mem_metrics m)) '','' @
     json_field ''requests_rejected'' (requests_rejected (mem_metrics m)) '','' @
     json_field ''queue_timeouts'' (queue_timeouts (mem_metrics m)) '','' @
     json_field ''latency_p50_ns'' (p50_ns m) '','' @
     json_field ''latency_p95_ns'' (p95_ns m) '','' @
     json_field ''latency_p99_ns'' (p99_ns m) [] @ ''  }''"

fun json_entries :: "ModelExecutorMetrics list \<Rightarrow> string" where
  "json_entries [] = []"
| "json_entries (m # ms) = json_entry m @ (if ms \<noteq> [] then '','' else []) @ nl @ json_entries ms"

definition serialize_metrics_json :: "'b InferenceRuntime \<Rightarrow> string" where
  "serialize_metrics_json rt = ''{'' @ nl @ json_entries (get_all_metrics rt) @ ''}'' @ nl"

record MetricsServer =
  ms_stopped :: bool
  listen_fd :: int
  ms_thread :: bool

definition metrics_server_new :: MetricsServer where
  "metrics_server_new = \<lparr> ms_stopped = True, listen_fd = -1, ms_thread = False \<rparr>"

text \<open>\<open>fd\<close>, \<open>bound\<close>, \<open>listening\<close>: the results of the three system calls. The list is the file descriptors closed.\<close>

definition metrics_server_start :: "int \<Rightarrow> int \<Rightarrow> int \<Rightarrow> MetricsServer \<Rightarrow> MetricsServer \<times> int list" where
  "metrics_server_start fd bound listening s =
     (if \<not> ms_stopped s then (s, [])
      else if fd < 0 then (s\<lparr> ms_stopped := True, listen_fd := fd \<rparr>, [])
      else if bound < 0 then (s\<lparr> listen_fd := -1, ms_stopped := True \<rparr>, [fd])
      else if listening < 0 then (s\<lparr> listen_fd := -1, ms_stopped := True \<rparr>, [fd])
      else (s\<lparr> ms_stopped := False, listen_fd := fd, ms_thread := True \<rparr>, []))"

definition metrics_server_stop :: "MetricsServer \<Rightarrow> MetricsServer \<times> int list" where
  "metrics_server_stop s =
     (if ms_stopped s then (s, [])
      else if listen_fd s \<ge> 0 then (s\<lparr> ms_stopped := True, listen_fd := -1, ms_thread := False \<rparr>, [listen_fd s])
      else (s\<lparr> ms_stopped := True, ms_thread := False \<rparr>, []))"

text \<open>
  The write loop: \<open>results\<close> are the return values of successive \<^verbatim>\<open>write\<close> calls, at most the
  bytes offered; \<open>stops i\<close> is what the i-th load of \<^verbatim>\<open>stopped_\<close> yields. Returns the bytes sent.
\<close>

fun write_loop :: "string \<Rightarrow> int list \<Rightarrow> (nat \<Rightarrow> bool) \<Rightarrow> nat \<Rightarrow> string" where
  "write_loop json [] stops written = []"
| "write_loop json (n # results) stops written =
     (if written < length json \<and> \<not> stops 0 then
        if n \<le> 0 then []
        else let k = min (nat n) (length json - written) in
          take k (drop written json) @ write_loop json results (\<lambda>i. stops (Suc i)) (written + k)
      else [])"

text \<open>
  The accept loop. A round is what the thread finds: the flag at the loop test, the result of \<^verbatim>\<open>accept\<close>, the flag after a failure, the runtime whose counters
  are serialised, and the results of the writes. The result lists the clients in the order in which they are closed, with what they were sent.
\<close>

record 'b accept_round =
  ar_stop :: bool
  ar_fd :: int
  ar_stop_failed :: bool
  ar_runtime :: "'b InferenceRuntime"
  ar_writes :: "int list"
  ar_stops :: "nat \<Rightarrow> bool"

fun metrics_accept_loop :: "'b accept_round list \<Rightarrow> (int \<times> string) list" where
  "metrics_accept_loop [] = []"
| "metrics_accept_loop (r # rs) =
     (if ar_stop r then []
      else if ar_fd r < 0 then (if ar_stop_failed r then [] else metrics_accept_loop rs)
      else (ar_fd r, write_loop (serialize_metrics_json (ar_runtime r)) (ar_writes r) (ar_stops r) 0) # metrics_accept_loop rs)"

lemma take_then_drop: "drop w xs = take k (drop w xs) @ drop (w + k) xs"
  by (metis add.commute append_take_drop_id drop_drop)

lemma write_loop_prefix: "\<exists>rest. drop written json = write_loop json results stops written @ rest"
proof (induction json results stops written rule: write_loop.induct)
  case (2 json n results stops written)
  show ?case
  proof (cases "written < length json \<and> \<not> stops 0 \<and> n > 0")
    case True
    define k where "k = min (nat n) (length json - written)"
    obtain rest where "drop (written + k) json = write_loop json results (\<lambda>i. stops (Suc i)) (written + k) @ rest"
      using "2.IH" True by (auto simp: k_def)
    then show ?thesis using True take_then_drop [of written json k] by (auto simp: k_def Let_def)
  next
    case False
    then show ?thesis by auto
  qed
qed simp

lemma write_loop_all:
  "\<forall>n \<in> set results. n > 0 \<Longrightarrow> length results \<ge> length json - written \<Longrightarrow> (\<forall>i. \<not> stops i) \<Longrightarrow>
     write_loop json results stops written = drop written json"
proof (induction json results stops written rule: write_loop.induct)
  case (2 json n results stops written)
  show ?case
  proof (cases "written < length json")
    case True
    define k where "k = min (nat n) (length json - written)"
    have k: "0 < k" using True "2.prems"(1) by (simp add: k_def)
    have "write_loop json results (\<lambda>i. stops (Suc i)) (written + k) = drop (written + k) json"
      using "2.IH" [of k] "2.prems" True k by (auto simp: k_def)
    then show ?thesis using True "2.prems" take_then_drop [of written json k] by (simp add: k_def Let_def)
  qed (use "2.prems" in simp)
qed simp

text \<open>While the server runs, every accepted client is closed once, in order, after a prefix of the text.\<close>

lemma metrics_clients:
  "\<forall>r \<in> set rs. \<not> ar_stop r \<and> \<not> ar_stop_failed r \<Longrightarrow>
     map fst (metrics_accept_loop rs) = map ar_fd (filter (\<lambda>r. ar_fd r \<ge> 0) rs)"
  by (induction rs rule: metrics_accept_loop.induct) auto

lemma metrics_client_prefix:
  "(fd, sent_text) \<in> set (metrics_accept_loop rs) \<Longrightarrow>
     \<exists>r rest. r \<in> set rs \<and> ar_fd r = fd \<and> serialize_metrics_json (ar_runtime r) = sent_text @ rest"
proof (induction rs rule: metrics_accept_loop.induct)
  case (2 r rs)
  obtain rest where "serialize_metrics_json (ar_runtime r) = write_loop (serialize_metrics_json (ar_runtime r)) (ar_writes r) (ar_stops r) 0 @ rest"
    using write_loop_prefix [of 0] by fastforce
  then show ?case using 2 by (auto split: if_splits)
qed simp

text \<open>Starting and stopping: a server that is stopped owns no descriptor, and one that runs owns the one it serves on.\<close>

definition metrics_server_ok :: "MetricsServer \<Rightarrow> bool" where
  "metrics_server_ok s \<longleftrightarrow> (if ms_stopped s then listen_fd s < 0 \<and> \<not> ms_thread s else listen_fd s \<ge> 0 \<and> ms_thread s)"

lemma metrics_server_start_ok:
  assumes "metrics_server_ok s"
  shows "metrics_server_ok (fst (metrics_server_start fd bound listening s))"
    and "ms_stopped s \<Longrightarrow> fd \<ge> 0 \<Longrightarrow>
      (if ms_stopped (fst (metrics_server_start fd bound listening s)) then snd (metrics_server_start fd bound listening s) = [fd]
       else listen_fd (fst (metrics_server_start fd bound listening s)) = fd \<and> snd (metrics_server_start fd bound listening s) = [])"
  using assms by (auto simp: metrics_server_ok_def metrics_server_start_def)

lemma metrics_server_stop_ok:
  assumes "metrics_server_ok s"
  shows "metrics_server_ok (fst (metrics_server_stop s)) \<and> ms_stopped (fst (metrics_server_stop s)) \<and>
    snd (metrics_server_stop s) = (if ms_stopped s then [] else [listen_fd s])"
  using assms by (auto simp: metrics_server_ok_def metrics_server_stop_def)

text \<open>
  A client of the metrics endpoint receives a prefix of the JSON text of the registered models'
  counters, whatever the writes return and whenever the server is stopped; and it receives all of
  it when every write makes progress and the server keeps running.
\<close>

theorem metrics_client_receives:
  "(\<exists>rest. serialize_metrics_json rt = write_loop (serialize_metrics_json rt) results stops 0 @ rest) \<and>
   ((\<forall>n \<in> set results. n > 0) \<and> length results \<ge> length (serialize_metrics_json rt) \<and> (\<forall>i. \<not> stops i) \<longrightarrow>
      write_loop (serialize_metrics_json rt) results stops 0 = serialize_metrics_json rt)"
  using write_loop_prefix [of 0 "serialize_metrics_json rt" results stops] write_loop_all [of results "serialize_metrics_json rt" 0 stops]
  by simp

lemma empty_json: "serialize_metrics_json (runtime_new n) = [CHR ''{'', newline, CHR ''}'', newline]"
  by (simp add: serialize_metrics_json_def get_all_metrics_def runtime_new_def nl_def)

theorem metrics_client_receives_witness:
  "write_loop (serialize_metrics_json (runtime_new 1 :: unit InferenceRuntime)) [3, 2, 1, 1] (\<lambda>i. False) 0 = [CHR ''{'', newline, CHR ''}'', newline]"
proof -
  have len: "length (serialize_metrics_json (runtime_new 1 :: unit InferenceRuntime)) = 4" unfolding empty_json by simp
  have "write_loop (serialize_metrics_json (runtime_new 1 :: unit InferenceRuntime)) [3, 2, 1, 1] (\<lambda>i. False) 0 =
      serialize_metrics_json (runtime_new 1 :: unit InferenceRuntime)"
    by (rule mp [OF conjunct2 [OF metrics_client_receives]]) (simp add: len [simplified])
  then show ?thesis unfolding empty_json .
qed

end
