(* ===== verification/Sockets.thy ===== *)
theory Sockets
  imports Prelude
begin

unbundle bit_operations_syntax

text \<open>
  \<^verbatim>\<open>net/async_socket.hpp\<close> and \<^verbatim>\<open>.cpp\<close> below the transfer loops, which are in \<open>Session\<close>: the options and the ownership of a descriptor, the awaitables that
  register a coroutine with \<^verbatim>\<open>epoll\<close>, the dispatch loop of \<^verbatim>\<open>epoll_backend.cpp\<close>, and the accept awaitable of \<^verbatim>\<open>server/main.cpp\<close>. The kernel is a parameter.
\<close>

section \<open>Descriptors\<close>

text \<open>
  The flags of the open descriptors and those with \<^verbatim>\<open>TCP_NODELAY\<close>. The last argument of each function is the state, the first whether the
  kernel accepts the call; \<open>None\<close> is \<^verbatim>\<open>std::abort\<close>.
\<close>

record fd_state =
  fd_flags :: "int \<rightharpoonup> u32"
  fd_nodelay :: "int set"

definition O_NONBLOCK :: u32 where "O_NONBLOCK = 2048"

definition set_nonblocking :: "bool \<Rightarrow> int \<Rightarrow> fd_state \<Rightarrow> fd_state option" where
  "set_nonblocking accepts fd s =
     (case fd_flags s fd of
        None \<Rightarrow> None
      | Some flags \<Rightarrow> if accepts then Some (s\<lparr> fd_flags := (fd_flags s)(fd \<mapsto> flags OR O_NONBLOCK) \<rparr>) else None)"

definition set_tcp_nodelay :: "bool \<Rightarrow> int \<Rightarrow> fd_state \<Rightarrow> fd_state" where
  "set_tcp_nodelay accepts fd s = (if accepts then s\<lparr> fd_nodelay := insert fd (fd_nodelay s) \<rparr> else s)"

text \<open>
  \<^verbatim>\<open>AsyncSocket\<close> owns its descriptor: the constructor takes it, a move leaves \<open>-1\<close> behind, the destructor
  closes what is left. \<open>closes\<close> lists the descriptors closed so far.
\<close>

record AsyncSocket =
  sock_fd :: int

definition socket_new :: "int \<Rightarrow> AsyncSocket" where
  "socket_new fd = \<lparr> sock_fd = fd \<rparr>"

definition socket_move :: "AsyncSocket \<Rightarrow> AsyncSocket \<times> AsyncSocket" where
  "socket_move a = (\<lparr> sock_fd = sock_fd a \<rparr>, a\<lparr> sock_fd := -1 \<rparr>)"

definition socket_destroy :: "AsyncSocket \<Rightarrow> int list \<Rightarrow> int list" where
  "socket_destroy a closes = (if sock_fd a \<ge> 0 then closes @ [sock_fd a] else closes)"

definition socket_construct :: "bool \<Rightarrow> bool \<Rightarrow> int \<Rightarrow> fd_state \<Rightarrow> (AsyncSocket \<times> fd_state) option" where
  "socket_construct accepts1 accepts2 fd s =
     map_option (\<lambda>s'. (socket_new fd, set_tcp_nodelay accepts2 fd s')) (set_nonblocking accepts1 fd s)"

text \<open>Every socket object has a descriptor that does not block, whatever became of the second option.\<close>

lemma constructed_nonblocking:
  assumes "socket_construct a1 a2 fd s = Some (sock, s')"
  shows "\<exists>flags. fd_flags s' (sock_fd sock) = Some flags \<and> flags AND O_NONBLOCK = O_NONBLOCK"
proof -
  have "(flags OR O_NONBLOCK) AND O_NONBLOCK = O_NONBLOCK" for flags by (rule bit_word_eqI) (auto simp: bit_simps)
  then show ?thesis using assms
    by (auto simp: socket_construct_def set_nonblocking_def set_tcp_nodelay_def socket_new_def split: option.splits if_splits)
qed

section \<open>Waiting for a socket\<close>

text \<open>
  The three awaitables that suspend a coroutine until its socket is ready. The kernel's interest list \<open>'k\<close> and \<^verbatim>\<open>epoll_ctl\<close>, the
  parameter \<open>ctl\<close>, are the operating system's; \<open>Ctl_Exist\<close> is the error \<^verbatim>\<open>EEXIST\<close>.
\<close>

datatype ctl_op = Ctl_Add | Ctl_Mod | Ctl_Del
datatype ctl_result = Ctl_Ok | Ctl_Exist | Ctl_Error
datatype readiness = EPOLLIN | EPOLLOUT

record epoll_event =
  ev_ready :: readiness
  ev_oneshot :: bool
  ev_edge :: bool
  ev_ptr :: nat

definition read_event :: "nat \<Rightarrow> epoll_event" where
  "read_event h = \<lparr> ev_ready = EPOLLIN, ev_oneshot = True, ev_edge = True, ev_ptr = h \<rparr>"

definition write_event :: "nat \<Rightarrow> epoll_event" where
  "write_event h = \<lparr> ev_ready = EPOLLOUT, ev_oneshot = True, ev_edge = True, ev_ptr = h \<rparr>"

definition accept_event :: "nat \<Rightarrow> epoll_event" where
  "accept_event h = \<lparr> ev_ready = EPOLLIN, ev_oneshot = True, ev_edge = False, ev_ptr = h \<rparr>"

definition socket_suspend :: "(ctl_op \<Rightarrow> int \<Rightarrow> epoll_event \<Rightarrow> 'k \<Rightarrow> ctl_result \<times> 'k) \<Rightarrow> int \<Rightarrow> epoll_event \<Rightarrow> 'k \<Rightarrow> 'k" where
  "socket_suspend ctl fd ev k =
     (case ctl Ctl_Add fd ev k of
        (Ctl_Exist, k') \<Rightarrow> snd (ctl Ctl_Mod fd ev k')
      | (_, k') \<Rightarrow> k')"

text \<open>
  The documented behaviour of \<^verbatim>\<open>epoll_ctl\<close> and \<^verbatim>\<open>epoll_wait\<close>, over the interest list as a map and the set of armed descriptors: adding a descriptor that is on the list fails with
  \<^verbatim>\<open>EEXIST\<close>; one that is not is added and armed, or another error leaves the list alone; modifying
  replaces the event of a descriptor on the list and arms it; waiting reports armed descriptors, each once, and disarms the one-shot ones among them.
\<close>

definition epoll_documented :: "('k \<Rightarrow> int \<rightharpoonup> epoll_event) \<Rightarrow> ('k \<Rightarrow> int set) \<Rightarrow>
    (ctl_op \<Rightarrow> int \<Rightarrow> epoll_event \<Rightarrow> 'k \<Rightarrow> ctl_result \<times> 'k) \<Rightarrow> ('k \<Rightarrow> int list \<Rightarrow> 'k \<Rightarrow> bool) \<Rightarrow> bool" where
  "epoll_documented interest armed ctl wait \<longleftrightarrow>
     (\<forall>fd ev k. interest k fd \<noteq> None \<longrightarrow> ctl Ctl_Add fd ev k = (Ctl_Exist, k)) \<and>
     (\<forall>fd ev k r k'. interest k fd = None \<longrightarrow> ctl Ctl_Add fd ev k = (r, k') \<longrightarrow>
        r = Ctl_Ok \<and> interest k' = (interest k)(fd \<mapsto> ev) \<and> armed k' = insert fd (armed k) \<or>
        r = Ctl_Error \<and> interest k' = interest k \<and> armed k' = armed k) \<and>
     (\<forall>fd ev k r k'. interest k fd \<noteq> None \<longrightarrow> ctl Ctl_Mod fd ev k = (r, k') \<longrightarrow>
        interest k' = (interest k)(fd \<mapsto> ev) \<and> armed k' = insert fd (armed k)) \<and>
     (\<forall>k fds k'. wait k fds k' \<longrightarrow> distinct fds \<and> set fds \<subseteq> armed k \<and> interest k' = interest k \<and>
        armed k' = armed k - {fd \<in> set fds. \<exists>ev. interest k fd = Some ev \<and> ev_oneshot ev})"

lemma epoll_documentedD:
  assumes "epoll_documented interest armed ctl wait"
  shows "interest k fd \<noteq> None \<Longrightarrow> ctl Ctl_Add fd ev k = (Ctl_Exist, k)"
    and "interest k fd = None \<Longrightarrow> ctl Ctl_Add fd ev k = (r, k') \<Longrightarrow>
        r = Ctl_Ok \<and> interest k' = (interest k)(fd \<mapsto> ev) \<and> armed k' = insert fd (armed k) \<or>
        r = Ctl_Error \<and> interest k' = interest k \<and> armed k' = armed k"
    and "interest k fd \<noteq> None \<Longrightarrow> ctl Ctl_Mod fd ev k = (r, k') \<Longrightarrow>
        interest k' = (interest k)(fd \<mapsto> ev) \<and> armed k' = insert fd (armed k)"
    and "wait k fds k' \<Longrightarrow> distinct fds \<and> set fds \<subseteq> armed k \<and> interest k' = interest k \<and>
        armed k' = armed k - {fd \<in> set fds. \<exists>ev. interest k fd = Some ev \<and> ev_oneshot ev}"
proof -
  note a = assms [unfolded epoll_documented_def]
  show "interest k fd \<noteq> None \<Longrightarrow> ctl Ctl_Add fd ev k = (Ctl_Exist, k)" using conjunct1 [OF a] by simp
  show "interest k fd = None \<Longrightarrow> ctl Ctl_Add fd ev k = (r, k') \<Longrightarrow>
        r = Ctl_Ok \<and> interest k' = (interest k)(fd \<mapsto> ev) \<and> armed k' = insert fd (armed k) \<or>
        r = Ctl_Error \<and> interest k' = interest k \<and> armed k' = armed k"
    using conjunct1 [OF conjunct2 [OF a]] by blast
  show "interest k fd \<noteq> None \<Longrightarrow> ctl Ctl_Mod fd ev k = (r, k') \<Longrightarrow>
        interest k' = (interest k)(fd \<mapsto> ev) \<and> armed k' = insert fd (armed k)"
    using conjunct1 [OF conjunct2 [OF conjunct2 [OF a]]] by blast
  show "wait k fds k' \<Longrightarrow> distinct fds \<and> set fds \<subseteq> armed k \<and> interest k' = interest k \<and>
        armed k' = armed k - {fd \<in> set fds. \<exists>ev. interest k fd = Some ev \<and> ev_oneshot ev}"
    using conjunct2 [OF conjunct2 [OF conjunct2 [OF a]]] by blast
qed

text \<open>
  A suspended coroutine is registered for its own event and nothing else changes, unless adding a
  new descriptor fails: then nobody will resume the coroutine.
\<close>

definition registers :: "('k \<Rightarrow> int \<rightharpoonup> epoll_event) \<Rightarrow> (ctl_op \<Rightarrow> int \<Rightarrow> epoll_event \<Rightarrow> 'k \<Rightarrow> ctl_result \<times> 'k) \<Rightarrow> int \<Rightarrow> epoll_event \<Rightarrow> 'k \<Rightarrow> bool" where
  "registers interest ctl fd ev k \<longleftrightarrow> interest k fd \<noteq> None \<or> fst (ctl Ctl_Add fd ev k) = Ctl_Ok"

lemma socket_suspend_registers:
  assumes "epoll_documented interest armed ctl wait"
  shows "interest (socket_suspend ctl fd ev k) = (if registers interest ctl fd ev k then (interest k)(fd \<mapsto> ev) else interest k)"
    and "armed (socket_suspend ctl fd ev k) = (if registers interest ctl fd ev k then insert fd (armed k) else armed k)"
proof -
  have "interest (socket_suspend ctl fd ev k) = (if registers interest ctl fd ev k then (interest k)(fd \<mapsto> ev) else interest k) \<and>
    armed (socket_suspend ctl fd ev k) = (if registers interest ctl fd ev k then insert fd (armed k) else armed k)"
  proof (cases "interest k fd = None")
    case True
    obtain r k' where r: "ctl Ctl_Add fd ev k = (r, k')" by fastforce
    from epoll_documentedD(2) [OF assms True this] have "r = Ctl_Ok \<and> interest k' = (interest k)(fd \<mapsto> ev) \<and> armed k' = insert fd (armed k) \<or>
        r = Ctl_Error \<and> interest k' = interest k \<and> armed k' = armed k" .
    then show ?thesis
    proof (elim disjE conjE)
      assume "r = Ctl_Ok" "interest k' = (interest k)(fd \<mapsto> ev)" "armed k' = insert fd (armed k)"
      then show ?thesis using r True unfolding socket_suspend_def registers_def by simp
    next
      assume "r = Ctl_Error" "interest k' = interest k" "armed k' = armed k"
      then show ?thesis using r True unfolding socket_suspend_def registers_def by simp
    qed
  next
    case False
    obtain r k' where r: "ctl Ctl_Mod fd ev k = (r, k')" by fastforce
    show ?thesis using epoll_documentedD(1) [OF assms False, of ev] epoll_documentedD(3) [OF assms False r] False r
      by (simp add: socket_suspend_def registers_def)
  qed
  then show "interest (socket_suspend ctl fd ev k) = (if registers interest ctl fd ev k then (interest k)(fd \<mapsto> ev) else interest k)"
    and "armed (socket_suspend ctl fd ev k) = (if registers interest ctl fd ev k then insert fd (armed k) else armed k)" by simp_all
qed

text \<open>\<^verbatim>\<open>EpollBackend\<close> owns the descriptor of the interest list; \<open>None\<close> is \<^verbatim>\<open>std::abort\<close>.\<close>

definition epoll_backend_new :: "int \<Rightarrow> int option" where
  "epoll_backend_new created = (if created < 0 then None else Some created)"

definition epoll_backend_destroy :: "int \<Rightarrow> int list \<Rightarrow> int list" where
  "epoll_backend_destroy epoll_fd closes = (if epoll_fd \<ge> 0 then closes @ [epoll_fd] else closes)"

lemma epoll_backend_closed: "epoll_backend_new created = Some fd \<Longrightarrow> epoll_backend_destroy fd closes = closes @ [created]"
  by (auto simp: epoll_backend_new_def epoll_backend_destroy_def split: if_splits)

section \<open>Coroutines waiting for sockets\<close>

text \<open>
  Every coroutine has a socket of its own, \<open>fd_of h\<close>, and a frame whose address is not zero. It runs, waits for an event, or has ended; \<open>pending\<close> are the events that \<^verbatim>\<open>poll\<close> has still to
  dispatch, and \<open>unregistered\<close> the waiting coroutines whose registration failed.
\<close>

datatype co_state = Co_Runs | Co_Waits epoll_event | Co_Done

record 'k net_sys =
  kernel :: 'k
  co :: "nat \<Rightarrow> co_state"
  pending :: "nat list"
  unregistered :: "nat set"

definition awaits :: "nat \<Rightarrow> epoll_event \<Rightarrow> bool" where
  "awaits h ev \<longleftrightarrow> ev \<in> {read_event h, write_event h, accept_event h}"

inductive net_step :: "('k \<Rightarrow> int \<rightharpoonup> epoll_event) \<Rightarrow> (ctl_op \<Rightarrow> int \<Rightarrow> epoll_event \<Rightarrow> 'k \<Rightarrow> ctl_result \<times> 'k) \<Rightarrow>
    ('k \<Rightarrow> int list \<Rightarrow> 'k \<Rightarrow> bool) \<Rightarrow> (nat \<Rightarrow> int) \<Rightarrow> 'k net_sys \<Rightarrow> 'k net_sys \<Rightarrow> bool" for interest ctl wait fd_of where
  net_suspend: "co s h = Co_Runs \<Longrightarrow> h \<noteq> 0 \<Longrightarrow> awaits h ev \<Longrightarrow> net_step interest ctl wait fd_of s
    (s\<lparr> kernel := socket_suspend ctl (fd_of h) ev (kernel s), co := (co s)(h := Co_Waits ev),
        unregistered := (if registers interest ctl (fd_of h) ev (kernel s) then unregistered s else insert h (unregistered s)) \<rparr>)"
| net_end: "co s h = Co_Runs \<Longrightarrow> net_step interest ctl wait fd_of s (s\<lparr> co := (co s)(h := Co_Done) \<rparr>)"
| net_poll: "pending s = [] \<Longrightarrow> wait (kernel s) fds k \<Longrightarrow> net_step interest ctl wait fd_of s
    (s\<lparr> kernel := k, pending := map (\<lambda>fd. ev_ptr (the (interest (kernel s) fd))) fds \<rparr>)"
| net_resume: "pending s = h # hs \<Longrightarrow> h \<noteq> 0 \<Longrightarrow> co s h \<noteq> Co_Done \<Longrightarrow>
    net_step interest ctl wait fd_of s (s\<lparr> co := (co s)(h := Co_Runs), pending := hs \<rparr>)"
| net_skip: "pending s = h # hs \<Longrightarrow> \<not> (h \<noteq> 0 \<and> co s h \<noteq> Co_Done) \<Longrightarrow>
    net_step interest ctl wait fd_of s (s\<lparr> pending := hs \<rparr>)"

definition net_init :: "('k \<Rightarrow> int \<rightharpoonup> epoll_event) \<Rightarrow> ('k \<Rightarrow> int set) \<Rightarrow> 'k net_sys \<Rightarrow> bool" where
  "net_init interest armed s \<longleftrightarrow> interest (kernel s) = Map.empty \<and> armed (kernel s) = {} \<and> co s = (\<lambda>h. Co_Runs) \<and>
     pending s = [] \<and> unregistered s = {}"

text \<open>A coroutine is armed for its event, about to be resumed, or stranded, and only while it waits.\<close>

definition co_ok :: "('k \<Rightarrow> int \<rightharpoonup> epoll_event) \<Rightarrow> ('k \<Rightarrow> int set) \<Rightarrow> (nat \<Rightarrow> int) \<Rightarrow> 'k net_sys \<Rightarrow> nat \<Rightarrow> bool" where
  "co_ok interest armed fd_of s h \<longleftrightarrow>
     (case co s h of
        Co_Waits ev \<Rightarrow> awaits h ev \<and> h \<noteq> 0 \<and>
          (if h \<in> unregistered s then fd_of h \<notin> armed (kernel s) \<and> h \<notin> set (pending s)
           else interest (kernel s) (fd_of h) = Some ev \<and> (fd_of h \<in> armed (kernel s) \<longleftrightarrow> h \<notin> set (pending s)))
      | _ \<Rightarrow> fd_of h \<notin> armed (kernel s) \<and> h \<notin> set (pending s) \<and> h \<notin> unregistered s)"

definition net_inv :: "('k \<Rightarrow> int \<rightharpoonup> epoll_event) \<Rightarrow> ('k \<Rightarrow> int set) \<Rightarrow> (nat \<Rightarrow> int) \<Rightarrow> 'k net_sys \<Rightarrow> bool" where
  "net_inv interest armed fd_of s \<longleftrightarrow> distinct (pending s) \<and> armed (kernel s) \<subseteq> range fd_of \<and> (\<forall>h. co_ok interest armed fd_of s h)"

lemma awaitsD: "awaits h ev \<Longrightarrow> ev_ptr ev = h \<and> ev_oneshot ev"
  by (auto simp: awaits_def read_event_def write_event_def accept_event_def)

lemma net_invD:
  assumes "net_inv interest armed fd_of s"
  shows "distinct (pending s)" "armed (kernel s) \<subseteq> range fd_of" "co_ok interest armed fd_of s h"
  using assms by (simp_all add: net_inv_def)

lemma co_ok_frame:
  assumes "co_ok interest armed fd_of s h" "co s' h = co s h" "fd_of h \<in> armed (kernel s') \<longleftrightarrow> fd_of h \<in> armed (kernel s)"
    "h \<in> set (pending s') \<longleftrightarrow> h \<in> set (pending s)" "h \<in> unregistered s' \<longleftrightarrow> h \<in> unregistered s"
    "interest (kernel s') (fd_of h) = interest (kernel s) (fd_of h)"
  shows "co_ok interest armed fd_of s' h"
  using assms(1) unfolding co_ok_def assms(2-6) .

text \<open>Who is armed is waiting for exactly the event on the list, and so is who is about to be resumed.\<close>

lemma armed_waits:
  assumes "net_inv interest armed fd_of s" "fd \<in> armed (kernel s)"
  shows "\<exists>h ev. fd = fd_of h \<and> co s h = Co_Waits ev \<and> h \<notin> unregistered s \<and> h \<notin> set (pending s) \<and> interest (kernel s) fd = Some ev \<and>
    ev_ptr ev = h \<and> ev_oneshot ev"
proof -
  obtain h where h: "fd = fd_of h" using net_invD(2) [OF assms(1)] assms(2) by auto
  then show ?thesis using net_invD(3) [OF assms(1), of h] assms(2) awaitsD [of h]
    by (cases "co s h") (auto simp: co_ok_def split: if_splits)
qed

lemma pending_waits:
  assumes "net_inv interest armed fd_of s" "h \<in> set (pending s)"
  shows "\<exists>ev. co s h = Co_Waits ev \<and> h \<noteq> 0 \<and> h \<notin> unregistered s \<and> fd_of h \<notin> armed (kernel s)"
  using net_invD(3) [OF assms(1), of h] assms(2) by (auto simp: co_ok_def split: co_state.splits if_splits)

lemma net_inv_suspend:
  assumes doc: "epoll_documented interest armed ctl wait" and inj: "inj fd_of" and inv: "net_inv interest armed fd_of s"
    and h: "co s h = Co_Runs" "h \<noteq> 0" "awaits h ev"
  shows "net_inv interest armed fd_of (s\<lparr> kernel := socket_suspend ctl (fd_of h) ev (kernel s), co := (co s)(h := Co_Waits ev),
        unregistered := (if registers interest ctl (fd_of h) ev (kernel s) then unregistered s else insert h (unregistered s)) \<rparr>)"
    (is "net_inv _ _ _ ?s")
proof -
  note r = socket_suspend_registers [OF doc, of "fd_of h" ev "kernel s"]
  have own: "fd_of h \<notin> armed (kernel s)" "h \<notin> set (pending s)" "h \<notin> unregistered s"
    using net_invD(3) [OF inv, of h] h(1) by (simp_all add: co_ok_def)
  have "co_ok interest armed fd_of ?s g" for g
  proof (cases "g = h")
    case True
    then show ?thesis using h own by (simp add: co_ok_def r)
  next
    case False
    then have "fd_of g \<noteq> fd_of h" using inj by (auto dest: injD)
    with False show ?thesis by (intro co_ok_frame [OF net_invD(3) [OF inv]]) (simp_all add: r)
  qed
  moreover have "armed (kernel ?s) \<subseteq> range fd_of" using net_invD(2) [OF inv] by (auto simp: r)
  ultimately show ?thesis using net_invD(1) [OF inv] by (simp add: net_inv_def)
qed

lemma net_inv_poll:
  assumes doc: "epoll_documented interest armed ctl wait" and inj: "inj fd_of" and inv: "net_inv interest armed fd_of s"
    and p: "pending s = []" and w: "wait (kernel s) fds k"
  shows "net_inv interest armed fd_of (s\<lparr> kernel := k, pending := map (\<lambda>fd. ev_ptr (the (interest (kernel s) fd))) fds \<rparr>)"
    (is "net_inv _ _ _ ?s")
proof -
  note d = epoll_documentedD(4) [OF doc w]
  let ?p = "\<lambda>fd. ev_ptr (the (interest (kernel s) fd))"
  have a: "\<exists>ev. fd = fd_of (?p fd) \<and> co s (?p fd) = Co_Waits ev \<and> ?p fd \<notin> unregistered s \<and> interest (kernel s) fd = Some ev \<and> ev_oneshot ev"
    if "fd \<in> set fds" for fd
  proof -
    have "fd \<in> armed (kernel s)" using that d by blast
    from armed_waits [OF inv this] obtain h ev where "fd = fd_of h" "co s h = Co_Waits ev" "h \<notin> unregistered s" "interest (kernel s) fd = Some ev"
      "ev_ptr ev = h" "ev_oneshot ev" by blast
    then show ?thesis by (metis option.sel)
  qed
  have arm: "armed k = armed (kernel s) - set fds" using d a by blast
  have mem: "g \<in> ?p ` set fds \<longleftrightarrow> fd_of g \<in> set fds" for g
  proof
    assume "g \<in> ?p ` set fds"
    then show "fd_of g \<in> set fds" using a by force
  next
    assume "fd_of g \<in> set fds"
    then have "fd_of g = fd_of (?p (fd_of g))" using a by blast
    then have "?p (fd_of g) = g" using inj by (auto dest: injD)
    then show "g \<in> ?p ` set fds" using \<open>fd_of g \<in> set fds\<close> by (metis image_eqI)
  qed
  have "co_ok interest armed fd_of ?s g" for g
  proof (cases "fd_of g \<in> set fds")
    case True
    then obtain ev where ev: "fd_of g = fd_of (?p (fd_of g))" "co s (?p (fd_of g)) = Co_Waits ev" "?p (fd_of g) \<notin> unregistered s" "interest (kernel s) (fd_of g) = Some ev"
      using a by blast
    then have "?p (fd_of g) = g" using inj by (auto dest: injD)
    moreover have "interest k = interest (kernel s)" using d by blast
    ultimately show ?thesis using ev net_invD(3) [OF inv, of g] True arm mem [of g] p by (simp add: co_ok_def)
  next
    case False
    moreover have "interest k = interest (kernel s)" using d by blast
    ultimately show ?thesis using mem [of g] p arm by (intro co_ok_frame [OF net_invD(3) [OF inv]]) simp_all
  qed
  moreover have "inj_on ?p (set fds)" using a by (intro inj_onI) metis
  then have "distinct (map ?p fds)" using d by (simp add: distinct_map)
  moreover have "armed k \<subseteq> range fd_of" using net_invD(2) [OF inv] arm by auto
  ultimately show ?thesis by (simp add: net_inv_def)
qed

lemma net_inv_resume:
  assumes inv: "net_inv interest armed fd_of s" and p: "pending s = h # hs"
  shows "net_inv interest armed fd_of (s\<lparr> co := (co s)(h := Co_Runs), pending := hs \<rparr>)" (is "net_inv _ _ _ ?s")
proof -
  have hs: "h \<notin> set hs" "distinct hs" using net_invD(1) [OF inv] p by simp_all
  obtain ev where w: "co s h = Co_Waits ev" "h \<notin> unregistered s" "fd_of h \<notin> armed (kernel s)"
    using pending_waits [OF inv, of h] p by auto
  have "co_ok interest armed fd_of ?s g" for g
  proof (cases "g = h")
    case True
    then show ?thesis using w hs by (simp add: co_ok_def)
  next
    case False
    then show ?thesis using p by (intro co_ok_frame [OF net_invD(3) [OF inv]]) simp_all
  qed
  then show ?thesis using hs net_invD(2) [OF inv] by (simp add: net_inv_def)
qed

lemma net_inv_step:
  assumes doc: "epoll_documented interest armed ctl wait" and inj: "inj fd_of" and inv: "net_inv interest armed fd_of s"
    and "net_step interest ctl wait fd_of s s'"
  shows "net_inv interest armed fd_of s'"
  using assms(4)
proof cases
  case (net_suspend h ev)
  show ?thesis unfolding net_suspend(1) by (rule net_inv_suspend [OF doc inj inv net_suspend(2-4)])
next
  case (net_end h)
  have "co_ok interest armed fd_of s' g" for g
  proof (cases "g = h")
    case True
    then show ?thesis using net_invD(3) [OF inv, of h] net_end by (simp add: co_ok_def)
  next
    case False
    then show ?thesis using net_end(1) by (intro co_ok_frame [OF net_invD(3) [OF inv]]) simp_all
  qed
  then show ?thesis using net_invD(1,2) [OF inv] net_end(1) by (simp add: net_inv_def)
next
  case (net_poll fds k)
  show ?thesis unfolding net_poll(1) by (rule net_inv_poll [OF doc inj inv net_poll(2,3)])
next
  case (net_resume h hs)
  show ?thesis unfolding net_resume(1) by (rule net_inv_resume [OF inv net_resume(2)])
next
  case (net_skip h hs)
  then show ?thesis using pending_waits [OF inv, of h] by auto
qed

lemma net_reach_inv:
  assumes doc: "epoll_documented interest armed ctl wait" and inj: "inj fd_of"
    and "reach (net_init interest armed) (net_step interest ctl wait fd_of) s"
  shows "net_inv interest armed fd_of s"
  using assms(3)
proof (induction rule: reach.induct)
  case (reach_init s)
  then show ?case by (simp add: net_init_def net_inv_def co_ok_def)
next
  case (reach_step s t)
  then show ?case using net_inv_step [OF doc inj] by blast
qed

section \<open>Properties\<close>

text \<open>
  A coroutine that waits for its socket is resumed once. If the kernel keeps the documented behaviour and no two coroutines share a descriptor, then in
  every run: the events still to be dispatched name distinct coroutines, each of them suspended, none null and none ended; and every
  suspended coroutine is either registered and armed for exactly its own event, or about to be resumed, or its registration failed and nothing will ever resume it.
\<close>

theorem sockets_resume_once:
  assumes "epoll_documented interest armed ctl wait" and "inj fd_of"
    and "reach (net_init interest armed) (net_step interest ctl wait fd_of) s"
  shows "distinct (pending s) \<and> (\<forall>h \<in> set (pending s). h \<noteq> 0 \<and> (\<exists>ev. co s h = Co_Waits ev)) \<and>
    (\<forall>h ev. co s h = Co_Waits ev \<longrightarrow> ev_ptr ev = h \<and>
      (if h \<in> unregistered s then fd_of h \<notin> armed (kernel s) \<and> h \<notin> set (pending s)
       else interest (kernel s) (fd_of h) = Some ev \<and> (fd_of h \<in> armed (kernel s) \<longleftrightarrow> h \<notin> set (pending s))))"
proof -
  note inv = net_reach_inv [OF assms]
  have "ev_ptr ev = h \<and>
      (if h \<in> unregistered s then fd_of h \<notin> armed (kernel s) \<and> h \<notin> set (pending s)
       else interest (kernel s) (fd_of h) = Some ev \<and> (fd_of h \<in> armed (kernel s) \<longleftrightarrow> h \<notin> set (pending s)))"
    if "co s h = Co_Waits ev" for h ev
    using net_invD(3) [OF inv, of h] that awaitsD [of h ev] by (simp add: co_ok_def)
  then show ?thesis using net_invD(1) [OF inv] pending_waits [OF inv] by blast
qed

text \<open>A small kernel that reports the first armed descriptor among a few.\<close>

type_synonym small_kernel = "(int \<rightharpoonup> epoll_event) \<times> int set"

definition small_ctl :: "ctl_op \<Rightarrow> int \<Rightarrow> epoll_event \<Rightarrow> small_kernel \<Rightarrow> ctl_result \<times> small_kernel" where
  "small_ctl op fd ev k = (if op = Ctl_Add \<and> fst k fd \<noteq> None then (Ctl_Exist, k)
     else if op = Ctl_Del then (Ctl_Ok, ((fst k)(fd := None), snd k - {fd})) else (Ctl_Ok, ((fst k)(fd \<mapsto> ev), insert fd (snd k))))"

definition small_wait :: "small_kernel \<Rightarrow> int list \<Rightarrow> small_kernel \<Rightarrow> bool" where
  "small_wait k fds k' \<longleftrightarrow> distinct fds \<and> set fds \<subseteq> snd k \<and>
     k' = (fst k, snd k - {fd \<in> set fds. \<exists>ev. fst k fd = Some ev \<and> ev_oneshot ev})"

lemma small_documented: "epoll_documented fst snd small_ctl small_wait"
  unfolding epoll_documented_def small_ctl_def small_wait_def by auto

theorem sockets_resume_once_witness:
  "\<exists>s. reach (net_init fst snd) (net_step fst small_ctl small_wait int) s \<and> pending s = [1] \<and> co s 1 = Co_Waits (read_event 1) \<and>
     1 \<notin> snd (kernel s)"
proof -
  let ?R = "reach (net_init fst snd) (net_step fst small_ctl small_wait int)"
  let ?s0 = "\<lparr> kernel = (Map.empty, {}), co = (\<lambda>h. Co_Runs), pending = [], unregistered = {} \<rparr>"
  let ?s1 = "\<lparr> kernel = ([1 \<mapsto> read_event 1], {1}), co = (\<lambda>h. Co_Runs)(1 := Co_Waits (read_event 1)), pending = [], unregistered = {} \<rparr>"
  let ?s2 = "\<lparr> kernel = ([1 \<mapsto> read_event 1], {}), co = (\<lambda>h. Co_Runs)(1 := Co_Waits (read_event 1)), pending = [1], unregistered = {} \<rparr>"
  have 0: "?R ?s0" by (rule reach_init) (simp add: net_init_def)
  have "net_step fst small_ctl small_wait int ?s0 ?s1"
    using net_suspend [of ?s0 1 "read_event 1" fst small_ctl small_wait int]
    by (simp add: awaits_def socket_suspend_def small_ctl_def registers_def)
  with 0 have 1: "?R ?s1" by (rule reach_step)
  have "net_step fst small_ctl small_wait int ?s1 ?s2"
    using net_poll [of ?s1 small_wait "[1]" "([1 \<mapsto> read_event 1], {})" fst small_ctl int]
    by (simp add: small_wait_def read_event_def)
  with 1 have 2: "?R ?s2" by (rule reach_step)
  have "if (1 :: nat) \<in> unregistered ?s2 then int 1 \<notin> snd (kernel ?s2) \<and> 1 \<notin> set (pending ?s2)
      else fst (kernel ?s2) (int 1) = Some (read_event 1) \<and> (int 1 \<in> snd (kernel ?s2) \<longleftrightarrow> 1 \<notin> set (pending ?s2))"
    using sockets_resume_once [OF small_documented _ 2] by (simp add: inj_def)
  then show ?thesis using 2 by (intro exI [of _ ?s2]) simp
qed

end
