(* ===== verification/Server.thy ===== *)
theory Server
  imports Session Runtime Sockets
begin

text \<open>
  The rest of \<^verbatim>\<open>server/main.cpp\<close>: its configuration file, the start-up that loads the model repository and
  registers the models with the runtime, and the accept loop with the ownership of client sockets.
\<close>

section \<open>Configuration\<close>

record ExtendedConfig =
  cfg_model_id :: string
  cfg_model_path :: string
  model_repository :: string
  host :: string
  port :: int
  cfg_input_shape :: "int list"
  cfg_device :: DeviceKind

definition default_extended :: ExtendedConfig where
  "default_extended = \<lparr> cfg_model_id = [], cfg_model_path = [], model_repository = ''models'', host = [], port = 9000,
     cfg_input_shape = [], cfg_device = Cpu \<rparr>"

text \<open>Items are not trimmed, and appended to what an earlier line gave.\<close>

fun push_shape :: "string list \<Rightarrow> int list \<Rightarrow> conv_error + int list" where
  "push_shape [] shape = Inr shape"
| "push_shape (item # items) shape = (case stoll item of Inl e \<Rightarrow> Inl e | Inr v \<Rightarrow> push_shape items (shape @ [v]))"

definition extended_setting :: "string \<Rightarrow> string \<Rightarrow> ExtendedConfig \<Rightarrow> conv_error + ExtendedConfig" where
  "extended_setting key val cfg =
     (if key = ''model_id'' then Inr (cfg\<lparr> cfg_model_id := val \<rparr>)
      else if key = ''model_path'' then Inr (cfg\<lparr> cfg_model_path := val \<rparr>)
      else if key = ''model_repository'' then Inr (cfg\<lparr> model_repository := val \<rparr>)
      else if key = ''host'' then Inr (cfg\<lparr> host := val \<rparr>)
      else if key = ''port'' then map_sum id (\<lambda>v. cfg\<lparr> port := v \<rparr>) (stoi val)
      else if key = ''device'' then Inr (cfg\<lparr> cfg_device := (if val = ''cuda'' then Cuda else Cpu) \<rparr>)
      else if key = ''input_shape'' then
        map_sum id (\<lambda>v. cfg\<lparr> cfg_input_shape := v \<rparr>) (push_shape (getlines (CHR '','') val) (cfg_input_shape cfg))
      else Inr cfg)"

definition extended_line :: "string \<Rightarrow> ExtendedConfig \<Rightarrow> conv_error + ExtendedConfig" where
  "extended_line line cfg =
     (if line = [] \<or> hd line = CHR ''#'' then Inr cfg
      else if CHR ''='' \<notin> set line then Inr cfg
      else
        let key = trim_chars ws_runtime (takeWhile (\<lambda>c. c \<noteq> CHR ''='') line);
            val = trim_chars ws_runtime (tl (dropWhile (\<lambda>c. c \<noteq> CHR ''='') line)) in
        extended_setting key val cfg)"

fun extended_lines :: "string list \<Rightarrow> ExtendedConfig \<Rightarrow> conv_error + ExtendedConfig" where
  "extended_lines [] cfg = Inr cfg"
| "extended_lines (l # ls) cfg = (case extended_line l cfg of Inl e \<Rightarrow> Inl e | Inr cfg' \<Rightarrow> extended_lines ls cfg')"

definition load_extended_config :: "string option \<Rightarrow> conv_error + ExtendedConfig" where
  "load_extended_config content =
     (case content of None \<Rightarrow> Inr default_extended | Some s \<Rightarrow> extended_lines (getlines newline s) default_extended)"

section \<open>Start-up\<close>

text \<open>The loop over \<^verbatim>\<open>registry.list()\<close>.\<close>

fun register_all ::
  "'b model_registry \<Rightarrow> (string \<times> ModelState \<times> int) list \<Rightarrow> 'b InferenceRuntime \<Rightarrow> 'b InferenceRuntime" where
  "register_all reg [] rt = rt"
| "register_all reg ((nm, st, v) # infos) rt =
     register_all reg infos
       (if st = Ready then
          (case lookup_ready reg nm of None \<Rightarrow> rt | Some m \<Rightarrow> snd (runtime_register nm (Some m) rt))
        else rt)"

datatype startup_error = Bad_Config conv_error | Bad_Repository cfg_error | Fatal JellybeanException

text \<open>
  \<^verbatim>\<open>main\<close> up to the creation of the reactor. \<open>read_file\<close> and \<open>read_tree\<close> are the file system; both loaders
  read the same file.
\<close>

definition server_start ::
  "'b \<Rightarrow> (string \<Rightarrow> string \<Rightarrow> DeviceKind \<Rightarrow> bool) \<Rightarrow> (string \<Rightarrow> string option) \<Rightarrow> (string \<Rightarrow> node option) \<Rightarrow> string list \<Rightarrow>
    startup_error + ExtendedConfig \<times> 'b model_registry \<times> 'b InferenceRuntime" where
  "server_start torch load read_file read_tree args =
     (let config_path = (case args of [] \<Rightarrow> ''configs/server.config'' | a # _ \<Rightarrow> a) in
      case runtime_from_file (read_file config_path) of
        Inl e \<Rightarrow> Inl (Bad_Config e)
      | Inr threads \<Rightarrow>
          (case load_extended_config (read_file config_path) of
             Inl e \<Rightarrow> Inl (Bad_Config e)
           | Inr cfg \<Rightarrow>
               (case scan_and_load torch load (model_repository cfg) (read_tree (model_repository cfg)) [] of
                  (Inl e, reg) \<Rightarrow> Inl (Bad_Repository e)
                | (Inr res, reg) \<Rightarrow>
                    if loaded res = 0 then
                      Inl (Fatal (ServerException (''No models were successfully loaded from repository: '' @ model_repository cfg)))
                    else Inr (cfg, reg, register_all reg (list_models reg) (runtime_new (unat threads))))))"

section \<open>Accepting clients\<close>

text \<open>
  One round of the accept loop: the temporary socket is moved into the session's frame, destroyed at the end of the
  statement, and the session is handed to the reactor. The \<open>accepts\<close> are the results of
  \<^verbatim>\<open>accept\<close> while \<^verbatim>\<open>g_running\<close> holds.
\<close>

fun accept_loop :: "int list \<Rightarrow> AsyncSocket list \<times> int list \<Rightarrow> AsyncSocket list \<times> int list" where
  "accept_loop [] s = s"
| "accept_loop (fd # accepts) (sessions, closes) =
     accept_loop accepts
       (if fd \<ge> 0 then
          let (framed, temp) = socket_move (socket_new fd) in (sessions @ [framed], socket_destroy temp closes)
        else (sessions, closes))"

lemma accept_loop_sockets:
  "accept_loop accepts (sessions, closes) = (sessions @ map socket_new (filter (\<lambda>fd. fd \<ge> 0) accepts), closes)"
  by (induction accepts arbitrary: sessions closes) (auto simp: socket_move_def socket_new_def socket_destroy_def)

text \<open>Each accepted descriptor reaches exactly one session and is closed once, when that session's frame is destroyed.\<close>

lemma sessions_close_once:
  "fold socket_destroy (fst (accept_loop accepts ([], []))) [] = filter (\<lambda>fd. fd \<ge> 0) accepts"
proof -
  have "fold socket_destroy (map socket_new fds) cs = cs @ fds" if "\<forall>fd \<in> set fds. fd \<ge> 0" for fds cs
    using that by (induction fds arbitrary: cs) (simp_all add: socket_destroy_def socket_new_def)
  then show ?thesis by (simp add: accept_loop_sockets)
qed

section \<open>The listening socket\<close>

text \<open>
  The address \<^verbatim>\<open>main\<close> binds: the port is converted to 16 bits; when \<^verbatim>\<open>inet_pton\<close>, a parameter, rejects the host, the address stays zero. The
  results of \<^verbatim>\<open>socket\<close>, \<^verbatim>\<open>setsockopt\<close> and \<^verbatim>\<open>listen\<close> are ignored; \<open>binds\<close> is the error text of \<^verbatim>\<open>bind\<close>, if it fails.
\<close>

record sockaddr_in =
  sin_port :: "16 word"
  sin_addr :: u32

definition listen_address :: "(string \<Rightarrow> u32 option) \<Rightarrow> ExtendedConfig \<Rightarrow> sockaddr_in" where
  "listen_address inet_pton cfg = \<lparr> sin_port = word_of_int (port cfg),
     sin_addr = (case inet_pton (host cfg) of Some a \<Rightarrow> a | None \<Rightarrow> 0) \<rparr>"

definition server_listen :: "(string \<Rightarrow> u32 option) \<Rightarrow> (sockaddr_in \<Rightarrow> string option) \<Rightarrow> ExtendedConfig \<Rightarrow> JellybeanException + sockaddr_in" where
  "server_listen inet_pton binds cfg =
     (let addr = listen_address inet_pton cfg in
      case binds addr of
        Some err \<Rightarrow> Inl (NetworkException (''Failed to bind socket: '' @ err))
      | None \<Rightarrow> Inr addr)"

text \<open>What \<^verbatim>\<open>main\<close> returns; on success the reactor runs in between.\<close>

definition server_exit :: "(string \<Rightarrow> u32 option) \<Rightarrow> (sockaddr_in \<Rightarrow> string option) \<Rightarrow>
    startup_error + ExtendedConfig \<times> 'b model_registry \<times> 'b InferenceRuntime \<Rightarrow> int" where
  "server_exit inet_pton binds start =
     (case start of
        Inl e \<Rightarrow> 1
      | Inr (cfg, reg, rt) \<Rightarrow> (case server_listen inet_pton binds cfg of Inl e \<Rightarrow> 1 | Inr addr \<Rightarrow> 0))"

lemma listen_port:
  assumes "0 \<le> port cfg" "port cfg < 65536"
  shows "uint (sin_port (listen_address inet_pton cfg)) = port cfg"
  using assms by (simp add: listen_address_def uint_word_of_int)

text \<open>Without a host line the server listens on all interfaces, and a port beyond 65535 is silently another one.\<close>

lemma listen_default_host:
  "inet_pton [] = None \<Longrightarrow> sin_addr (listen_address inet_pton default_extended) = 0"
  by (simp add: listen_address_def default_extended_def)

lemma listen_port_truncated:
  "sin_port (listen_address inet_pton (cfg\<lparr> port := 70000 \<rparr>)) = 4464"
  by (simp add: listen_address_def)

section \<open>What a started server serves\<close>

definition ready_names :: "(string \<times> ModelState \<times> int) list \<Rightarrow> string set" where
  "ready_names infos = {nm. \<exists>v. (nm, Ready, v) \<in> set infos}"

lemma ready_names_simps [simp]:
  "ready_names [] = {}"
  "ready_names ((nm, st, v) # infos) = (if st = Ready then insert nm (ready_names infos) else ready_names infos)"
  by (auto simp: ready_names_def)

lemma register_all_service:
  "runtime_ok rt \<Longrightarrow> \<not> rt_stopped rt \<Longrightarrow> runtime_ok (register_all reg infos rt) \<and> \<not> rt_stopped (register_all reg infos rt) \<and>
     fst (service (register_all reg infos rt)) =
       (\<lambda>k. case fst (service rt) k of Some m \<Rightarrow> Some m
          | None \<Rightarrow> if k \<in> ready_names infos then lookup_ready reg k else None)"
proof (induction infos arbitrary: rt)
  case Nil
  then show ?case by (auto simp: fun_eq_iff split: option.splits)
next
  case (Cons i infos)
  obtain nm st v where i: "i = (nm, st, v)" by (cases i) auto
  show ?case
  proof (cases "st = Ready \<and> lookup_ready reg nm \<noteq> None")
    case True
    then obtain m where m: "lookup_ready reg nm = Some m" "is_ready m"
      by (auto simp: lookup_ready_def split: option.splits if_splits)
    let ?rt = "snd (runtime_register nm (Some m) rt)"
    have sv: "fst (service ?rt) = (if fst (service rt) nm = None then (fst (service rt))(nm \<mapsto> m) else fst (service rt))"
      using service_register [OF Cons.prems(1), of nm "Some m"] m(2) by (cases "service rt") (auto split: if_splits)
    have ok: "runtime_ok ?rt" by (rule register_ok [OF Cons.prems(1)])
    have ns: "\<not> rt_stopped ?rt"
      using Cons.prems(2) by (simp add: runtime_register_def Let_def split: prod.splits)
    show ?thesis using Cons.IH [OF ok ns] True m sv by (auto simp: i fun_eq_iff split: option.splits if_splits)
  next
    case False
    then have "register_all reg (i # infos) rt = register_all reg infos rt" by (auto simp: i)
    then show ?thesis using Cons.IH [OF Cons.prems] False by (auto simp: i fun_eq_iff split: option.splits)
  qed
qed

text \<open>
  C8. A server that starts serves exactly the READY models of its repository: after \<^verbatim>\<open>main\<close> has loaded and registered them,
  a request reaches a running executor, of the model with that name, if and only if the
  registry has a READY entry for the name, whose backend is set; any other request is answered with the error for an
  unregistered model.
\<close>

theorem server_start_serves:
  assumes "server_start torch load read_file read_tree args = Inr (cfg, reg, rt)"
  shows "(case runtime_infer_async r routing rt of
       To_Executor h x \<Rightarrow> h < length (pool rt) \<and> \<not> view_stopped (pool rt ! h) \<and>
         lookup_ready reg (req_model_id r) = Some (view_meta (pool rt ! h)) \<and> handle (view_meta (pool rt ! h)) = Some torch
     | Answered e \<Rightarrow> lookup_ready reg (req_model_id r) = None \<and>
         e = error_response (''model not registered in runtime: '' @ req_model_id r))"
proof -
  obtain threads :: u64 and res where rt: "rt = register_all reg (list_models reg) (runtime_new (unat threads))"
    and scan: "scan_and_load torch load (model_repository cfg) (read_tree (model_repository cfg)) [] = (Inr res, reg)"
    using assms by (auto simp: server_start_def Let_def split: sum.splits prod.splits if_splits)
  have "registry_ok torch reg"
  proof -
    have e: "registry_ok torch []" by (simp add: registry_ok_def table_ok_def lookup_def table_find_def)
    have "registry_ok torch (snd (scan_loop torch load (model_repository cfg) es empty_result []))" for es
      by (rule conjunct1 [OF scan_loop_inv [OF e]])
    then show ?thesis using scan e by (auto simp: scan_and_load_def split: option.splits) (metis snd_conv)
  qed
  then have reg: "table_ok reg" "\<And>k m. lookup_ready reg k = Some m \<Longrightarrow> handle m = Some torch"
    by (auto simp: registry_ok_def lookup_ready_def is_ready_def split: option.splits if_splits)
  have sv: "runtime_ok rt" "\<not> rt_stopped rt" "fst (service rt) =
      (\<lambda>k. if k \<in> ready_names (list_models reg) then lookup_ready reg k else None)"
    using register_all_service [OF runtime_new_ok(1), of "unat threads" reg "list_models reg"] runtime_new_ok(2) [of "unat threads", where ?'b = 'a]
    by (auto simp: rt runtime_new_def)
  have "k \<in> ready_names (list_models reg)" if "lookup_ready reg k = Some m" for k m
  proof -
    have "(k, m) \<in> set reg" "state m = Ready"
      using that by (auto simp: lookup_ready_def lookup_def table_find_def is_ready_def map_of_SomeD split: option.splits if_splits)
    then show ?thesis by (force simp: list_models_def ready_names_def)
  qed
  then have all: "fst (service rt) k = lookup_ready reg k" for k
    using sv(3) by (cases "lookup_ready reg k") auto
  have "map_option (\<lambda>h. view_meta (pool rt ! h)) (table_find (executors rt) k) = lookup_ready reg k" for k
    using all [of k] by (simp add: service_def)
  then show ?thesis using sv(2) find_in_pool [OF sv(1)] reg(2)
    by (auto simp: runtime_infer_async_def split: option.splits) (metis option.simps(8,9))+
qed

definition demo_files :: "string \<Rightarrow> string option" where
  "demo_files p = (if p = ''configs/server.config'' then Some (''model_repository=repo'' @ [newline] @ ''input_shape=1,2'') else None)"

definition demo_tree :: "string \<Rightarrow> node option" where
  "demo_tree p = (if p = ''repo'' then Some (Dir [(''m'', Dir sample_tree)]) else None)"

lemma demo_start: "\<not> isl (server_start (7 :: nat) (\<lambda>_ _ _. True) demo_files demo_tree [])"
  by code_simp

theorem server_start_serves_witness:
  "\<exists>cfg reg rt. server_start (7 :: nat) (\<lambda>_ _ _. True) demo_files demo_tree [] = Inr (cfg, reg, rt) \<and>
     (case runtime_infer_async some_request 0 rt of
        To_Executor h x \<Rightarrow> h < length (pool rt)
      | Answered e \<Rightarrow> e = error_response (''model not registered in runtime: '' @ req_model_id some_request))"
proof -
  obtain cfg reg rt where st: "server_start (7 :: nat) (\<lambda>_ _ _. True) demo_files demo_tree [] = Inr (cfg, reg, rt)"
    using demo_start by (cases "server_start (7 :: nat) (\<lambda>_ _ _. True) demo_files demo_tree []") auto
  from server_start_serves [OF st, of some_request 0] show ?thesis using st by (auto split: route.splits)
qed

end
