(* ===== verification/Work_Stealing.thy ===== *)
theory Work_Stealing
  imports Prelude "HOL-Library.Multiset"
begin

unbundle bit_operations_syntax

text \<open>
  \<^verbatim>\<open>scheduler/work_stealing_deque.hpp\<close>: the Chase-Lev deque. Positions are integers (the 64-bit counters do not wrap within any
  feasible run). Arrays are never freed before the destructor, so the state keeps all of them
  and the number of the current one. The owner and any number of stealers interleave, one step per
  atomic access, in a sequentially consistent order. The accesses to the elements are steps of their own, although the elements are ordinary memory.
\<close>

section \<open>Arrays\<close>

record 'a Array =
  capacity :: int
  storage :: "'a option list"

definition array_new :: "int \<Rightarrow> 'a Array" where
  "array_new cap = \<lparr> capacity = cap, storage = replicate (nat cap) None \<rparr>"

definition slot_index :: "'a Array \<Rightarrow> int \<Rightarrow> nat" where
  "slot_index a i = nat (i AND (capacity a - 1))"

definition array_load :: "'a Array \<Rightarrow> int \<Rightarrow> 'a option" where
  "array_load a i = storage a ! slot_index a i"

definition array_store :: "int \<Rightarrow> 'a option \<Rightarrow> 'a Array \<Rightarrow> 'a Array" where
  "array_store i v a = a\<lparr> storage := (storage a)[slot_index a i := v] \<rparr>"

text \<open>The asserts of the constructor.\<close>

definition array_ok :: "'a Array \<Rightarrow> bool" where
  "array_ok a \<longleftrightarrow> capacity a > 0 \<and> capacity a AND (capacity a - 1) = 0 \<and> length (storage a) = nat (capacity a)"

fun copy_range :: "nat \<Rightarrow> int \<Rightarrow> 'a Array \<Rightarrow> 'a Array \<Rightarrow> 'a Array" where
  "copy_range 0 i old new = new"
| "copy_range (Suc n) i old new = copy_range n (i + 1) old (array_store i (array_load old i) new)"

definition resized :: "'a Array \<Rightarrow> int \<Rightarrow> int \<Rightarrow> 'a Array" where
  "resized old b t = copy_range (nat (b - t)) t old (array_new (capacity old * 2))"

lemma pow2_capacity:
  fixes c :: int
  shows "c > 0 \<and> c AND (c - 1) = 0 \<longleftrightarrow> (\<exists>k. c = 2 ^ k)"
proof
  assume c: "c > 0 \<and> c AND (c - 1) = 0"
  obtain n where "c = int n" "n > 0" using c zero_less_imp_eq_int by blast
  then have "int (nat c - 1) = c - 1" by (simp add: of_nat_diff)
  then have "int (nat c AND (nat c - 1)) = c AND (c - 1)" using c by (simp only: of_nat_and_eq) simp
  then obtain k where "nat c = 2 ^ k" using nat_and_pred_0 [of "nat c"] c by auto
  then have "c = 2 ^ k" using c by (metis int_nat_eq of_nat_numeral of_nat_power zero_less_imp_eq_int nat_int)
  then show "\<exists>k. c = 2 ^ k" ..
next
  assume "\<exists>k. c = 2 ^ k"
  then show "c > 0 \<and> c AND (c - 1) = 0"
    by (auto simp: mask_eq_exp_minus_1 [symmetric] take_bit_eq_mask [symmetric] take_bit_eq_mod)
qed

lemma slot_index_mod:
  assumes "array_ok a"
  shows "slot_index a i = nat (i mod capacity a)" "slot_index a i < length (storage a)" "capacity a > 0"
proof -
  obtain k where k: "capacity a = 2 ^ k" using assms pow2_capacity unfolding array_ok_def by blast
  then show "slot_index a i = nat (i mod capacity a)"
    by (simp add: slot_index_def k mask_eq_exp_minus_1 [symmetric] take_bit_eq_mask [symmetric] take_bit_eq_mod)
  then show "slot_index a i < length (storage a)" using assms by (simp add: array_ok_def nat_mono_iff)
  show "capacity a > 0" using assms by (simp add: array_ok_def)
qed

lemma slot_index_eq:
  assumes "array_ok a" "i \<le> j" "j < i + capacity a"
  shows "slot_index a i = slot_index a j \<longleftrightarrow> i = j"
proof -
  have pos: "capacity a > 0" by (rule slot_index_mod [OF assms(1)])
  have "i = j" if "i mod capacity a = j mod capacity a"
  proof -
    have "capacity a dvd j - i" using that by (simp add: mod_eq_dvd_iff dvd_diff_commute)
    then show ?thesis using assms(2,3) zdvd_not_zless [of "j - i" "capacity a"] by fastforce
  qed
  then show ?thesis using slot_index_mod(1) [OF assms(1)] pos by (auto simp: nat_eq_iff)
qed

lemma array_store_ok [simp]: "array_ok (array_store i v a) = array_ok a" "capacity (array_store i v a) = capacity a"
  by (simp_all add: array_ok_def array_store_def)

lemma array_new_ok: "cap > 0 \<Longrightarrow> cap AND (cap - 1) = 0 \<Longrightarrow> array_ok (array_new cap)"
  by (simp add: array_ok_def array_new_def)

lemma load_store:
  assumes "array_ok a"
  shows "array_load (array_store i v a) i = v"
    and "\<bar>j - i\<bar> < capacity a \<Longrightarrow> j \<noteq> i \<Longrightarrow> array_load (array_store i v a) j = array_load a j"
proof -
  have same: "slot_index (array_store i v a) k = slot_index a k" for k by (simp add: slot_index_def)
  show "array_load (array_store i v a) i = v"
    using slot_index_mod(2) [OF assms, of i] by (simp add: array_load_def same) (simp add: array_store_def)
  assume d: "\<bar>j - i\<bar> < capacity a" "j \<noteq> i"
  have "slot_index a i \<noteq> slot_index a j"
    using slot_index_eq [OF assms, of i j] slot_index_eq [OF assms, of j i] d by (cases "i \<le> j") auto
  then show "array_load (array_store i v a) j = array_load a j"
    by (simp add: array_load_def same) (simp add: array_store_def)
qed

lemma copy_range_ok: "array_ok (copy_range n i old new) = array_ok new" "capacity (copy_range n i old new) = capacity new"
  by (induction n arbitrary: i new) simp_all

lemma copy_range_load:
  "array_ok new \<Longrightarrow> int n \<le> capacity new \<Longrightarrow>
     (\<forall>j. i \<le> j \<and> j < i + int n \<longrightarrow> array_load (copy_range n i old new) j = array_load old j) \<and>
     (\<forall>j. j < i \<and> i + int n \<le> j + capacity new \<longrightarrow> array_load (copy_range n i old new) j = array_load new j)"
proof (induction n arbitrary: i new)
  case (Suc n)
  let ?new = "array_store i (array_load old i) new"
  have ih: "array_load (copy_range n (i + 1) old ?new) j = array_load old j" if "i + 1 \<le> j" "j < i + 1 + int n" for j
    using Suc.IH [of ?new "i + 1"] Suc.prems that by auto
  have ih2: "array_load (copy_range n (i + 1) old ?new) j = array_load ?new j" if "j < i + 1" "i + 1 + int n \<le> j + capacity new" for j
    using Suc.IH [of ?new "i + 1"] Suc.prems that by auto
  have here: "array_load (copy_range n (i + 1) old ?new) i = array_load old i"
    using ih2 [of i] Suc.prems load_store(1) [OF Suc.prems(1)] by simp
  have below: "array_load (copy_range n (i + 1) old ?new) j = array_load new j" if "j < i" "i + int (Suc n) \<le> j + capacity new" for j
    using ih2 [of j] that load_store(2) [OF Suc.prems(1), of j i] by simp
  show ?case
  proof (intro conjI allI impI)
    fix j assume "i \<le> j \<and> j < i + int (Suc n)"
    then show "array_load (copy_range (Suc n) i old new) j = array_load old j" using here ih [of j] by (cases "j = i") auto
  next
    fix j assume "j < i \<and> i + int (Suc n) \<le> j + capacity new"
    then show "array_load (copy_range (Suc n) i old new) j = array_load new j" using below by simp
  qed
qed auto

lemma resized_facts:
  assumes ok: "array_ok old" and bt: "b - t \<le> capacity old"
  shows "array_ok (resized old b t)" "capacity (resized old b t) = capacity old * 2"
    "t \<le> j \<Longrightarrow> j < b \<Longrightarrow> array_load (resized old b t) j = array_load old j"
proof -
  obtain k where k: "capacity old = 2 ^ k" using ok pow2_capacity unfolding array_ok_def by blast
  have c2: "capacity old * 2 > 0 \<and> capacity old * 2 AND (capacity old * 2 - 1) = 0"
    using pow2_capacity [of "capacity old * 2"] k by (metis mult.commute power_Suc)
  then have new: "array_ok (array_new (capacity old * 2) :: 'a Array)" using array_new_ok by blast
  then show "array_ok (resized old b t)" by (simp add: resized_def copy_range_ok)
  have cap: "capacity (array_new (capacity old * 2) :: 'a Array) = capacity old * 2" by (simp add: array_new_def)
  then show "capacity (resized old b t) = capacity old * 2" by (simp add: resized_def copy_range_ok)
  show "t \<le> j \<Longrightarrow> j < b \<Longrightarrow> array_load (resized old b t) j = array_load old j"
    using copy_range_load [OF new, of "nat (b - t)" t old] bt k cap by (simp add: resized_def)
qed

section \<open>The deque, one call at a time\<close>

record 'a WorkStealingDeque =
  top :: int
  bottom :: int
  arrays :: "'a Array list"

text \<open>The last array is the one \<^verbatim>\<open>array_\<close> points to; the others are in \<^verbatim>\<open>garbage_\<close>.\<close>

definition cur_array :: "'a WorkStealingDeque \<Rightarrow> 'a Array" where
  "cur_array d = last (arrays d)"

definition ws_new :: "int \<Rightarrow> 'a WorkStealingDeque" where
  "ws_new cap = \<lparr> top = 0, bottom = 0, arrays = [array_new cap] \<rparr>"

definition put_array :: "'a Array \<Rightarrow> 'a WorkStealingDeque \<Rightarrow> 'a WorkStealingDeque" where
  "put_array a d = d\<lparr> arrays := butlast (arrays d) @ [a] \<rparr>"

definition grow :: "int \<Rightarrow> int \<Rightarrow> 'a WorkStealingDeque \<Rightarrow> 'a WorkStealingDeque" where
  "grow b t d = d\<lparr> arrays := arrays d @ [resized (cur_array d) b t] \<rparr>"

definition ws_push :: "'a \<Rightarrow> 'a WorkStealingDeque \<Rightarrow> 'a WorkStealingDeque" where
  "ws_push item d =
     (let b = bottom d; t = top d;
          d1 = (if b - t > capacity (cur_array d) - 1 then grow b t d else d);
          d2 = put_array (array_store b (Some item) (cur_array d1)) d1 in
      d2\<lparr> bottom := b + 1 \<rparr>)"

definition ws_pop :: "'a WorkStealingDeque \<Rightarrow> 'a option \<times> 'a WorkStealingDeque" where
  "ws_pop d =
     (let b = bottom d - 1; d1 = d\<lparr> bottom := b \<rparr>; t = top d1 in
      if t \<le> b then
        let item = array_load (cur_array d1) b in
        if t = b then
          (if top d1 = t then (item, d1\<lparr> top := t + 1, bottom := b + 1 \<rparr>) else (None, d1\<lparr> bottom := b + 1 \<rparr>))
        else (item, d1)
      else (None, d1\<lparr> bottom := b + 1 \<rparr>))"

definition ws_steal :: "'a WorkStealingDeque \<Rightarrow> 'a option \<times> 'a WorkStealingDeque" where
  "ws_steal d =
     (let t = top d; b = bottom d in
      if t < b then
        let item = array_load (cur_array d) t in
        if top d = t then (item, d\<lparr> top := t + 1 \<rparr>) else (None, d)
      else (None, d))"

text \<open>The destructor deletes the arrays in \<^verbatim>\<open>garbage_\<close> and then the current one.\<close>

definition ws_destroy :: "'a WorkStealingDeque \<Rightarrow> 'a Array list" where
  "ws_destroy d = butlast (arrays d) @ [cur_array d]"

lemma ws_destroy_all: "arrays d \<noteq> [] \<Longrightarrow> ws_destroy d = arrays d"
  by (simp add: ws_destroy_def cur_array_def)

definition ws_ok :: "'a WorkStealingDeque \<Rightarrow> bool" where
  "ws_ok d \<longleftrightarrow> arrays d \<noteq> [] \<and> array_ok (cur_array d) \<and> 0 \<le> top d \<and> top d \<le> bottom d \<and>
     bottom d - top d \<le> capacity (cur_array d) \<and> (\<forall>i. top d \<le> i \<and> i < bottom d \<longrightarrow> array_load (cur_array d) i \<noteq> None)"

text \<open>The elements from the oldest to the youngest.\<close>

definition ws_list :: "'a WorkStealingDeque \<Rightarrow> 'a list" where
  "ws_list d = map (\<lambda>i. the (array_load (cur_array d) i)) [top d..bottom d - 1]"

lemma grow_facts:
  assumes ok: "array_ok (cur_array d)" and "b - t \<le> capacity (cur_array d)"
  shows "array_ok (cur_array (grow b t d))" "capacity (cur_array (grow b t d)) = capacity (cur_array d) * 2"
    "t \<le> j \<Longrightarrow> j < b \<Longrightarrow> array_load (cur_array (grow b t d)) j = array_load (cur_array d) j" "arrays (grow b t d) \<noteq> []"
  using resized_facts [OF assms] by (simp_all add: grow_def cur_array_def)

lemma cur_put_array [simp]: "cur_array (put_array a d) = a" "top (put_array a d) = top d" "bottom (put_array a d) = bottom d"
    "arrays (put_array a d) \<noteq> []" "top (grow b t d) = top d" "bottom (grow b t d) = bottom d"
  by (simp_all add: put_array_def cur_array_def grow_def)

lemma cur_array_upd [simp]: "cur_array (d\<lparr> top := x \<rparr>) = cur_array d" "cur_array (d\<lparr> bottom := x \<rparr>) = cur_array d"
  by (simp_all add: cur_array_def)

lemma ws_push_spec:
  assumes ok: "ws_ok d"
  shows "ws_ok (ws_push x d) \<and> ws_list (ws_push x d) = ws_list d @ [x]"
proof -
  let ?b = "bottom d" let ?t = "top d"
  define d1 where "d1 = (if ?b - ?t > capacity (cur_array d) - 1 then grow ?b ?t d else d)"
  note o = ok [unfolded ws_ok_def]
  have a1: "array_ok (cur_array d1)" "?b - ?t < capacity (cur_array d1)" "top d1 = ?t"
    and same: "\<And>j. ?t \<le> j \<Longrightarrow> j < ?b \<Longrightarrow> array_load (cur_array d1) j = array_load (cur_array d) j"
    using o grow_facts [of d ?b ?t] slot_index_mod(3) [of "cur_array d"] by (auto simp: d1_def)
  let ?a = "array_store ?b (Some x) (cur_array d1)"
  have push: "ws_push x d = (put_array ?a d1)\<lparr> bottom := ?b + 1 \<rparr>" by (simp add: ws_push_def d1_def Let_def)
  have old: "array_load ?a j = array_load (cur_array d) j" if "?t \<le> j" "j < ?b" for j
    using load_store(2) [OF a1(1), of j ?b] same [OF that] that a1(2) by simp
  have new: "array_load ?a ?b = Some x" by (rule load_store(1) [OF a1(1)])
  have "array_load ?a i \<noteq> None" if "?t \<le> i" "i < ?b + 1" for i
    using that old [of i] new o by (cases "i = ?b") auto
  then have "ws_ok (ws_push x d)"
    using o a1 by (auto simp: push ws_ok_def)
  moreover have "ws_list (ws_push x d) = ws_list d @ [x]"
    using o a1(3) old new by (simp add: push ws_list_def upto_rec2)
  ultimately show ?thesis ..
qed

lemma ws_pop_spec:
  assumes ok: "ws_ok d"
  shows "ws_ok (snd (ws_pop d)) \<and> (if ws_list d = [] then ws_pop d = (None, d)
    else fst (ws_pop d) = Some (last (ws_list d)) \<and> ws_list (snd (ws_pop d)) = butlast (ws_list d))"
proof -
  note o = ok [unfolded ws_ok_def]
  let ?b = "bottom d - 1"
  consider (empty) "bottom d = top d" | (one) "top d = ?b" | (more) "top d < ?b" using o by linarith
  then show ?thesis
  proof cases
    case empty
    then have "ws_pop d = (None, d\<lparr> bottom := bottom d \<rparr>)" by (simp add: ws_pop_def)
    then have "ws_pop d = (None, d)" by simp
    then show ?thesis using ok empty by (simp add: ws_list_def)
  next
    case one
    then have "array_load (cur_array d) ?b \<noteq> None" using o by auto
    then show ?thesis using one o by (auto simp: ws_pop_def ws_list_def ws_ok_def Let_def)
  next
    case more
    have some: "array_load (cur_array d) ?b \<noteq> None" using o more by auto
    have split: "[top d..bottom d - 1] = [top d..bottom d - 2] @ [bottom d - 1]" using more upto_rec2 [of "top d" "bottom d - 1"] by simp
    show ?thesis using more o some by (auto simp: ws_pop_def ws_list_def ws_ok_def Let_def split)
  qed
qed

lemma ws_steal_spec:
  assumes ok: "ws_ok d"
  shows "ws_ok (snd (ws_steal d)) \<and> (if ws_list d = [] then ws_steal d = (None, d)
    else fst (ws_steal d) = Some (hd (ws_list d)) \<and> ws_list (snd (ws_steal d)) = tl (ws_list d))"
proof (cases "top d < bottom d")
  case True
  then have "array_load (cur_array d) (top d) \<noteq> None" using ok by (auto simp: ws_ok_def)
  moreover have "[top d..bottom d - 1] = top d # [top d + 1..bottom d - 1]" using True by (simp add: upto_rec1)
  ultimately show ?thesis using True ok by (auto simp: ws_steal_def ws_list_def ws_ok_def Let_def)
next
  case False
  then show ?thesis using ok by (auto simp: ws_steal_def ws_list_def ws_ok_def)
qed

section \<open>Owner and stealers\<close>

text \<open>
  The owner's position in \<^verbatim>\<open>push\<close> and \<^verbatim>\<open>pop\<close>, with its local variables: \<open>P_Full\<close> before the resize, \<open>P_Store\<close> before the store
  into the array, \<open>P_Bottom\<close> before the publication; \<open>Q_Top\<close> after the decrement, before the load of \<^verbatim>\<open>top_\<close>; \<open>Q_Cas\<close> before
  the race for the last element; \<open>Q_Restore\<close> before \<^verbatim>\<open>bottom_\<close> is set back. Only the owner writes \<^verbatim>\<open>bottom_\<close> and
  \<^verbatim>\<open>array_\<close>, so its loads of them need no step of their own.
\<close>

datatype 'a owner = P_Idle | P_Full 'a int int | P_Store 'a int | P_Bottom 'a int | Q_Top int | Q_Cas int "'a option" | Q_Restore int

text \<open>A stealer has read \<^verbatim>\<open>top_\<close>; found \<^verbatim>\<open>bottom_\<close> above it; loaded the array pointer; loaded the item.\<close>

datatype 'a stealer = S_Idle | S_Top int | S_Bottom int | S_Array int nat | S_Item int "'a option"

record 'a ws_sys =
  deque :: "'a WorkStealingDeque"
  owner :: "'a owner"
  stealers :: "nat \<Rightarrow> 'a stealer"
  pushed :: "'a list"
  taken :: "'a option list"

definition set_stealer :: "nat \<Rightarrow> 'a stealer \<Rightarrow> 'a ws_sys \<Rightarrow> 'a ws_sys" where
  "set_stealer k pc s = s\<lparr> stealers := (stealers s)(k := pc) \<rparr>"

inductive ws_step :: "'a ws_sys \<Rightarrow> 'a ws_sys \<Rightarrow> bool" where
  push_begin: "owner s = P_Idle \<Longrightarrow> b = bottom (deque s) \<Longrightarrow> t = top (deque s) \<Longrightarrow>
    ws_step s (s\<lparr> owner := (if b - t > capacity (cur_array (deque s)) - 1 then P_Full x b t else P_Store x b) \<rparr>)"
| push_resize: "owner s = P_Full x b t \<Longrightarrow> ws_step s (s\<lparr> deque := grow b t (deque s), owner := P_Store x b \<rparr>)"
| push_store: "owner s = P_Store x b \<Longrightarrow>
    ws_step s (s\<lparr> deque := put_array (array_store b (Some x) (cur_array (deque s))) (deque s), owner := P_Bottom x b \<rparr>)"
| push_publish: "owner s = P_Bottom x b \<Longrightarrow>
    ws_step s (s\<lparr> deque := (deque s)\<lparr> bottom := b + 1 \<rparr>, owner := P_Idle, pushed := pushed s @ [x] \<rparr>)"
| pop_decrement: "owner s = P_Idle \<Longrightarrow> b = bottom (deque s) - 1 \<Longrightarrow>
    ws_step s (s\<lparr> deque := (deque s)\<lparr> bottom := b \<rparr>, owner := Q_Top b \<rparr>)"
| pop_take: "owner s = Q_Top b \<Longrightarrow> top (deque s) < b \<Longrightarrow>
    ws_step s (s\<lparr> owner := P_Idle, taken := taken s @ [array_load (cur_array (deque s)) b] \<rparr>)"
| pop_last: "owner s = Q_Top b \<Longrightarrow> top (deque s) = b \<Longrightarrow>
    ws_step s (s\<lparr> owner := Q_Cas b (array_load (cur_array (deque s)) b) \<rparr>)"
| pop_empty: "owner s = Q_Top b \<Longrightarrow> top (deque s) > b \<Longrightarrow> ws_step s (s\<lparr> owner := Q_Restore b \<rparr>)"
| pop_win: "owner s = Q_Cas b item \<Longrightarrow> top (deque s) = b \<Longrightarrow>
    ws_step s (s\<lparr> deque := (deque s)\<lparr> top := b + 1 \<rparr>, owner := Q_Restore b, taken := taken s @ [item] \<rparr>)"
| pop_lose: "owner s = Q_Cas b item \<Longrightarrow> top (deque s) \<noteq> b \<Longrightarrow> ws_step s (s\<lparr> owner := Q_Restore b \<rparr>)"
| pop_restore: "owner s = Q_Restore b \<Longrightarrow>
    ws_step s (s\<lparr> deque := (deque s)\<lparr> bottom := b + 1 \<rparr>, owner := P_Idle \<rparr>)"
| steal_top: "stealers s k = S_Idle \<Longrightarrow> ws_step s (set_stealer k (S_Top (top (deque s))) s)"
| steal_bottom: "stealers s k = S_Top t \<Longrightarrow>
    ws_step s (set_stealer k (if t < bottom (deque s) then S_Bottom t else S_Idle) s)"
| steal_array: "stealers s k = S_Bottom t \<Longrightarrow>
    ws_step s (set_stealer k (S_Array t (length (arrays (deque s)) - 1)) s)"
| steal_item: "stealers s k = S_Array t a \<Longrightarrow>
    ws_step s (set_stealer k (S_Item t (array_load (arrays (deque s) ! a) t)) s)"
| steal_win: "stealers s k = S_Item t item \<Longrightarrow> top (deque s) = t \<Longrightarrow>
    ws_step s (set_stealer k S_Idle (s\<lparr> deque := (deque s)\<lparr> top := t + 1 \<rparr>, taken := taken s @ [item] \<rparr>))"
| steal_lose: "stealers s k = S_Item t item \<Longrightarrow> top (deque s) \<noteq> t \<Longrightarrow> ws_step s (set_stealer k S_Idle s)"

definition ws_init :: "'a ws_sys \<Rightarrow> bool" where
  "ws_init s \<longleftrightarrow> (\<exists>cap. cap > 0 \<and> cap AND (cap - 1) = 0 \<and>
     s = \<lparr> deque = ws_new cap, owner = P_Idle, stealers = (\<lambda>k. S_Idle), pushed = [], taken = [] \<rparr>)"

subsection \<open>Invariant\<close>

text \<open>The end of the published elements: \<^verbatim>\<open>bottom_\<close>, or one more while \<^verbatim>\<open>pop\<close> has it decremented.\<close>

definition limit :: "'a ws_sys \<Rightarrow> int" where
  "limit s = bottom (deque s) + (case owner s of Q_Top b \<Rightarrow> 1 | Q_Cas b x \<Rightarrow> 1 | Q_Restore b \<Rightarrow> 1 | _ \<Rightarrow> 0)"

fun owner_ok :: "'a WorkStealingDeque \<Rightarrow> 'a owner \<Rightarrow> bool" where
  "owner_ok d P_Idle = True"
| "owner_ok d (P_Full x b t) = (b = bottom d \<and> t \<le> top d \<and> b - t \<le> capacity (cur_array d))"
| "owner_ok d (P_Store x b) = (b = bottom d \<and> b - top d < capacity (cur_array d))"
| "owner_ok d (P_Bottom x b) = (b = bottom d \<and> b - top d < capacity (cur_array d) \<and> array_load (cur_array d) b = Some x)"
| "owner_ok d (Q_Top b) = (b = bottom d)"
| "owner_ok d (Q_Cas b x) = (b = bottom d \<and> b \<le> top d \<and> (top d = b \<longrightarrow> x = array_load (cur_array d) b))"
| "owner_ok d (Q_Restore b) = (b = bottom d \<and> top d = b + 1)"

text \<open>A stealer's view counts only while \<^verbatim>\<open>top_\<close> is where it read it.\<close>

fun stealer_ok :: "'a WorkStealingDeque \<Rightarrow> int \<Rightarrow> 'a stealer \<Rightarrow> bool" where
  "stealer_ok d l S_Idle = True"
| "stealer_ok d l (S_Top t) = (t \<le> top d)"
| "stealer_ok d l (S_Bottom t) = (t \<le> top d \<and> (t = top d \<longrightarrow> t < l))"
| "stealer_ok d l (S_Array t a) = (t \<le> top d \<and> a < length (arrays d) \<and>
     (t = top d \<longrightarrow> t < l \<and> array_load (arrays d ! a) t = array_load (cur_array d) t))"
| "stealer_ok d l (S_Item t x) = (t \<le> top d \<and> (t = top d \<longrightarrow> t < l \<and> x = array_load (cur_array d) t))"

definition ws_inv :: "'a ws_sys \<Rightarrow> bool" where
  "ws_inv s \<longleftrightarrow> arrays (deque s) \<noteq> [] \<and> array_ok (cur_array (deque s)) \<and>
     0 \<le> top (deque s) \<and> top (deque s) \<le> limit s \<and> limit s - top (deque s) \<le> capacity (cur_array (deque s)) \<and>
     owner_ok (deque s) (owner s) \<and> (\<forall>k. stealer_ok (deque s) (limit s) (stealers s k)) \<and>
     mset (map Some (pushed s)) =
       mset (taken s) + mset (map (array_load (cur_array (deque s))) [top (deque s)..limit s - 1])"

lemma stealer_mono:
  assumes "stealer_ok d l pc" "top d \<le> top d'" "length (arrays d) \<le> length (arrays d')"
    and "top d' = top d \<Longrightarrow> top d < l \<Longrightarrow> top d < l' \<and> array_load (cur_array d') (top d) = array_load (cur_array d) (top d) \<and>
      (\<forall>a < length (arrays d). array_load (arrays d ! a) (top d) = array_load (cur_array d) (top d) \<longrightarrow>
        array_load (arrays d' ! a) (top d) = array_load (cur_array d') (top d))"
  shows "stealer_ok d' l' pc"
  using assms by (cases pc) auto

text \<open>The invariant over its parts, to be rebuilt after a step of the owner that leaves \<^verbatim>\<open>top_\<close> alone.\<close>

definition ws_core :: "'a WorkStealingDeque \<Rightarrow> int \<Rightarrow> bool" where
  "ws_core d l \<longleftrightarrow> arrays d \<noteq> [] \<and> array_ok (cur_array d) \<and> 0 \<le> top d \<and> top d \<le> l \<and> l - top d \<le> capacity (cur_array d)"

definition ws_live :: "'a WorkStealingDeque \<Rightarrow> int \<Rightarrow> 'a option list" where
  "ws_live d l = map (array_load (cur_array d)) [top d..l - 1]"

lemma ws_inv_alt:
  "ws_inv s \<longleftrightarrow> ws_core (deque s) (limit s) \<and> owner_ok (deque s) (owner s) \<and> (\<forall>k. stealer_ok (deque s) (limit s) (stealers s k)) \<and>
     mset (map Some (pushed s)) = mset (taken s) + mset (ws_live (deque s) (limit s))"
  by (auto simp: ws_inv_def ws_core_def ws_live_def)

lemma ws_live_cong:
  assumes "top d' = top d" "\<And>i. top d \<le> i \<Longrightarrow> i < l \<Longrightarrow> array_load (cur_array d') i = array_load (cur_array d) i"
  shows "ws_live d' l = ws_live d l"
  using assms by (auto simp: ws_live_def)

lemma ws_live_snoc: "top d \<le> l \<Longrightarrow> ws_live d (l + 1) = ws_live d l @ [array_load (cur_array d) l]"
  using upto_rec2 [of "top d" l] by (simp add: ws_live_def)

lemma ws_live_Cons: "top d < l \<Longrightarrow> ws_live d l = array_load (cur_array d) (top d) # ws_live (d\<lparr> top := top d + 1 \<rparr>) l"
  using upto_rec1 [of "top d" "l - 1"] by (simp add: ws_live_def)

lemma inv_push_resize:
  assumes inv: "ws_inv s" and o: "owner s = P_Full x b t"
  shows "ws_inv (s\<lparr> deque := grow b t (deque s), owner := P_Store x b \<rparr>)"
proof -
  let ?d = "deque s" let ?g = "grow b t ?d"
  have core: "ws_core ?d b" "b = bottom ?d" "t \<le> top ?d" "b - t \<le> capacity (cur_array ?d)"
    and st: "\<And>k. stealer_ok ?d b (stealers s k)" and ms: "mset (map Some (pushed s)) = mset (taken s) + mset (ws_live ?d b)"
    using inv o by (auto simp: ws_inv_alt limit_def)
  note g = grow_facts [OF _ core(4)]
  have ok: "array_ok (cur_array ?d)" "capacity (cur_array ?d) > 0" using core(1) slot_index_mod(3) by (auto simp: ws_core_def)
  have load: "array_load (cur_array ?g) i = array_load (cur_array ?d) i" if "top ?d \<le> i" "i < b" for i
    using g(3) [OF ok(1), of i] that core(3) by simp
  have nth: "arrays ?g ! a = arrays ?d ! a" if "a < length (arrays ?d)" for a using that by (simp add: grow_def nth_append)
  have "stealer_ok ?g b (stealers s k)" for k
    by (rule stealer_mono [OF st]) (use load nth in \<open>auto simp: grow_def [of b t "deque s"]\<close>)
  moreover have "ws_core ?g b" using core(1) g(1,2,4) [OF ok(1)] ok by (auto simp: ws_core_def)
  moreover have "ws_live ?g b = ws_live ?d b" by (rule ws_live_cong) (use load in simp_all)
  moreover have "b - top ?d < capacity (cur_array ?g)" using core(1) g(2) [OF ok(1)] ok(2) by (auto simp: ws_core_def)
  ultimately show ?thesis using core(2) ms by (simp add: ws_inv_alt limit_def)
qed

lemma inv_push_store:
  assumes inv: "ws_inv s" and o: "owner s = P_Store x b"
  shows "ws_inv (s\<lparr> deque := put_array (array_store b (Some x) (cur_array (deque s))) (deque s), owner := P_Bottom x b \<rparr>)"
proof -
  let ?d = "deque s" let ?a = "array_store b (Some x) (cur_array ?d)" let ?p = "put_array ?a ?d"
  have core: "ws_core ?d b" "b = bottom ?d" "b - top ?d < capacity (cur_array ?d)"
    and st: "\<And>k. stealer_ok ?d b (stealers s k)" and ms: "mset (map Some (pushed s)) = mset (taken s) + mset (ws_live ?d b)"
    using inv o by (auto simp: ws_inv_alt limit_def)
  have ok: "array_ok (cur_array ?d)" using core(1) by (simp add: ws_core_def)
  have load: "array_load ?a i = array_load (cur_array ?d) i" if "top ?d \<le> i" "i < b" for i
    using load_store(2) [OF ok, of i b] that core(3) by simp
  have ne: "arrays ?d \<noteq> []" using core(1) by (simp add: ws_core_def)
  have nth: "array_load (arrays ?p ! a) (top ?d) = array_load (cur_array ?d) (top ?d)"
    if "a < length (arrays ?d)" "top ?d < b" "array_load (arrays ?d ! a) (top ?d) = array_load (cur_array ?d) (top ?d)" for a
  proof (cases "a = length (arrays ?d) - 1")
    case True
    then show ?thesis using load [of "top ?d"] that(2) ne by (simp add: put_array_def nth_append)
  next
    case False
    then have "a < length (arrays ?d) - 1" using that(1) by linarith
    then show ?thesis using that by (simp add: put_array_def nth_append nth_butlast)
  qed
  have "length (arrays ?p) = length (arrays ?d)" using ne by (simp add: put_array_def)
  then have "stealer_ok ?p b (stealers s k)" for k
    by (intro stealer_mono [OF st]) (use load nth in auto)
  moreover have "ws_core ?p b" using core(1) by (simp add: ws_core_def)
  moreover have "ws_live ?p b = ws_live ?d b" by (rule ws_live_cong) (use load in simp_all)
  ultimately show ?thesis using core(2,3) ms load_store(1) [OF ok, of b "Some x"] by (simp add: ws_inv_alt limit_def)
qed

text \<open>A win at \<^verbatim>\<open>top_\<close>, by the owner or by a stealer.\<close>

lemma stealer_after_win:
  assumes "stealer_ok d l pc"
  shows "stealer_ok (d\<lparr> top := top d + 1 \<rparr>) l' pc"
  by (rule stealer_mono [OF assms]) auto

lemma stealer_limit:
  assumes "stealer_ok d l pc" "top d < l \<Longrightarrow> top d < l'"
  shows "stealer_ok (d\<lparr> bottom := c \<rparr>) l' pc" "stealer_ok d l' pc"
  by (rule stealer_mono [OF assms(1)], use assms(2) in auto)+

lemma live_bottom [simp]: "ws_live (d\<lparr> bottom := c \<rparr>) l = ws_live d l"
  by (simp add: ws_live_def)

lemma core_bottom [simp]: "ws_core (d\<lparr> bottom := c \<rparr>) l = ws_core d l"
  by (simp add: ws_core_def)

lemma inv_set_stealer:
  assumes "ws_inv s" "stealer_ok (deque s) (limit s) pc"
  shows "ws_inv (set_stealer k pc s)"
  using assms by (simp add: ws_inv_alt set_stealer_def limit_def)

lemma inv_steal_win:
  assumes inv: "ws_inv s" and k: "stealers s k = S_Item (top (deque s)) item"
  shows "ws_inv (s\<lparr> deque := (deque s)\<lparr> top := top (deque s) + 1 \<rparr>, taken := taken s @ [item] \<rparr>)"
proof -
  note al = inv [unfolded ws_inv_alt]
  let ?d = "(deque s)\<lparr> top := top (deque s) + 1 \<rparr>"
  have "stealer_ok (deque s) (limit s) (stealers s k)" using al by blast
  then have t: "top (deque s) < limit s" "item = array_load (cur_array (deque s)) (top (deque s))" using k by simp_all
  have "stealer_ok ?d (limit s) (stealers s j)" for j by (rule stealer_after_win) (use al in blast)
  moreover have "owner_ok ?d (owner s)" using al t(1) by (cases "owner s") (auto simp: limit_def)
  moreover have "ws_core ?d (limit s)" using al t(1) by (auto simp: ws_core_def)
  moreover have "limit (s\<lparr> deque := ?d, taken := taken s @ [item] \<rparr>) = limit s" by (simp add: limit_def)
  ultimately show ?thesis using al ws_live_Cons [OF t(1)] t(2) unfolding ws_inv_alt by simp
qed

lemma ws_inv_step:
  assumes inv: "ws_inv s" and st: "ws_step s s'"
  shows "ws_inv s'"
proof -
  note al = inv [unfolded ws_inv_alt]
  show ?thesis
    using st
  proof cases
    case (push_begin b t x)
    then show ?thesis using al by (auto simp: ws_inv_alt limit_def ws_core_def)
  next
    case (push_resize x b t)
    then show ?thesis using inv_push_resize [OF inv] by simp
  next
    case (push_store x b)
    then show ?thesis using inv_push_store [OF inv] by simp
  next
    case (push_publish x b)
    have l: "limit s = b" "limit s' = b + 1" using push_publish al by (auto simp: limit_def)
    have "stealer_ok (deque s') (b + 1) (stealers s k)" for k
      using stealer_limit(1) [of "deque s" b "stealers s k" "b + 1"] al l push_publish(1) by simp
    moreover have "ws_core (deque s) (b + 1)" using al push_publish l by (auto simp: ws_core_def)
    moreover have "ws_live (deque s) (b + 1) = ws_live (deque s) b @ [Some x]"
      using ws_live_snoc [of "deque s" b] al push_publish l by (auto simp: ws_core_def)
    ultimately show ?thesis using al l push_publish unfolding ws_inv_alt by simp
  next
    case (pop_decrement b)
    have l: "limit s = b + 1" "limit s' = b + 1" using pop_decrement by (auto simp: limit_def)
    have "stealer_ok (deque s') (b + 1) (stealers s k)" for k
      using stealer_limit(1) [of "deque s" "b + 1" "stealers s k" "b + 1"] al l pop_decrement(1) by simp
    then show ?thesis using al l pop_decrement unfolding ws_inv_alt by simp
  next
    case (pop_take b)
    have l: "limit s = b + 1" "limit s' = b" using pop_take al by (auto simp: limit_def)
    have "stealer_ok (deque s) b (stealers s k)" for k
      by (rule stealer_limit(2) [of _ "limit s"]) (use al pop_take in auto)
    moreover have "ws_live (deque s) (b + 1) = ws_live (deque s) b @ [array_load (cur_array (deque s)) b]"
      using ws_live_snoc [of "deque s" b] pop_take by simp
    ultimately show ?thesis using al l pop_take unfolding ws_inv_alt by (simp add: ws_core_def)
  next
    case (pop_last b)
    then show ?thesis using al by (auto simp: ws_inv_alt limit_def)
  next
    case (pop_empty b)
    then show ?thesis using al by (auto simp: ws_inv_alt limit_def ws_core_def)
  next
    case (pop_win b item)
    have l: "limit s = b + 1" "limit s' = b + 1" using pop_win al by (auto simp: limit_def)
    have d: "deque s' = (deque s)\<lparr> top := top (deque s) + 1 \<rparr>" using pop_win by simp
    have "stealer_ok (deque s') (b + 1) (stealers s k)" for k
      unfolding d by (rule stealer_after_win) (use al in blast)
    moreover have "ws_live (deque s) (b + 1) = item # ws_live (deque s') (b + 1)"
      using ws_live_Cons [of "deque s" "b + 1"] pop_win al by (simp add: d)
    ultimately show ?thesis using al l pop_win unfolding ws_inv_alt by (simp add: ws_core_def)
  next
    case (pop_lose b item)
    then show ?thesis using al by (auto simp: ws_inv_alt limit_def ws_core_def)
  next
    case (pop_restore b)
    have l: "limit s = b + 1" "limit s' = b + 1" using pop_restore al by (auto simp: limit_def)
    have "stealer_ok (deque s') (b + 1) (stealers s k)" for k
      using stealer_limit(1) [of "deque s" "b + 1" "stealers s k" "b + 1"] al l pop_restore(1) by simp
    then show ?thesis using al l pop_restore unfolding ws_inv_alt by auto
  next
    case (steal_top k)
    then show ?thesis using inv_set_stealer [OF inv] by simp
  next
    case (steal_bottom k t)
    have "bottom (deque s) \<le> limit s" by (simp add: limit_def split: owner.splits)
    then show ?thesis using steal_bottom al inv_set_stealer [OF inv] by (auto dest!: spec [of _ k])
  next
    case (steal_array k t)
    have "arrays (deque s) ! (length (arrays (deque s)) - 1) = cur_array (deque s)" "arrays (deque s) \<noteq> []"
      using al by (auto simp: ws_core_def cur_array_def last_conv_nth)
    moreover have "stealer_ok (deque s) (limit s) (stealers s k)" using al by blast
    ultimately show ?thesis using steal_array inv_set_stealer [OF inv] by auto
  next
    case (steal_item k t a)
    have "stealer_ok (deque s) (limit s) (stealers s k)" using al by blast
    then show ?thesis using steal_item inv_set_stealer [OF inv] by auto
  next
    case (steal_win k t item)
    have "ws_inv (s\<lparr> deque := (deque s)\<lparr> top := t + 1 \<rparr>, taken := taken s @ [item] \<rparr>)"
      using inv_steal_win [OF inv, of k item] steal_win by simp
    from inv_set_stealer [OF this, of S_Idle k] show ?thesis using steal_win by simp
  next
    case (steal_lose k t item)
    then show ?thesis using inv_set_stealer [OF inv] by simp
  qed
qed

interpretation deque_inv: inductive_invariant ws_init ws_step ws_inv
proof
  fix s :: "'a ws_sys" assume "ws_init s"
  then show "ws_inv s"
    using array_new_ok by (auto simp: ws_init_def ws_inv_def ws_new_def limit_def cur_array_def array_new_def [of "0 :: int"])
      (auto simp: array_new_def)
qed (rule ws_inv_step)

section \<open>Properties\<close>

datatype 'a ws_op = Ws_Push 'a | Ws_Pop | Ws_Steal

fun ws_run :: "'a ws_op list \<Rightarrow> 'a WorkStealingDeque \<Rightarrow> 'a option list" where
  "ws_run [] d = []"
| "ws_run (Ws_Push x # cs) d = ws_run cs (ws_push x d)"
| "ws_run (Ws_Pop # cs) d = (let (r, d') = ws_pop d in r # ws_run cs d')"
| "ws_run (Ws_Steal # cs) d = (let (r, d') = ws_steal d in r # ws_run cs d')"

fun list_run :: "'a ws_op list \<Rightarrow> 'a list \<Rightarrow> 'a option list" where
  "list_run [] xs = []"
| "list_run (Ws_Push x # cs) xs = list_run cs (xs @ [x])"
| "list_run (Ws_Pop # cs) xs = (if xs = [] then None # list_run cs [] else Some (last xs) # list_run cs (butlast xs))"
| "list_run (Ws_Steal # cs) xs = (if xs = [] then None # list_run cs [] else Some (hd xs) # list_run cs (tl xs))"

lemma ws_run_list: "ws_ok d \<Longrightarrow> ws_run cs d = list_run cs (ws_list d)"
proof (induction cs arbitrary: d)
  case (Cons c cs)
  show ?case
  proof (cases c)
    case (Ws_Push x)
    then show ?thesis using Cons.IH [of "ws_push x d"] ws_push_spec [OF Cons.prems, of x] by simp
  next
    case Ws_Pop
    obtain r d' where pop: "ws_pop d = (r, d')" by fastforce
    have sp: "ws_ok d'" "if ws_list d = [] then r = None \<and> d' = d else r = Some (last (ws_list d)) \<and> ws_list d' = butlast (ws_list d)"
      using ws_pop_spec [OF Cons.prems] pop by (auto split: if_splits)
    then show ?thesis using Ws_Pop pop Cons.IH [OF sp(1)] by (auto split: if_splits)
  next
    case Ws_Steal
    obtain r d' where st: "ws_steal d = (r, d')" by fastforce
    have sp: "ws_ok d'" "if ws_list d = [] then r = None \<and> d' = d else r = Some (hd (ws_list d)) \<and> ws_list d' = tl (ws_list d)"
      using ws_steal_spec [OF Cons.prems] st by (auto split: if_splits)
    then show ?thesis using Ws_Steal st Cons.IH [OF sp(1)] by (auto split: if_splits)
  qed
qed simp

lemma ws_new_ok: "cap > 0 \<Longrightarrow> cap AND (cap - 1) = 0 \<Longrightarrow>
    ws_ok (ws_new cap :: 'a WorkStealingDeque) \<and> ws_list (ws_new cap :: 'a WorkStealingDeque) = []"
  using array_new_ok [of cap, where ?'a = 'a] by (auto simp: ws_ok_def ws_new_def cur_array_def ws_list_def array_new_def)

text \<open>
  Under sequential calls the deque answers like a list: \<^verbatim>\<open>push\<close> appends, \<^verbatim>\<open>pop\<close> returns and removes the youngest
  element and \<^verbatim>\<open>steal\<close> the oldest, both return nothing exactly when it is empty, and no growth of
  the array loses or reorders an element. The capacity is a positive power of two, as the constructor asserts.
\<close>

theorem ws_refines_list:
  assumes "cap > 0" and "cap AND (cap - 1) = 0"
  shows "ws_run cs (ws_new cap) = list_run cs []"
  using ws_run_list [OF conjunct1 [OF ws_new_ok [OF assms]], of cs] by (simp add: ws_new_ok [OF assms])

theorem ws_refines_list_witness:
  "ws_run [Ws_Push 1, Ws_Push 2, Ws_Push (3 :: nat), Ws_Steal, Ws_Pop, Ws_Pop, Ws_Pop] (ws_new 2) = [Some 1, Some 3, Some 2, None]"
  using ws_refines_list [of 2 "[Ws_Push 1, Ws_Push 2, Ws_Push (3 :: nat), Ws_Steal, Ws_Pop, Ws_Pop, Ws_Pop]"] by simp



text \<open>
  The elements are not atomic. A stealer that has loaded \<^verbatim>\<open>top_\<close> and then falls behind is about to copy an element from a slot that the owner is about to overwrite with the next one: the swap will reject the copy, but the copy itself
  races with the store. For element types that are not copied by one machine word it is torn.
\<close>

theorem ws_element_race:
  "\<exists>s :: nat ws_sys. reach ws_init ws_step s \<and> stealers s 0 = S_Array 0 0 \<and> owner s = P_Store 6 1 \<and>
     arrays (deque s) ! 0 = cur_array (deque s) \<and> slot_index (cur_array (deque s)) 0 = slot_index (cur_array (deque s)) 1"
proof -
  let ?R = "reach ws_init ws_step"
  let ?S = "\<lambda>t b xs pc k ps tk. \<lparr> deque = \<lparr> top = t, bottom = b, arrays = [\<lparr> capacity = 1, storage = [xs] \<rparr>] \<rparr>, owner = pc, stealers = (\<lambda>k. S_Idle)(0 := k), pushed = ps, taken = tk \<rparr> :: nat ws_sys"
  note ev = cur_array_def put_array_def array_store_def array_load_def slot_index_def set_stealer_def
  have go: "?R s'" if "?R s" "ws_step s r" "r = s'" for s r s' using that by (auto intro: reach_step)
  have "?R (?S 0 0 None P_Idle S_Idle [] [])"
    by (rule reach_init) (auto simp: ws_init_def ws_new_def array_new_def fun_eq_iff intro!: exI [of _ 1])
  then have "?R (?S 0 0 None (P_Store 5 0) S_Idle [] [])" by (rule go [OF _ push_begin [where x = 5 and b = 0 and t = 0]]) (simp_all add: ev)
  then have "?R (?S 0 0 (Some 5) (P_Bottom 5 0) S_Idle [] [])" by (rule go [OF _ push_store]) (simp_all add: ev)
  then have "?R (?S 0 1 (Some 5) P_Idle S_Idle [5] [])" by (rule go [OF _ push_publish]) simp_all
  then have "?R (?S 0 1 (Some 5) P_Idle (S_Top 0) [5] [])" by (rule go [OF _ steal_top [where k = 0]]) (simp_all add: ev)
  then have "?R (?S 0 1 (Some 5) P_Idle (S_Bottom 0) [5] [])" by (rule go [OF _ steal_bottom [where k = 0 and t = 0]]) (simp_all add: ev)
  then have "?R (?S 0 1 (Some 5) P_Idle (S_Array 0 0) [5] [])" by (rule go [OF _ steal_array [where k = 0]]) (simp_all add: ev)
  then have "?R (?S 0 0 (Some 5) (Q_Top 0) (S_Array 0 0) [5] [])" by (rule go [OF _ pop_decrement [where b = 0]]) simp_all
  then have "?R (?S 0 0 (Some 5) (Q_Cas 0 (Some 5)) (S_Array 0 0) [5] [])" by (rule go [OF _ pop_last]) (simp_all add: ev)
  then have "?R (?S 1 0 (Some 5) (Q_Restore 0) (S_Array 0 0) [5] [Some 5])" by (rule go [OF _ pop_win]) simp_all
  then have "?R (?S 1 1 (Some 5) P_Idle (S_Array 0 0) [5] [Some 5])" by (rule go [OF _ pop_restore]) simp_all
  then have "?R (?S 1 1 (Some 5) (P_Store 6 1) (S_Array 0 0) [5] [Some 5])" by (rule go [OF _ push_begin [where x = 6 and b = 1 and t = 1]]) (simp_all add: ev)
  then show ?thesis by (intro exI conjI) (assumption, simp_all add: ev)
qed

end
