(* ===== verification/Ownership.thy ===== *)
theory Ownership
  imports Prelude
begin

text \<open>
  Unique ownership, shared by messages (which own heap blocks) and tasks (which own coroutine frames): a map
  from objects to the resource they hold, in which every resource of a set has exactly one holder,
  and the three ways in which it changes.
\<close>

definition own_ok :: "('i \<rightharpoonup> 'r) \<Rightarrow> 'r set \<Rightarrow> bool" where
  "own_ok f D \<longleftrightarrow> (\<forall>i j p. f i = Some p \<longrightarrow> f j = Some p \<longrightarrow> i = j) \<and> (\<forall>p. p \<in> D \<longleftrightarrow> (\<exists>i. f i = Some p))"

lemma own_free:
  assumes "own_ok f D" "f i = Some p"
  shows "own_ok (f(i := None)) (D - {p})"
proof -
  have inj: "\<And>j q. f i = Some q \<Longrightarrow> f j = Some q \<Longrightarrow> j = i" and mem: "\<And>q. q \<in> D \<longleftrightarrow> (\<exists>j. f j = Some q)"
    using assms(1) unfolding own_ok_def by blast+
  have "q \<in> D - {p} \<longleftrightarrow> (\<exists>j. (f(i := None)) j = Some q)" for q
  proof
    assume q: "q \<in> D - {p}"
    then obtain j where "f j = Some q" using mem [of q] by blast
    moreover from this have "j \<noteq> i" using q assms(2) by auto
    ultimately show "\<exists>j. (f(i := None)) j = Some q" by (intro exI [of _ j]) simp
  next
    assume "\<exists>j. (f(i := None)) j = Some q"
    then obtain j where "j \<noteq> i" "f j = Some q" by (auto split: if_splits)
    then show "q \<in> D - {p}" using mem [of q] inj [of q j] assms(2) by auto
  qed
  then show ?thesis using assms(1) unfolding own_ok_def by (auto split: if_splits)
qed

lemma own_alloc:
  assumes "own_ok f D" "f i = None" "p \<notin> D"
  shows "own_ok (f(i \<mapsto> p)) (insert p D)"
proof -
  have mem: "\<And>q. q \<in> D \<longleftrightarrow> (\<exists>j. f j = Some q)" using assms(1) unfolding own_ok_def by blast
  have "q \<in> insert p D \<longleftrightarrow> (\<exists>j. (f(i \<mapsto> p)) j = Some q)" for q
  proof
    assume "q \<in> insert p D"
    then show "\<exists>j. (f(i \<mapsto> p)) j = Some q"
    proof
      assume "q \<in> D"
      then obtain j where j: "f j = Some q" using mem [of q] by blast
      then have "j \<noteq> i" using assms(2) by auto
      then show ?thesis using j by (intro exI [of _ j]) simp
    qed (auto intro: exI [of _ i])
  next
    assume "\<exists>j. (f(i \<mapsto> p)) j = Some q"
    then show "q \<in> insert p D" using mem [of q] by (auto split: if_splits)
  qed
  moreover have "f j \<noteq> Some p" for j using mem [of p] assms(3) by blast
  ultimately show ?thesis using assms(1) unfolding own_ok_def by (auto split: if_splits)
qed

lemma own_move:
  assumes "own_ok f D" "f i = None" "f j = Some p"
  shows "own_ok (f(i \<mapsto> p, j := None)) D"
proof -
  have ij: "i \<noteq> j" using assms(2,3) by auto
  have dp: "p \<in> D" using assms unfolding own_ok_def by blast
  have "own_ok ((f(j := None))(i \<mapsto> p)) (insert p (D - {p}))"
    by (rule own_alloc [OF own_free [OF assms(1,3)]]) (use assms(2) in auto)
  moreover have "(f(j := None))(i \<mapsto> p) = f(i \<mapsto> p, j := None)" using ij by (simp add: fun_upd_twist)
  moreover have "insert p (D - {p}) = D" using dp by blast
  ultimately show ?thesis by simp
qed

end
