(* ===== verification/Actor.thy ===== *)
theory Actor
  imports Registry Bounded_Queue Ownership
begin

text \<open>
  \<^verbatim>\<open>actor/actor.hpp\<close> and \<^verbatim>\<open>.cpp\<close> (messages), \<^verbatim>\<open>actor/mailbox.hpp\<close> and \<^verbatim>\<open>actor/registry.hpp\<close>. A message is a union of 48 inline bytes
  with a pointer and a size in its first sixteen; messages are objects in a store, so that aliasing is
  visible, and the heap maps the start of each allocated block to its bytes. \<^verbatim>\<open>std::malloc\<close> is a parameter.
\<close>

section \<open>Messages\<close>

definition INLINE_SIZE :: nat where "INLINE_SIZE = 48"

record Message =
  type_id :: u32
  sender_shard :: u32
  sender_id :: u64
  raw :: "u8 list"
  is_inline :: bool

type_synonym heap = "u64 \<rightharpoonup> u8 list"

datatype fault = Aborted | Bad_Free | Bad_Read

definition heap_ptr :: "Message \<Rightarrow> u64" where "heap_ptr m = le_word (take 8 (raw m))"

definition heap_size :: "Message \<Rightarrow> u64" where "heap_size m = le_word (take 8 (drop 8 (raw m)))"

definition set_heap_data :: "u64 \<Rightarrow> u64 \<Rightarrow> Message \<Rightarrow> Message" where
  "set_heap_data p n m = m\<lparr> raw := le_bytes 8 p @ le_bytes 8 n @ drop 16 (raw m) \<rparr>"

definition msg_new :: Message where
  "msg_new = \<lparr> type_id = 0, sender_shard = 0, sender_id = 0, raw = replicate INLINE_SIZE 0, is_inline = True \<rparr>"

definition msg_destroy :: "heap \<Rightarrow> Message \<Rightarrow> fault + heap \<times> Message" where
  "msg_destroy h m =
     (if \<not> is_inline m \<and> heap_ptr m \<noteq> 0 then
        (if h (heap_ptr m) = None then Inl Bad_Free
         else Inr (h(heap_ptr m := None), (set_heap_data 0 0 m)\<lparr> is_inline := True \<rparr>))
      else Inr (h, m))"

text \<open>Allocation and copy of a payload that does not fit inline.\<close>

definition msg_allocate :: "(heap \<Rightarrow> nat \<Rightarrow> u64 option) \<Rightarrow> heap \<Rightarrow> Message \<Rightarrow> u8 list \<Rightarrow> fault + heap \<times> Message" where
  "msg_allocate malloc h m bytes =
     (case malloc h (length bytes) of
        None \<Rightarrow> Inl Aborted
      | Some p \<Rightarrow> Inr (h(p \<mapsto> bytes), (set_heap_data p (of_nat (length bytes)) m)\<lparr> is_inline := False \<rparr>))"

definition msg_set :: "(heap \<Rightarrow> nat \<Rightarrow> u64 option) \<Rightarrow> heap \<Rightarrow> Message \<Rightarrow> u8 list \<Rightarrow> fault + heap \<times> Message" where
  "msg_set malloc h m bytes =
     (case msg_destroy h m of
        Inl e \<Rightarrow> Inl e
      | Inr (h1, m1) \<Rightarrow>
          if length bytes \<le> INLINE_SIZE then Inr (h1, m1\<lparr> raw := blit 0 bytes (raw m1), is_inline := True \<rparr>)
          else msg_allocate malloc h1 m1 bytes)"

text \<open>\<open>as\<close> reads the object at the start of the payload.\<close>

definition msg_as :: "heap \<Rightarrow> Message \<Rightarrow> nat \<Rightarrow> fault + u8 list" where
  "msg_as h m n =
     (if is_inline m then (if n \<le> INLINE_SIZE then Inr (take n (raw m)) else Inl Bad_Read)
      else case h (heap_ptr m) of None \<Rightarrow> Inl Bad_Read | Some bs \<Rightarrow> if n \<le> length bs then Inr (take n bs) else Inl Bad_Read)"

text \<open>The part that copy construction and copy assignment share: \<open>m\<close> holds nothing, \<open>src\<close> is copied into it.\<close>

definition msg_copy_into :: "(heap \<Rightarrow> nat \<Rightarrow> u64 option) \<Rightarrow> heap \<Rightarrow> Message \<Rightarrow> Message \<Rightarrow> fault + heap \<times> Message" where
  "msg_copy_into malloc h m src =
     (let m1 = m\<lparr> type_id := type_id src, sender_shard := sender_shard src, sender_id := sender_id src, is_inline := is_inline src \<rparr> in
      if is_inline src then Inr (h, m1\<lparr> raw := raw src \<rparr>)
      else case h (heap_ptr src) of
          None \<Rightarrow> Inl Bad_Read
        | Some bs \<Rightarrow> if unat (heap_size src) > length bs then Inl Bad_Read
                     else msg_allocate malloc h m1 (take (unat (heap_size src)) bs))"

definition msg_copy_assign :: "(heap \<Rightarrow> nat \<Rightarrow> u64 option) \<Rightarrow> heap \<Rightarrow> Message \<Rightarrow> Message \<Rightarrow> fault + heap \<times> Message" where
  "msg_copy_assign malloc h m src =
     (case msg_destroy h m of Inl e \<Rightarrow> Inl e | Inr (h1, m1) \<Rightarrow> msg_copy_into malloc h1 m1 src)"

text \<open>Moving: the new target and what is left of the source.\<close>

definition msg_move_into :: "Message \<Rightarrow> Message \<Rightarrow> Message \<times> Message" where
  "msg_move_into m src =
     (let m1 = m\<lparr> type_id := type_id src, sender_shard := sender_shard src, sender_id := sender_id src, is_inline := is_inline src \<rparr> in
      if is_inline src then (m1\<lparr> raw := raw src \<rparr>, src)
      else (set_heap_data (heap_ptr src) (heap_size src) m1, src\<lparr> is_inline := True, raw := replicate INLINE_SIZE 0 \<rparr>))"

definition msg_move_assign :: "heap \<Rightarrow> Message \<Rightarrow> Message \<Rightarrow> fault + heap \<times> Message \<times> Message" where
  "msg_move_assign h m src =
     (case msg_destroy h m of
        Inl e \<Rightarrow> Inl e
      | Inr (h1, m1) \<Rightarrow> (case msg_move_into m1 src of (m2, src') \<Rightarrow> Inr (h1, m2, src')))"

section \<open>Objects\<close>

text \<open>
  The calls a program makes on message objects. Constructors need an unused object, everything else
  live ones; a call outside its precondition is not a program of this kind and does nothing.
\<close>

record msg_sys =
  mem :: heap
  objs :: "nat \<rightharpoonup> Message"

datatype msg_op = New nat | Copy nat nat | Copy_Assign nat nat | Move nat nat | Move_Assign nat nat
  | Set nat "u8 list" | Delete nat

definition put :: "nat \<Rightarrow> fault + heap \<times> Message \<Rightarrow> msg_sys \<Rightarrow> fault + msg_sys" where
  "put i r s = (case r of Inl e \<Rightarrow> Inl e | Inr (h, m) \<Rightarrow> Inr \<lparr> mem = h, objs = (objs s)(i \<mapsto> m) \<rparr>)"

fun msg_step :: "(heap \<Rightarrow> nat \<Rightarrow> u64 option) \<Rightarrow> msg_op \<Rightarrow> msg_sys \<Rightarrow> fault + msg_sys" where
  "msg_step malloc (New i) s = (if objs s i = None then put i (Inr (mem s, msg_new)) s else Inr s)"
| "msg_step malloc (Copy i j) s =
     (case (objs s i, objs s j) of (None, Some src) \<Rightarrow> put i (msg_copy_into malloc (mem s) msg_new src) s | _ \<Rightarrow> Inr s)"
| "msg_step malloc (Copy_Assign i j) s =
     (case (objs s i, objs s j) of
        (Some m, Some src) \<Rightarrow> if i = j then Inr s else put i (msg_copy_assign malloc (mem s) m src) s
      | _ \<Rightarrow> Inr s)"
| "msg_step malloc (Move i j) s =
     (case (objs s i, objs s j) of
        (None, Some src) \<Rightarrow> (case msg_move_into msg_new src of (m, src') \<Rightarrow> Inr (s\<lparr> objs := (objs s)(i \<mapsto> m, j \<mapsto> src') \<rparr>))
      | _ \<Rightarrow> Inr s)"
| "msg_step malloc (Move_Assign i j) s =
     (case (objs s i, objs s j) of
        (Some m, Some src) \<Rightarrow>
          if i = j then Inr s
          else (case msg_move_assign (mem s) m src of
              Inl e \<Rightarrow> Inl e
            | Inr (h, m', src') \<Rightarrow> Inr \<lparr> mem = h, objs = (objs s)(i \<mapsto> m', j \<mapsto> src') \<rparr>)
      | _ \<Rightarrow> Inr s)"
| "msg_step malloc (Set i bytes) s =
     (case objs s i of Some m \<Rightarrow> put i (msg_set malloc (mem s) m bytes) s | None \<Rightarrow> Inr s)"
| "msg_step malloc (Delete i) s =
     (case objs s i of
        Some m \<Rightarrow> (case msg_destroy (mem s) m of Inl e \<Rightarrow> Inl e | Inr (h, m') \<Rightarrow> Inr \<lparr> mem = h, objs = (objs s)(i := None) \<rparr>)
      | None \<Rightarrow> Inr s)"

fun msg_run :: "(heap \<Rightarrow> nat \<Rightarrow> u64 option) \<Rightarrow> msg_op list \<Rightarrow> msg_sys \<Rightarrow> fault + msg_sys" where
  "msg_run malloc [] s = Inr s"
| "msg_run malloc (c # cs) s = (case msg_step malloc c s of Inl e \<Rightarrow> Inl e | Inr s' \<Rightarrow> msg_run malloc cs s')"

section \<open>Ownership of blocks\<close>

definition owned :: "Message \<Rightarrow> u64 option" where
  "owned m = (if is_inline m then None else Some (heap_ptr m))"

definition msg_ok :: "heap \<Rightarrow> Message \<Rightarrow> bool" where
  "msg_ok h m \<longleftrightarrow> length (raw m) = INLINE_SIZE \<and>
     (\<not> is_inline m \<longrightarrow> heap_ptr m \<noteq> 0 \<and> (\<exists>bs. h (heap_ptr m) = Some bs \<and> length bs = unat (heap_size m)))"

text \<open>Every block has exactly one owner.\<close>

definition owners :: "msg_sys \<Rightarrow> nat \<rightharpoonup> u64" where
  "owners s i = Option.bind (objs s i) owned"

definition msg_sys_ok :: "msg_sys \<Rightarrow> bool" where
  "msg_sys_ok s \<longleftrightarrow> (\<forall>i m. objs s i = Some m \<longrightarrow> msg_ok (mem s) m) \<and> own_ok (owners s) (dom (mem s))"

text \<open>The documented behaviour of \<^verbatim>\<open>malloc\<close>: a block that is returned is not null, was not allocated, and its size is a \<^verbatim>\<open>size_t\<close>.\<close>

definition malloc_ok :: "(heap \<Rightarrow> nat \<Rightarrow> u64 option) \<Rightarrow> bool" where
  "malloc_ok malloc \<longleftrightarrow> (\<forall>h n p. malloc h n = Some p \<longrightarrow> p \<noteq> 0 \<and> h p = None \<and> n < 2 ^ 64)"

lemma sys_eta [simp]: "\<lparr> mem = mem s, objs = objs s \<rparr> = s"
  by simp

lemma set_heap_data_simps [simp]:
  "heap_ptr (set_heap_data p n m) = p" "heap_size (set_heap_data p n m) = n"
  "is_inline (set_heap_data p n m) = is_inline m" "length (raw m) = INLINE_SIZE \<Longrightarrow> length (raw (set_heap_data p n m)) = INLINE_SIZE"
proof -
  have "le_word (le_bytes 8 x) = (x :: u64)" for x by (rule le_word_le_bytes) simp
  then show "heap_ptr (set_heap_data p n m) = p" "heap_size (set_heap_data p n m) = n"
    by (simp_all add: heap_ptr_def heap_size_def set_heap_data_def)
qed (simp_all add: set_heap_data_def INLINE_SIZE_def)

lemma heap_ptr_inline [simp]: "heap_ptr (m\<lparr> is_inline := b \<rparr>) = heap_ptr m" "heap_size (m\<lparr> is_inline := b \<rparr>) = heap_size m"
  by (simp_all add: heap_ptr_def heap_size_def)

lemma owners_upd: "owners \<lparr> mem = h, objs = (objs s)(i \<mapsto> m) \<rparr> = (owners s)(i := owned m)"
    "owners \<lparr> mem = h, objs = (objs s)(i := None) \<rparr> = (owners s)(i := None)"
  by (auto simp: owners_def fun_eq_iff)

lemma msg_sys_okI:
  assumes "\<And>i m. objs s i = Some m \<Longrightarrow> msg_ok (mem s) m" "own_ok (owners s) (dom (mem s))"
  shows "msg_sys_ok s"
  using assms by (auto simp: msg_sys_ok_def own_ok_def)

lemma msg_sys_okD:
  assumes "msg_sys_ok s"
  shows "objs s i = Some m \<Longrightarrow> msg_ok (mem s) m" "own_ok (owners s) (dom (mem s))"
    "objs s i = Some m \<Longrightarrow> owned m = Some p \<Longrightarrow> objs s j = Some m' \<Longrightarrow> owned m' = Some p \<Longrightarrow> i = j"
proof -
  show "objs s i = Some m \<Longrightarrow> msg_ok (mem s) m" "own_ok (owners s) (dom (mem s))"
    using assms by (auto simp: msg_sys_ok_def own_ok_def)
  assume "objs s i = Some m" "owned m = Some p" "objs s j = Some m'" "owned m' = Some p"
  then have "owners s i = Some p" "owners s j = Some p" by (simp_all add: owners_def)
  then show "i = j" using assms unfolding msg_sys_ok_def own_ok_def by blast
qed

text \<open>The primitive changes: give up a block, hold inline bytes, take a new block, hand a block over.\<close>

lemma sys_destroy:
  assumes ok: "msg_sys_ok s" and i: "objs s i = Some m"
  shows "\<exists>h m'. msg_destroy (mem s) m = Inr (h, m') \<and> is_inline m' \<and> length (raw m') = INLINE_SIZE \<and>
    msg_sys_ok \<lparr> mem = h, objs = (objs s)(i \<mapsto> m') \<rparr>"
proof (cases "is_inline m")
  case True
  then have "msg_destroy (mem s) m = Inr (mem s, m)" by (simp add: msg_destroy_def)
  moreover have "(objs s)(i \<mapsto> m) = objs s" using i by auto
  ultimately show ?thesis using True ok msg_sys_okD(1) [OF ok i] by (auto simp: msg_ok_def)
next
  case False
  let ?p = "heap_ptr m" let ?m = "(set_heap_data 0 0 m)\<lparr> is_inline := True \<rparr>"
  have mk: "msg_ok (mem s) m" by (rule msg_sys_okD(1) [OF ok i])
  then have d: "msg_destroy (mem s) m = Inr ((mem s)(?p := None), ?m)" using False by (auto simp: msg_destroy_def msg_ok_def)
  have o: "owned m = Some ?p" using False by (simp add: owned_def)
  let ?s = "\<lparr> mem = (mem s)(?p := None), objs = (objs s)(i \<mapsto> ?m) \<rparr>"
  have "msg_sys_ok ?s"
  proof (rule msg_sys_okI)
    fix j n assume j: "objs ?s j = Some n"
    show "msg_ok (mem ?s) n"
    proof (cases "j = i")
      case True
      then show ?thesis using j mk by (auto simp: msg_ok_def)
    next
      case ne: False
      then have n: "msg_ok (mem s) n" "owned n \<noteq> Some ?p"
        using j msg_sys_okD(1) [OF ok] msg_sys_okD(3) [OF ok i o, of j n] by auto
      then show ?thesis by (auto simp: msg_ok_def owned_def split: if_splits)
    qed
  next
    have "owners s i = Some ?p" using i o by (simp add: owners_def)
    from own_free [OF msg_sys_okD(2) [OF ok] this] show "own_ok (owners ?s) (dom (mem ?s))"
      by (simp add: owners_upd owned_def)
  qed
  then show ?thesis using d mk by (simp add: msg_ok_def)
qed

lemma sys_inline:
  assumes ok: "msg_sys_ok s" and i: "owners s i = None" and m: "is_inline m" "length (raw m) = INLINE_SIZE"
  shows "msg_sys_ok \<lparr> mem = mem s, objs = (objs s)(i \<mapsto> m) \<rparr>"
proof (rule msg_sys_okI)
  show "own_ok (owners \<lparr> mem = mem s, objs = (objs s)(i \<mapsto> m) \<rparr>) (dom (mem \<lparr> mem = mem s, objs = (objs s)(i \<mapsto> m) \<rparr>))"
    using msg_sys_okD(2) [OF ok] m(1) i by (simp add: owners_upd owned_def fun_upd_idem)
qed (use msg_sys_okD(1) [OF ok] m in \<open>auto simp: msg_ok_def split: if_splits\<close>)

lemma sys_allocate:
  assumes ok: "msg_sys_ok s" and i: "owners s i = None" and m: "length (raw m) = INLINE_SIZE" and mal: "malloc_ok malloc"
  shows "msg_allocate malloc (mem s) m bytes = Inl Aborted \<or>
    (\<exists>h m'. msg_allocate malloc (mem s) m bytes = Inr (h, m') \<and> \<not> is_inline m' \<and> h (heap_ptr m') = Some bytes \<and>
      msg_sys_ok \<lparr> mem = h, objs = (objs s)(i \<mapsto> m') \<rparr>)"
proof (cases "malloc (mem s) (length bytes)")
  case None
  then show ?thesis by (simp add: msg_allocate_def)
next
  case (Some p)
  then have p: "p \<noteq> 0" "mem s p = None" "length bytes < 2 ^ 64" using mal unfolding malloc_ok_def by blast+
  let ?m = "(set_heap_data p (of_nat (length bytes)) m)\<lparr> is_inline := False \<rparr>"
  let ?s = "\<lparr> mem = (mem s)(p \<mapsto> bytes), objs = (objs s)(i \<mapsto> ?m) \<rparr>"
  have "msg_ok (mem ?s) n" if "objs ?s j = Some n" for j n
  proof (cases "j = i")
    case True
    then show ?thesis using that p m by (auto simp: msg_ok_def unat_of_nat)
  next
    case False
    then have "msg_ok (mem s) n" using that msg_sys_okD(1) [OF ok] by simp
    then show ?thesis using p(2) by (auto simp: msg_ok_def)
  qed
  moreover have "own_ok (owners ?s) (dom (mem ?s))"
    using own_alloc [OF msg_sys_okD(2) [OF ok] i, of p] p(2) by (simp add: owners_upd owned_def domIff)
  ultimately have "msg_sys_ok ?s" by (rule msg_sys_okI)
  then show ?thesis using Some by (simp add: msg_allocate_def)
qed

lemma sys_move:
  assumes ok: "msg_sys_ok s" and i: "owners s i = None" and j: "objs s j = Some src" and ij: "i \<noteq> j"
    and m: "length (raw m) = INLINE_SIZE" and mv: "msg_move_into m src = (m', src')"
  shows "msg_sys_ok \<lparr> mem = mem s, objs = (objs s)(i \<mapsto> m', j \<mapsto> src') \<rparr>"
proof -
  let ?s = "\<lparr> mem = mem s, objs = (objs s)(i \<mapsto> m', j \<mapsto> src') \<rparr>"
  have src: "msg_ok (mem s) src" by (rule msg_sys_okD(1) [OF ok j])
  have o: "owned m' = owned src" "owned src' = None" "msg_ok (mem s) m'" "msg_ok (mem s) src'"
    using mv src m by (auto simp: msg_move_into_def owned_def msg_ok_def Let_def INLINE_SIZE_def heap_ptr_def heap_size_def set_heap_data_def
        split: if_splits)
  have own: "owners ?s = (owners s)(i := owned src, j := None)"
    using o ij by (auto simp: owners_def fun_eq_iff)
  have "own_ok (owners ?s) (dom (mem s))"
  proof (cases "owned src")
    case None
    then have "owners s j = None" using j by (simp add: owners_def)
    then have "owners ?s = owners s" using i None unfolding own by auto
    then show ?thesis using msg_sys_okD(2) [OF ok] by simp
  next
    case (Some p)
    then have "owners s j = Some p" using j by (simp add: owners_def)
    then show ?thesis using own_move [OF msg_sys_okD(2) [OF ok] i] Some unfolding own by simp
  qed
  then show ?thesis using msg_sys_okD(1) [OF ok] o by (intro msg_sys_okI) (auto split: if_splits)
qed

lemma msg_new_simps [simp]: "length (raw msg_new) = INLINE_SIZE" "is_inline msg_new"
  by (simp_all add: msg_new_def)

lemma sys_copy:
  assumes ok: "msg_sys_ok s" and i: "owners s i = None" and j: "objs s j = Some src"
    and m: "length (raw m) = INLINE_SIZE" and mal: "malloc_ok malloc"
  shows "msg_copy_into malloc (mem s) m src = Inl Aborted \<or>
    (\<exists>h m'. msg_copy_into malloc (mem s) m src = Inr (h, m') \<and> msg_sys_ok \<lparr> mem = h, objs = (objs s)(i \<mapsto> m') \<rparr>)"
proof -
  have src: "msg_ok (mem s) src" by (rule msg_sys_okD(1) [OF ok j])
  let ?m = "m\<lparr> type_id := type_id src, sender_shard := sender_shard src, sender_id := sender_id src, is_inline := is_inline src \<rparr>"
  show ?thesis
  proof (cases "is_inline src")
    case True
    then show ?thesis using sys_inline [OF ok i, of "?m\<lparr> raw := raw src \<rparr>"] src by (simp add: msg_copy_into_def msg_ok_def)
  next
    case False
    then obtain bs where bs: "mem s (heap_ptr src) = Some bs" "length bs = unat (heap_size src)" using src by (auto simp: msg_ok_def)
    then have "msg_copy_into malloc (mem s) m src = msg_allocate malloc (mem s) ?m bs"
      using False by (simp add: msg_copy_into_def Let_def)
    then show ?thesis using sys_allocate [OF ok i, of ?m malloc bs] m mal by auto
  qed
qed

lemma owners_inline: "is_inline m \<Longrightarrow> owners \<lparr> mem = h, objs = (objs s)(i \<mapsto> m) \<rparr> i = None"
  by (simp add: owners_def owned_def)

lemma msg_step_ok:
  assumes ok: "msg_sys_ok s" and mal: "malloc_ok malloc"
  shows "msg_step malloc c s = Inl Aborted \<or> (\<exists>s'. msg_step malloc c s = Inr s' \<and> msg_sys_ok s')"
proof (cases c)
  case (New i)
  then show ?thesis using sys_inline [OF ok, of i msg_new] ok by (auto simp: put_def owners_def)
next
  case (Copy i j)
  show ?thesis
  proof (cases "\<exists>src. objs s i = None \<and> objs s j = Some src")
    case True
    then obtain src where "objs s i = None" "objs s j = Some src" by blast
    then show ?thesis using Copy sys_copy [OF ok, of i j src msg_new malloc] mal by (auto simp: put_def owners_def)
  qed (use Copy ok in \<open>auto split: option.splits\<close>)
next
  case (Move i j)
  show ?thesis
  proof (cases "\<exists>src. objs s i = None \<and> objs s j = Some src")
    case True
    then obtain src where o: "objs s i = None" "objs s j = Some src" by blast
    obtain m' src' where mv: "msg_move_into msg_new src = (m', src')" by fastforce
    have "msg_sys_ok \<lparr> mem = mem s, objs = (objs s)(i \<mapsto> m', j \<mapsto> src') \<rparr>"
      by (rule sys_move [OF ok _ o(2) _ _ mv]) (use o in \<open>auto simp: owners_def\<close>)
    then show ?thesis using Move o mv by (cases s) simp
  qed (use Move ok in \<open>auto split: option.splits\<close>)
next
  case (Copy_Assign i j)
  show ?thesis
  proof (cases "\<exists>m src. objs s i = Some m \<and> objs s j = Some src \<and> i \<noteq> j")
    case True
    then obtain m src where o: "objs s i = Some m" "objs s j = Some src" "i \<noteq> j" by blast
    obtain h m1 where d: "msg_destroy (mem s) m = Inr (h, m1)" "is_inline m1" "length (raw m1) = INLINE_SIZE"
      "msg_sys_ok \<lparr> mem = h, objs = (objs s)(i \<mapsto> m1) \<rparr>" using sys_destroy [OF ok o(1)] by blast
    from sys_copy [OF d(4) owners_inline [OF d(2)] _ d(3) mal, of j src] show ?thesis
      using Copy_Assign o d(1) by (auto simp: put_def msg_copy_assign_def)
  qed (use Copy_Assign ok in \<open>auto split: option.splits\<close>)
next
  case (Move_Assign i j)
  show ?thesis
  proof (cases "\<exists>m src. objs s i = Some m \<and> objs s j = Some src \<and> i \<noteq> j")
    case True
    then obtain m src where o: "objs s i = Some m" "objs s j = Some src" "i \<noteq> j" by blast
    obtain h m1 where d: "msg_destroy (mem s) m = Inr (h, m1)" "is_inline m1" "length (raw m1) = INLINE_SIZE"
      "msg_sys_ok \<lparr> mem = h, objs = (objs s)(i \<mapsto> m1) \<rparr>" using sys_destroy [OF ok o(1)] by blast
    obtain m' src' where mv: "msg_move_into m1 src = (m', src')" by fastforce
    from sys_move [OF d(4) owners_inline [OF d(2)] _ o(3) d(3) mv] show ?thesis
      using Move_Assign o d(1) mv by (auto simp: msg_move_assign_def)
  qed (use Move_Assign ok in \<open>auto split: option.splits\<close>)
next
  case (Set i bytes)
  show ?thesis
  proof (cases "objs s i")
    case (Some m)
    obtain h m1 where d: "msg_destroy (mem s) m = Inr (h, m1)" "is_inline m1" "length (raw m1) = INLINE_SIZE"
      "msg_sys_ok \<lparr> mem = h, objs = (objs s)(i \<mapsto> m1) \<rparr>" using sys_destroy [OF ok Some] by blast
    show ?thesis
    proof (cases "length bytes \<le> INLINE_SIZE")
      case True
      then show ?thesis
        using sys_inline [OF d(4) owners_inline [OF d(2)], of "m1\<lparr> raw := blit 0 bytes (raw m1), is_inline := True \<rparr>"] d(1,3) Set Some
        by (auto simp: msg_set_def put_def)
    next
      case False
      from sys_allocate [OF d(4) owners_inline [OF d(2)] d(3) mal, of bytes] show ?thesis
        using False d(1) Set Some by (auto simp: msg_set_def put_def)
    qed
  qed (use Set ok in auto)
next
  case (Delete i)
  show ?thesis
  proof (cases "objs s i")
    case (Some m)
    obtain h m1 where d: "msg_destroy (mem s) m = Inr (h, m1)" "is_inline m1"
      "msg_sys_ok \<lparr> mem = h, objs = (objs s)(i \<mapsto> m1) \<rparr>" using sys_destroy [OF ok Some] by blast
    have "owners \<lparr> mem = h, objs = (objs s)(i := None) \<rparr> = owners \<lparr> mem = h, objs = (objs s)(i \<mapsto> m1) \<rparr>"
      using d(2) by (auto simp: owners_def owned_def fun_eq_iff)
    then have "msg_sys_ok \<lparr> mem = h, objs = (objs s)(i := None) \<rparr>"
      using d(3) by (auto simp: msg_sys_ok_def split: if_splits)
    then show ?thesis using Delete Some d(1) by auto
  qed (use Delete ok in auto)
qed

lemma msg_run_ok:
  "msg_sys_ok s \<Longrightarrow> malloc_ok malloc \<Longrightarrow>
     msg_run malloc cs s = Inl Aborted \<or> (\<exists>s'. msg_run malloc cs s = Inr s' \<and> msg_sys_ok s')"
proof (induction cs arbitrary: s)
  case (Cons c cs)
  from msg_step_ok [OF Cons.prems, of c] show ?case
  proof
    assume "\<exists>s'. msg_step malloc c s = Inr s' \<and> msg_sys_ok s'"
    then obtain s' where "msg_step malloc c s = Inr s'" "msg_sys_ok s'" by blast
    then show ?thesis using Cons.IH [OF _ Cons.prems(2)] by simp
  qed simp
qed simp

section \<open>What a message carries\<close>

lemma set_as:
  assumes "msg_set malloc h m bytes = Inr (h', m')" "length (raw m) = INLINE_SIZE"
  shows "msg_as h' m' (length bytes) = Inr bytes"
proof -
  obtain h1 m1 where d: "msg_destroy h m = Inr (h1, m1)" using assms(1) by (auto simp: msg_set_def split: sum.splits)
  have "length (raw m1) = INLINE_SIZE"
    using d assms(2) by (auto simp: msg_destroy_def split: if_splits)
  then show ?thesis using assms(1) d
    by (auto simp: msg_set_def msg_allocate_def msg_as_def blit_def split: if_splits option.splits)
qed

lemma copy_as:
  assumes "msg_copy_into malloc h m src = Inr (h', m')" "msg_ok h src" "malloc_ok malloc"
  shows "msg_as h' m' n = msg_as h src n" "msg_as h' src n = msg_as h src n" "msg_ok h' src"
proof -
  have "msg_as h' m' n = msg_as h src n \<and> msg_as h' src n = msg_as h src n \<and> msg_ok h' src"
  proof (cases "is_inline src")
    case True
    then show ?thesis using assms(1,2) by (auto simp: msg_copy_into_def msg_as_def Let_def)
  next
    case False
    then obtain bs where bs: "h (heap_ptr src) = Some bs" "length bs = unat (heap_size src)" using assms(2) by (auto simp: msg_ok_def)
    then obtain p where p: "malloc h (length bs) = Some p" "h' = h(p \<mapsto> bs)" "\<not> is_inline m'" "heap_ptr m' = p"
      using assms(1) False by (auto simp: msg_copy_into_def msg_allocate_def Let_def split: option.splits)
    have "h p = None" using assms(3) p(1) unfolding malloc_ok_def by blast
    then have "heap_ptr src \<noteq> p" using bs by auto
    then show ?thesis using p bs False assms(2) by (auto simp: msg_as_def msg_ok_def)
  qed
  then show "msg_as h' m' n = msg_as h src n" "msg_as h' src n = msg_as h src n" "msg_ok h' src" by auto
qed

lemma move_as:
  assumes "msg_move_into m src = (m', src')"
  shows "msg_as h m' n = msg_as h src n"
  using assms by (auto simp: msg_move_into_def msg_as_def Let_def heap_ptr_def set_heap_data_def split: if_splits)

section \<open>Mailboxes\<close>

text \<open>
  A mailbox is a bounded queue of slots, each a message object that the queue move-constructs and
  destroys. \<open>k\<close> is the object of the slot that \<^verbatim>\<open>try_push\<close> fills, \<open>j\<close> the one that receives the popped message.
\<close>

definition DEFAULT_CAPACITY :: nat where "DEFAULT_CAPACITY = 1024"

text \<open>The constructor ignores its argument except in an assertion, which release builds leave out; \<open>None\<close> is its failure.\<close>

definition mailbox_new :: "bool \<Rightarrow> size_t \<Rightarrow> nat list option" where
  "mailbox_new asserts capacity = (if asserts \<and> unat capacity \<noteq> DEFAULT_CAPACITY then None else Some [])"

definition mailbox_try_push ::
  "(heap \<Rightarrow> nat \<Rightarrow> u64 option) \<Rightarrow> nat \<Rightarrow> nat \<Rightarrow> nat list \<times> msg_sys \<Rightarrow> bool \<times> (fault + nat list \<times> msg_sys)" where
  "mailbox_try_push malloc k i b =
     (case list_push DEFAULT_CAPACITY k (fst b) of
        (True, q) \<Rightarrow> (True, map_sum id (Pair q) (msg_run malloc [Move k i] (snd b)))
      | (False, q) \<Rightarrow> (False, Inr b))"

definition mailbox_try_pop ::
  "(heap \<Rightarrow> nat \<Rightarrow> u64 option) \<Rightarrow> nat \<Rightarrow> nat list \<times> msg_sys \<Rightarrow> bool \<times> (fault + nat list \<times> msg_sys)" where
  "mailbox_try_pop malloc j b =
     (case list_pop (fst b) of
        (Some k, q) \<Rightarrow> (True, map_sum id (Pair q) (msg_run malloc [Move j k, Delete k] (snd b)))
      | (None, q) \<Rightarrow> (False, Inr b))"

text \<open>The destructor: pop into a temporary, destroy it, until the queue is empty.\<close>

fun mailbox_destroy :: "(heap \<Rightarrow> nat \<Rightarrow> u64 option) \<Rightarrow> nat \<Rightarrow> nat list \<Rightarrow> msg_sys \<Rightarrow> fault + msg_sys" where
  "mailbox_destroy malloc j [] s = Inr s"
| "mailbox_destroy malloc j (k # q) s =
     (case mailbox_try_pop malloc j (k # q, s) of
        (b, Inl e) \<Rightarrow> Inl e
      | (b, Inr (q', s')) \<Rightarrow>
          (case msg_run malloc [Delete j] s' of Inl e \<Rightarrow> Inl e | Inr s'' \<Rightarrow> mailbox_destroy malloc j q s''))"

text \<open>A release build gives 1024 places whatever was asked for.\<close>

lemma mailbox_capacity_ignored:
  assumes "mailbox_new False capacity = Some q" "length xs = DEFAULT_CAPACITY"
  shows "q = [] \<and> fst (mailbox_try_push malloc k i (xs, s)) = False"
  using assms by (simp add: mailbox_new_def mailbox_try_push_def list_push_def)

lemma pop_delete_objs:
  assumes ok: "msg_sys_ok s" and mal: "malloc_ok malloc" and j: "objs s j = None" and k: "objs s k = Some m"
  shows "\<exists>s'. msg_run malloc [Move j k, Delete k, Delete j] s = Inr s' \<and> msg_sys_ok s' \<and> objs s' = (objs s)(k := None)"
proof -
  have jk: "j \<noteq> k" using j k by auto
  obtain m1 src1 where mv: "msg_move_into msg_new m = (m1, src1)" by fastforce
  let ?s1 = "s\<lparr> objs := (objs s)(j \<mapsto> m1, k \<mapsto> src1) \<rparr>"
  have s1: "msg_step malloc (Move j k) s = Inr ?s1" using j k mv by simp
  have ok1: "msg_sys_ok ?s1" using msg_step_ok [OF ok mal, of "Move j k"] s1 by auto
  obtain h2 m2 where d2: "msg_destroy (mem ?s1) src1 = Inr (h2, m2)" using sys_destroy [OF ok1, of k src1] by auto
  let ?s2 = "\<lparr> mem = h2, objs = (objs ?s1)(k := None) \<rparr>"
  have s2: "msg_step malloc (Delete k) ?s1 = Inr ?s2" using d2 by simp
  have ok2: "msg_sys_ok ?s2" using msg_step_ok [OF ok1 mal, of "Delete k"] s2 by auto
  have j2: "objs ?s2 j = Some m1" using jk by simp
  obtain h3 m3 where d3: "msg_destroy (mem ?s2) m1 = Inr (h3, m3)" using sys_destroy [OF ok2 j2] by auto
  let ?s3 = "\<lparr> mem = h3, objs = (objs ?s2)(j := None) \<rparr>"
  have s3: "msg_step malloc (Delete j) ?s2 = Inr ?s3" using d3 j2 by simp
  have ok3: "msg_sys_ok ?s3" using msg_step_ok [OF ok2 mal, of "Delete j"] s3 by auto
  have "objs ?s3 = (objs s)(k := None)" using j jk by (auto simp: fun_eq_iff)
  then show ?thesis using s1 s2 s3 ok3 by (auto simp del: msg_step.simps)
qed

lemma mailbox_destroy_ok:
  "msg_sys_ok s \<Longrightarrow> malloc_ok malloc \<Longrightarrow> objs s j = None \<Longrightarrow> distinct q \<Longrightarrow> \<forall>k \<in> set q. objs s k \<noteq> None \<Longrightarrow>
     \<exists>s'. mailbox_destroy malloc j q s = Inr s' \<and> msg_sys_ok s' \<and> objs s' = (\<lambda>i. if i \<in> set q then None else objs s i)"
proof (induction q arbitrary: s)
  case (Cons k q)
  obtain m where k: "objs s k = Some m" using Cons.prems(5) by auto
  obtain s' where s': "msg_run malloc [Move j k, Delete k, Delete j] s = Inr s'" "msg_sys_ok s'" "objs s' = (objs s)(k := None)"
    using pop_delete_objs [OF Cons.prems(1-3) k] by blast
  have eq: "mailbox_destroy malloc j (k # q) s = mailbox_destroy malloc j q s'"
    using s'(1) by (auto simp: mailbox_try_pop_def simp del: msg_step.simps split: sum.splits)
  obtain s'' where "mailbox_destroy malloc j q s' = Inr s''" "msg_sys_ok s''"
    "objs s'' = (\<lambda>i. if i \<in> set q then None else objs s' i)"
  proof -
    have "\<exists>s''. mailbox_destroy malloc j q s' = Inr s'' \<and> msg_sys_ok s'' \<and> objs s'' = (\<lambda>i. if i \<in> set q then None else objs s' i)"
      by (rule Cons.IH [OF s'(2) Cons.prems(2)]) (use Cons.prems(3,4,5) s'(3) in auto)
    with that show thesis by blast
  qed
  then show ?case using eq s'(3) by (auto simp: fun_eq_iff)
qed auto

section \<open>The actor registry\<close>

definition register_actor :: "u64 option \<Rightarrow> 'm \<Rightarrow> (u64, 'm) table \<Rightarrow> (u64, 'm) table" where
  "register_actor actor mailbox r = (case actor of None \<Rightarrow> r | Some aid \<Rightarrow> table_assign aid mailbox r)"

definition find_mailbox :: "(u64, 'm) table \<Rightarrow> u64 \<Rightarrow> 'm option" where
  "find_mailbox r aid = table_find r aid"

definition unregister_actor :: "u64 \<Rightarrow> (u64, 'm) table \<Rightarrow> (u64, 'm) table" where
  "unregister_actor aid r = table_erase aid r"

interpretation actors: assignable table_ok find_mailbox "\<lambda>aid. register_actor (Some aid)"
  by unfold_locales (simp_all add: register_actor_def find_mailbox_def table_assign_ok table_find_assign fun_eq_iff)

interpretation actors_e: erasable table_ok find_mailbox unregister_actor
  by unfold_locales (simp_all add: unregister_actor_def find_mailbox_def table_erase_ok table_find_erase fun_eq_iff)

section \<open>Properties\<close>

definition no_messages :: msg_sys where "no_messages = \<lparr> mem = Map.empty, objs = Map.empty \<rparr>"

lemma no_messages_ok: "msg_sys_ok no_messages"
  by (simp add: msg_sys_ok_def own_ok_def owners_def no_messages_def)


text \<open>The first free address from 1 on, among the first few.\<close>

definition first_fit :: "heap \<Rightarrow> nat \<Rightarrow> u64 option" where
  "first_fit h n = (if n < 2 ^ 64 then find (\<lambda>p. h p = None) [1, 2, 3] else None)"

lemma first_fit_ok: "malloc_ok first_fit"
  by (auto simp: malloc_ok_def first_fit_def split: if_splits)


text \<open>
  What is stored is what is read: after \<^verbatim>\<open>set\<close> of a value of any size, inline or on the heap, the
  message, a copy of it and a message moved from that copy all give the value back through \<^verbatim>\<open>as\<close>, and
  the moved-from copy owns nothing.
\<close>

theorem message_roundtrip:
  assumes "malloc_ok malloc" and "msg_ok h m" and "msg_set malloc h m bytes = Inr (h1, m1)" and "msg_ok h1 m1"
    and "msg_copy_into malloc h1 msg_new m1 = Inr (h2, c)" and "msg_move_into msg_new c = (d, c')"
  shows "msg_as h1 m1 (length bytes) = Inr bytes \<and> msg_as h2 m1 (length bytes) = Inr bytes \<and>
    msg_as h2 c (length bytes) = Inr bytes \<and> msg_as h2 d (length bytes) = Inr bytes \<and> owned c' = None"
proof -
  have 1: "msg_as h1 m1 (length bytes) = Inr bytes" by (rule set_as [OF assms(3)]) (use assms(2) in \<open>simp add: msg_ok_def\<close>)
  note cp = copy_as [OF assms(5,4,1)]
  show ?thesis using 1 cp(1,2) move_as [OF assms(6)] assms(6)
    by (auto simp: msg_move_into_def owned_def Let_def split: if_splits)
qed

theorem message_roundtrip_witness:
  "\<exists>h1 m1 h2 c. msg_set first_fit Map.empty msg_new (replicate 60 7) = Inr (h1, m1) \<and>
     msg_copy_into first_fit h1 msg_new m1 = Inr (h2, c) \<and> msg_as h2 c 60 = Inr (replicate 60 7)"
proof -
  have new: "msg_ok Map.empty msg_new" by (simp add: msg_ok_def)
  let ?m1 = "(set_heap_data 1 60 msg_new)\<lparr> is_inline := False \<rparr>" let ?h1 = "[1 \<mapsto> replicate 60 (7 :: u8)]"
  have s: "msg_set first_fit Map.empty msg_new (replicate 60 7) = Inr (?h1, ?m1)"
    by (simp add: msg_set_def msg_destroy_def msg_allocate_def first_fit_def INLINE_SIZE_def)
  have ok1: "msg_ok ?h1 ?m1" by (simp add: msg_ok_def)
  obtain h2 c where c: "msg_copy_into first_fit ?h1 msg_new ?m1 = Inr (h2, c)"
    by (simp add: msg_copy_into_def msg_allocate_def first_fit_def Let_def)
  obtain d c' where d: "msg_move_into msg_new c = (d, c')" by fastforce
  from message_roundtrip [OF first_fit_ok new s ok1 c d] show ?thesis using s c by auto
qed

text \<open>
  Destroying a mailbox destroys every message still queued: the loop ends, frees their blocks and leaves
  all other messages as they were; when the mailbox held the last messages nothing stays allocated.
\<close>

theorem mailbox_destroy_frees:
  assumes "msg_sys_ok s" and "malloc_ok malloc" and "objs s j = None" and "distinct q" and "\<forall>k \<in> set q. objs s k \<noteq> None"
  shows "\<exists>s'. mailbox_destroy malloc j q s = Inr s' \<and> msg_sys_ok s' \<and> (\<forall>i. objs s' i = (if i \<in> set q then None else objs s i)) \<and>
    (dom (objs s) \<subseteq> set q \<longrightarrow> mem s' = Map.empty)"
proof -
  obtain s' where s': "mailbox_destroy malloc j q s = Inr s'" "msg_sys_ok s'" "objs s' = (\<lambda>i. if i \<in> set q then None else objs s i)"
    using mailbox_destroy_ok [OF assms] by blast
  have "mem s' = Map.empty" if "dom (objs s) \<subseteq> set q"
  proof -
    have "owners s' i = None" for i using that s'(3) by (cases "objs s i") (auto simp: owners_def)
    then show ?thesis using msg_sys_okD(2) [OF s'(2)] by (auto simp: own_ok_def)
  qed
  then show ?thesis using s' by auto
qed

theorem mailbox_destroy_frees_witness:
  "\<exists>s'. mailbox_destroy first_fit 9 [0] \<lparr> mem = Map.empty, objs = [0 \<mapsto> msg_new] \<rparr> = Inr s' \<and> mem s' = Map.empty"
proof -
  let ?s = "\<lparr> mem = Map.empty, objs = [0 \<mapsto> msg_new] \<rparr>"
  have "msg_sys_ok ?s" by (auto simp: msg_sys_ok_def own_ok_def owners_def owned_def msg_ok_def split: if_splits)
  from mailbox_destroy_frees [OF this first_fit_ok, of 9 "[0]"] show ?thesis by auto
qed

end
