(* ===== verification/Fiber.thy ===== *)
theory Fiber
  imports Ownership
begin

text \<open>
  \<^verbatim>\<open>scheduler/fiber.hpp\<close>: the wrapper \<^verbatim>\<open>Task\<close> of a coroutine frame. The frame of a coroutine is created suspended,
  stays suspended when its body has ended (\<^verbatim>\<open>final_suspend\<close>), and exists until \<^verbatim>\<open>destroy()\<close> is called on its handle, which
  only a \<^verbatim>\<open>Task\<close> does. Both specialisations of \<^verbatim>\<open>Task\<close> have the same operations.
\<close>

section \<open>Frames and tasks\<close>

datatype frame = Suspended | Finished

record fiber_sys =
  frames :: "nat \<rightharpoonup> frame"
  tasks_h :: "nat \<rightharpoonup> nat option"
  released :: "nat set"

text \<open>Object \<open>t\<close> is a task whose handle is \<open>tasks_h s t\<close>; \<open>None\<close> inside is the null handle. Destroying a dead frame is a fault.\<close>

datatype task_op = Call nat nat | Default nat | Move_Construct nat nat | Move_Assign nat nat | Release nat | Drop nat | Finish nat

definition destroy_frame :: "nat option \<Rightarrow> fiber_sys \<Rightarrow> fiber_sys option" where
  "destroy_frame h s = (case h of
       None \<Rightarrow> Some s
     | Some f \<Rightarrow> if frames s f = None then None else Some (s\<lparr> frames := (frames s)(f := None) \<rparr>))"

text \<open>
  \<open>Call t f\<close>: a coroutine is called, its frame \<open>f\<close> created and wrapped by the new task \<open>t\<close>; \<open>Finish f\<close>: the body of \<open>f\<close> ends
  when it is resumed. Calls outside their precondition do nothing.
\<close>

fun task_step :: "task_op \<Rightarrow> fiber_sys \<Rightarrow> fiber_sys option" where
  "task_step (Call t f) s =
     (if tasks_h s t = None \<and> frames s f = None \<and> f \<notin> released s
      then Some (s\<lparr> frames := (frames s)(f \<mapsto> Suspended), tasks_h := (tasks_h s)(t \<mapsto> Some f) \<rparr>) else Some s)"
| "task_step (Default t) s = (if tasks_h s t = None then Some (s\<lparr> tasks_h := (tasks_h s)(t \<mapsto> None) \<rparr>) else Some s)"
| "task_step (Move_Construct t u) s =
     (case (tasks_h s t, tasks_h s u) of
        (None, Some h) \<Rightarrow> Some (s\<lparr> tasks_h := (tasks_h s)(t \<mapsto> h, u \<mapsto> None) \<rparr>)
      | _ \<Rightarrow> Some s)"
| "task_step (Move_Assign t u) s =
     (case (tasks_h s t, tasks_h s u) of
        (Some h, Some g) \<Rightarrow>
          if t = u then Some s
          else map_option (\<lambda>s'. s'\<lparr> tasks_h := (tasks_h s')(t \<mapsto> g, u \<mapsto> None) \<rparr>) (destroy_frame h s)
      | _ \<Rightarrow> Some s)"
| "task_step (Release t) s =
     (case tasks_h s t of
        Some (Some f) \<Rightarrow> Some (s\<lparr> tasks_h := (tasks_h s)(t \<mapsto> None), released := insert f (released s) \<rparr>)
      | _ \<Rightarrow> Some s)"
| "task_step (Drop t) s =
     (case tasks_h s t of
        Some h \<Rightarrow> map_option (\<lambda>s'. s'\<lparr> tasks_h := (tasks_h s')(t := None) \<rparr>) (destroy_frame h s)
      | None \<Rightarrow> Some s)"
| "task_step (Finish f) s = (if frames s f = Some Suspended then Some (s\<lparr> frames := (frames s)(f \<mapsto> Finished) \<rparr>) else Some s)"

fun task_run :: "task_op list \<Rightarrow> fiber_sys \<Rightarrow> fiber_sys option" where
  "task_run [] s = Some s"
| "task_run (c # cs) s = (case task_step c s of None \<Rightarrow> None | Some s' \<Rightarrow> task_run cs s')"

definition no_fibers :: fiber_sys where
  "no_fibers = \<lparr> frames = Map.empty, tasks_h = Map.empty, released = {} \<rparr>"

text \<open>\<^verbatim>\<open>await_ready\<close>: a task is ready when it owns a frame that has finished.\<close>

definition await_ready :: "nat \<Rightarrow> fiber_sys \<Rightarrow> bool" where
  "await_ready t s \<longleftrightarrow> (case tasks_h s t of Some (Some f) \<Rightarrow> frames s f = Some Finished | _ \<Rightarrow> False)"

section \<open>Ownership of frames\<close>

definition holder :: "fiber_sys \<Rightarrow> nat \<rightharpoonup> nat" where
  "holder s t = Option.bind (tasks_h s t) (\<lambda>h. h)"

definition fiber_ok :: "fiber_sys \<Rightarrow> bool" where
  "fiber_ok s \<longleftrightarrow> own_ok (holder s) (dom (frames s) - released s) \<and> released s \<subseteq> dom (frames s)"

lemma holder_alive:
  assumes "fiber_ok s" "tasks_h s t = Some (Some f)"
  shows "holder s t = Some f" "f \<in> dom (frames s)" "f \<notin> released s"
proof -
  show h: "holder s t = Some f" using assms(2) by (simp add: holder_def)
  have "f \<in> dom (frames s) - released s" using assms(1) h unfolding fiber_ok_def own_ok_def by blast
  then show "f \<in> dom (frames s)" "f \<notin> released s" by auto
qed

lemma holder_upd [simp]: "holder (s\<lparr> tasks_h := (tasks_h s)(t \<mapsto> h) \<rparr>) = (holder s)(t := h)"
    "holder (s\<lparr> tasks_h := (tasks_h s)(t := None) \<rparr>) = (holder s)(t := None)"
    "holder (s\<lparr> frames := F \<rparr>) = holder s" "holder (s\<lparr> released := R \<rparr>) = holder s"
  by (auto simp: holder_def fun_eq_iff)

text \<open>A task that gives up its frame by destroying it.\<close>

lemma fiber_destroy:
  assumes ok: "fiber_ok s" and t: "tasks_h s t = Some h"
  shows "\<exists>s'. destroy_frame h s = Some s' \<and> tasks_h s' = tasks_h s \<and> released s' = released s \<and>
    own_ok ((holder s)(t := None)) (dom (frames s') - released s') \<and> released s' \<subseteq> dom (frames s')"
proof (cases h)
  case None
  then have "(holder s)(t := None) = holder s" using t by (simp add: holder_def fun_upd_idem)
  then show ?thesis using ok None by (simp add: destroy_frame_def fiber_ok_def)
next
  case (Some f)
  note al = holder_alive [OF ok, of t f]
  have d: "destroy_frame h s = Some (s\<lparr> frames := (frames s)(f := None) \<rparr>)" using al t Some by (auto simp: destroy_frame_def)
  have "dom ((frames s)(f := None)) - released s = dom (frames s) - released s - {f}" by auto
  then have "own_ok ((holder s)(t := None)) (dom ((frames s)(f := None)) - released s)"
    using own_free [of "holder s" _ t f] ok al t Some unfolding fiber_ok_def by simp
  then show ?thesis using d ok al(3) t Some by (auto simp: fiber_ok_def)
qed

lemma task_step_ok:
  assumes ok: "fiber_ok s"
  shows "\<exists>s'. task_step c s = Some s' \<and> fiber_ok s' \<and> released s \<subseteq> released s'"
proof (cases c)
  case (Call t f)
  show ?thesis
  proof (cases "tasks_h s t = None \<and> frames s f = None \<and> f \<notin> released s")
    case True
    have "dom ((frames s)(f \<mapsto> Suspended)) - released s = insert f (dom (frames s) - released s)" using True by auto
    moreover have "holder s t = None" using True by (simp add: holder_def)
    moreover have "holder (s\<lparr> frames := (frames s)(f \<mapsto> Suspended), tasks_h := (tasks_h s)(t \<mapsto> Some f) \<rparr>) = (holder s)(t \<mapsto> f)"
      by (auto simp: holder_def fun_eq_iff)
    ultimately show ?thesis using Call True ok own_alloc [of "holder s" _ t f]
      by (auto simp: fiber_ok_def domIff)
  qed (use Call ok in auto)
next
  case (Default t)
  have "(holder s)(t := None) = holder s" if "tasks_h s t = None" using that by (simp add: holder_def fun_upd_idem)
  then show ?thesis using Default ok by (auto simp: fiber_ok_def)
next
  case (Move_Construct t u)
  show ?thesis
  proof (cases "\<exists>h. tasks_h s t = None \<and> tasks_h s u = Some h")
    case True
    then obtain h where h: "tasks_h s t = None" "tasks_h s u = Some h" by blast
    let ?s = "s\<lparr> tasks_h := (tasks_h s)(t \<mapsto> h, u \<mapsto> None) \<rparr>"
    have ho: "holder ?s = (holder s)(t := h, u := None)" using h by (auto simp: holder_def fun_eq_iff)
    have t: "holder s t = None" using h by (simp add: holder_def)
    have "own_ok (holder ?s) (dom (frames s) - released s)"
    proof (cases h)
      case None
      then have "holder ?s = holder s" using h unfolding ho by (auto simp: holder_def fun_eq_iff)
      then show ?thesis using ok by (simp add: fiber_ok_def)
    next
      case (Some f)
      then have "holder s u = Some f" using h by (simp add: holder_def)
      then show ?thesis using own_move [of "holder s" _ t u f] ok t Some unfolding ho fiber_ok_def by simp
    qed
    then show ?thesis using Move_Construct h ok by (auto simp: fiber_ok_def)
  qed (use Move_Construct ok in \<open>auto split: option.splits\<close>)
next
  case (Move_Assign t u)
  show ?thesis
  proof (cases "\<exists>h g. tasks_h s t = Some h \<and> tasks_h s u = Some g \<and> t \<noteq> u")
    case True
    then obtain h g where h: "tasks_h s t = Some h" "tasks_h s u = Some g" "t \<noteq> u" by blast
    obtain s1 where s1: "destroy_frame h s = Some s1" "tasks_h s1 = tasks_h s" "released s1 = released s"
      "own_ok ((holder s)(t := None)) (dom (frames s1) - released s1)" "released s1 \<subseteq> dom (frames s1)"
      using fiber_destroy [OF ok h(1)] by blast
    let ?s = "s1\<lparr> tasks_h := (tasks_h s1)(t \<mapsto> g, u \<mapsto> None) \<rparr>"
    have ho: "holder ?s = ((holder s)(t := None))(t := g, u := None)" using h s1(2) by (auto simp: holder_def fun_eq_iff)
    have "own_ok (holder ?s) (dom (frames s1) - released s1)"
    proof (cases g)
      case None
      then have "holder ?s = (holder s)(t := None)" using h unfolding ho by (auto simp: holder_def fun_eq_iff)
      then show ?thesis using s1(4) by simp
    next
      case (Some f)
      then have u: "((holder s)(t := None)) u = Some f" using h by (simp add: holder_def)
      have "((holder s)(t := None)) t = None" by simp
      from own_move [OF s1(4) this u] show ?thesis unfolding ho unfolding Some .
    qed
    then show ?thesis using Move_Assign h s1 by (auto simp: fiber_ok_def)
  qed (use Move_Assign ok in \<open>auto split: option.splits\<close>)
next
  case (Release t)
  show ?thesis
  proof (cases "\<exists>f. tasks_h s t = Some (Some f)")
    case True
    then obtain f where f: "tasks_h s t = Some (Some f)" by blast
    note al = holder_alive [OF ok f]
    let ?s = "s\<lparr> tasks_h := (tasks_h s)(t \<mapsto> None), released := insert f (released s) \<rparr>"
    have "holder ?s = (holder s)(t := None)" by (auto simp: holder_def fun_eq_iff)
    moreover have "dom (frames s) - insert f (released s) = dom (frames s) - released s - {f}" by auto
    ultimately have "fiber_ok ?s" using own_free [of "holder s" _ t f] ok al by (auto simp: fiber_ok_def)
    then show ?thesis using Release f by auto
  qed (use Release ok in \<open>auto split: option.splits\<close>)
next
  case (Drop t)
  show ?thesis
  proof (cases "tasks_h s t")
    case (Some h)
    obtain s1 where s1: "destroy_frame h s = Some s1" "tasks_h s1 = tasks_h s" "released s1 = released s"
      "own_ok ((holder s)(t := None)) (dom (frames s1) - released s1)" "released s1 \<subseteq> dom (frames s1)"
      using fiber_destroy [OF ok Some] by blast
    have "holder (s1\<lparr> tasks_h := (tasks_h s)(t := None) \<rparr>) = (holder s)(t := None)" by (auto simp: holder_def fun_eq_iff)
    then show ?thesis using Drop Some s1 by (auto simp: fiber_ok_def)
  qed (use Drop ok in simp)
next
  case (Finish f)
  have "dom ((frames s)(f \<mapsto> Finished)) = dom (frames s)" if "frames s f = Some Suspended" using that by auto
  then show ?thesis using Finish ok by (auto simp: fiber_ok_def)
qed

lemma task_run_ok:
  "fiber_ok s \<Longrightarrow> \<exists>s'. task_run cs s = Some s' \<and> fiber_ok s' \<and> released s \<subseteq> released s'"
proof (induction cs arbitrary: s)
  case (Cons c cs)
  obtain s1 where s1: "task_step c s = Some s1" "fiber_ok s1" "released s \<subseteq> released s1" using task_step_ok [OF Cons.prems] by blast
  then show ?case using Cons.IH [OF s1(2)] by auto
qed auto

lemma no_fibers_ok: "fiber_ok no_fibers"
  by (simp add: fiber_ok_def own_ok_def holder_def no_fibers_def)

section \<open>Properties\<close>

text \<open>
  C27. Tasks own their frames: whatever tasks are created, moved, assigned, released and dropped, no frame is
  destroyed twice, every living frame that was not released belongs to exactly one task, and a
  released frame belongs to none and lives on.
\<close>

theorem fiber_ownership:
  "\<exists>s. task_run cs no_fibers = Some s \<and>
     (\<forall>f. frames s f \<noteq> None \<and> f \<notin> released s \<longrightarrow> (\<exists>!t. tasks_h s t = Some (Some f))) \<and>
     (\<forall>f \<in> released s. frames s f \<noteq> None \<and> (\<forall>t. tasks_h s t \<noteq> Some (Some f)))"
proof -
  obtain s where s: "task_run cs no_fibers = Some s" "fiber_ok s" using task_run_ok [OF no_fibers_ok] by blast
  have h: "holder s t = Some f \<longleftrightarrow> tasks_h s t = Some (Some f)" for t f
    by (auto simp: holder_def Option.bind_eq_Some_conv)
  have own: "own_ok (holder s) (dom (frames s) - released s)" "released s \<subseteq> dom (frames s)" using s(2) by (auto simp: fiber_ok_def)
  have "\<exists>!t. tasks_h s t = Some (Some f)" if "frames s f \<noteq> None" "f \<notin> released s" for f
    using own(1) that unfolding own_ok_def h by (metis DiffI domIff)
  moreover have "frames s f \<noteq> None \<and> (\<forall>t. tasks_h s t \<noteq> Some (Some f))" if "f \<in> released s" for f
    using own that unfolding own_ok_def h by blast
  ultimately show ?thesis using s(1) by blast
qed

theorem fiber_ownership_witness:
  "\<exists>s. task_run [Call 0 7, Move_Construct 1 0, Release 1, Drop 0, Drop 1] no_fibers = Some s \<and> released s = {7} \<and> frames s 7 \<noteq> None"
proof -
  let ?cs = "[Call 0 7, Move_Construct 1 0, Release 1, Drop 0, Drop 1]"
  from fiber_ownership [of ?cs] obtain s where s: "task_run ?cs no_fibers = Some s" "\<forall>f \<in> released s. frames s f \<noteq> None" by blast
  then have "released s = {7}" by (auto simp: no_fibers_def destroy_frame_def)
  then show ?thesis using s by auto
qed




section \<open>Awaiting a task\<close>

text \<open>
  The promise of \<^verbatim>\<open>Task<T>\<close> for a coroutine that suspends \<open>suspensions\<close> more times and then returns \<open>returns\<close>. \<^verbatim>\<open>await_suspend\<close>
  resumes the inner coroutine once and hands control back to the caller, whose \<^verbatim>\<open>await_resume\<close> then takes \<^verbatim>\<open>value_\<close>. Everyone
  who resumes a coroutine tests \<^verbatim>\<open>done()\<close> first.
\<close>

record 'v promise_type =
  promise_value :: 'v
  suspensions :: nat
  returns :: 'v
  is_done :: bool

definition promise_new :: "'v \<Rightarrow> nat \<Rightarrow> 'v \<Rightarrow> 'v promise_type" where
  "promise_new dflt n v = \<lparr> promise_value = dflt, suspensions = n, returns = v, is_done = False \<rparr>"

definition frame_resume :: "'v promise_type \<Rightarrow> 'v promise_type" where
  "frame_resume p = (if is_done p then p
     else if suspensions p > 0 then p\<lparr> suspensions := suspensions p - 1 \<rparr>
     else p\<lparr> promise_value := returns p, is_done := True \<rparr>)"

definition await_task :: "'v promise_type \<Rightarrow> 'v" where
  "await_task p = promise_value (if is_done p then p else frame_resume p)"

text \<open>
  Awaiting a task waits for one resumption, not for its end: a coroutine with \<open>n\<close> suspension points that was resumed \<open>k\<close>
  times before yields its return value if \<open>n \<le> k\<close>, and the default value otherwise.
\<close>

theorem await_task_value:
  "await_task ((frame_resume ^^ k) (promise_new dflt n v)) = (if n \<le> k then v else dflt)"
proof -
  have r: "(frame_resume ^^ j) (promise_new dflt n v) =
      (if j \<le> n then \<lparr> promise_value = dflt, suspensions = n - j, returns = v, is_done = False \<rparr>
       else \<lparr> promise_value = v, suspensions = 0, returns = v, is_done = True \<rparr>)" for j
    by (induction j) (auto simp: promise_new_def frame_resume_def Suc_diff_Suc split: if_splits)
  show ?thesis unfolding r by (auto simp: await_task_def frame_resume_def)
qed

end
