(* ===== verification/Timer_Wheel.thy ===== *)
theory Timer_Wheel
  imports Prelude "HOL-Library.Multiset"
begin

text \<open>
  \<^verbatim>\<open>reactor/timer_wheel.hpp\<close> and \<^verbatim>\<open>.cpp\<close>: 512 buckets of timers hashed by their expiry tick. A
  callback is an opaque value; what the wheel can observe of running it is the list of timers
  it arms, given by the parameter \<open>arms\<close>.
\<close>

section \<open>The member functions\<close>

definition SLOTS :: size_t where "SLOTS = 512"
definition TICK_NS :: u64 where "TICK_NS = 1000000"

record 'c TimerEntry =
  expires_tick :: u64
  callback :: 'c

record 'c TimerWheel =
  wheel_slots :: "'c TimerEntry list list"
  current_tick :: u64

definition wheel_new :: "'c TimerWheel" where
  "wheel_new = \<lparr> wheel_slots = replicate (unat SLOTS) [], current_tick = 0 \<rparr>"

definition delay_ticks :: "u64 \<Rightarrow> u64" where
  "delay_ticks delay_ns = (let ticks = delay_ns div TICK_NS in if ticks = 0 then 1 else ticks)"

definition slot_of :: "u64 \<Rightarrow> nat" where
  "slot_of tick = unat (tick AND (SLOTS - 1))"

definition add_timer :: "u64 \<Rightarrow> 'c \<Rightarrow> 'c TimerWheel \<Rightarrow> 'c TimerWheel" where
  "add_timer delay_ns cb w =
     (let expires = current_tick w + delay_ticks delay_ns; slot = slot_of expires in
      w\<lparr> wheel_slots := (wheel_slots w)[slot := wheel_slots w ! slot @ [\<lparr> expires_tick = expires, callback = cb \<rparr>]] \<rparr>)"

definition wheel_initialize :: "u64 \<Rightarrow> 'c TimerWheel \<Rightarrow> 'c TimerWheel" where
  "wheel_initialize now_ns w = w\<lparr> current_tick := now_ns div TICK_NS \<rparr>"

text \<open>
  The callbacks of the expired entries run while a reference into their bucket is live. A
  callback that appends to that same bucket invalidates it; \<open>None\<close> stands for that case.
\<close>

fun arm_all :: "nat \<Rightarrow> (u64 \<times> 'c) list \<Rightarrow> 'c TimerWheel \<Rightarrow> 'c TimerWheel option" where
  "arm_all slot [] w = Some w"
| "arm_all slot ((delay_ns, cb) # ts) w =
     (if slot_of (current_tick w + delay_ticks delay_ns) = slot then None
      else arm_all slot ts (add_timer delay_ns cb w))"

fun run_callbacks ::
  "('c \<Rightarrow> (u64 \<times> 'c) list) \<Rightarrow> nat \<Rightarrow> 'c TimerEntry list \<Rightarrow> 'c TimerWheel \<Rightarrow> 'c TimerWheel option" where
  "run_callbacks arms slot [] w = Some w"
| "run_callbacks arms slot (e # es) w =
     Option.bind (arm_all slot (arms (callback e)) w) (run_callbacks arms slot es)"

text \<open>One round of the loop of \<^verbatim>\<open>advance\<close>, with the entries whose callbacks ran.\<close>

definition wheel_tick ::
  "('c \<Rightarrow> (u64 \<times> 'c) list) \<Rightarrow> 'c TimerWheel \<Rightarrow> ('c TimerEntry list \<times> 'c TimerWheel) option" where
  "wheel_tick arms w0 =
     (let w = w0\<lparr> current_tick := current_tick w0 + 1 \<rparr>;
          slot = slot_of (current_tick w);
          entries = wheel_slots w ! slot in
      if entries = [] then Some ([], w)
      else
        let keep = filter (\<lambda>e. expires_tick e > current_tick w) entries;
            due = filter (\<lambda>e. \<not> expires_tick e > current_tick w) entries;
            w' = w\<lparr> wheel_slots := (wheel_slots w)[slot := keep @ due] \<rparr> in
        map_option (\<lambda>w''. (due, w''\<lparr> wheel_slots := (wheel_slots w'')[slot := keep] \<rparr>))
          (run_callbacks arms slot due w'))"

partial_function (option) advance_loop ::
  "('c \<Rightarrow> (u64 \<times> 'c) list) \<Rightarrow> u64 \<Rightarrow> 'c TimerWheel \<Rightarrow> ((u64 \<times> 'c TimerEntry) list \<times> 'c TimerWheel) option" where
  "advance_loop arms target_tick w =
     (if current_tick w < target_tick then
        Option.bind (wheel_tick arms w) (\<lambda>(due, w').
          Option.bind (advance_loop arms target_tick w') (\<lambda>(fired, w'').
            Some (map (Pair (current_tick w')) due @ fired, w'')))
      else Some ([], w))"

declare advance_loop.simps [code]

definition advance ::
  "('c \<Rightarrow> (u64 \<times> 'c) list) \<Rightarrow> u64 \<Rightarrow> 'c TimerWheel \<Rightarrow> ((u64 \<times> 'c TimerEntry) list \<times> 'c TimerWheel) option" where
  "advance arms now_ns w = advance_loop arms (now_ns div TICK_NS) w"

section \<open>The invariant\<close>

text \<open>
  Every entry sits in the bucket of its expiry tick and expires in the future. Ticks are
  nanoseconds divided by a million, so the sum of a tick and a delay never wraps.
\<close>

definition max_tick :: nat where "max_tick = (2 ^ 64 - 1) div 1000000"

definition buckets_ok :: "nat set \<Rightarrow> 'c TimerWheel \<Rightarrow> bool" where
  "buckets_ok J w \<longleftrightarrow> length (wheel_slots w) = 512 \<and> unat (current_tick w) \<le> max_tick \<and>
     (\<forall>j < 512. j \<in> J \<longrightarrow>
        (\<forall>e \<in> set (wheel_slots w ! j). slot_of (expires_tick e) = j \<and> current_tick w < expires_tick e))"

definition wheel_inv :: "'c TimerWheel \<Rightarrow> bool" where
  "wheel_inv w = buckets_ok UNIV w"

definition pending :: "'c TimerWheel \<Rightarrow> 'c TimerEntry multiset" where
  "pending w = mset (concat (wheel_slots w))"

definition armed_entry :: "u64 \<Rightarrow> u64 \<times> 'c \<Rightarrow> 'c TimerEntry" where
  "armed_entry now = (\<lambda>(d, cb). \<lparr> expires_tick = now + delay_ticks d, callback = cb \<rparr>)"

lemma slot_of_mod: "slot_of t = unat t mod 512"
  using unat_and_pow2_minus_1 [of t 9] by (simp add: slot_of_def SLOTS_def)

lemma slot_of_less [simp]: "slot_of t < 512"
  by (simp add: slot_of_mod)

lemma unat_div_TICK: "unat (ns div TICK_NS) = unat ns div 1000000"
  by (simp add: TICK_NS_def unat_div)

lemma tick_bound: "unat (ns div TICK_NS) \<le> max_tick"
  using unat_u64_less [of ns] unfolding unat_div_TICK max_tick_def by (intro div_le_mono) simp

lemma delay_ticks_bounds: "1 \<le> unat (delay_ticks d) \<and> unat (delay_ticks d) \<le> max_tick"
  using tick_bound [of d] by (auto simp: delay_ticks_def Let_def max_tick_def unat_gt_0 Suc_le_eq)

lemma expiry_no_wrap:
  assumes "unat t \<le> max_tick"
  shows "unat (t + delay_ticks d) = unat t + unat (delay_ticks d)"
  using assms delay_ticks_bounds [of d] by (simp add: unat_plus_if' max_tick_def)

lemma same_slot_iff:
  assumes "unat t \<le> max_tick"
  shows "slot_of (t + delay_ticks d) = slot_of t \<longleftrightarrow> 512 dvd unat (delay_ticks d)"
  unfolding slot_of_mod expiry_no_wrap [OF assms] by (metis add.right_neutral mod_0_imp_dvd mod_add_cong mod_eq_dvd_iff_nat add_diff_cancel_left' le_add1)

lemma mset_concat_update:
  "i < length xss \<Longrightarrow> mset (concat (xss[i := ys])) + mset (xss ! i) = mset (concat xss) + mset ys"
proof (induction xss arbitrary: i)
  case (Cons x xss)
  then show ?case by (cases i) (auto simp: ac_simps)
qed simp

lemma pending_update:
  assumes "i < length (wheel_slots w)"
  shows "pending (w\<lparr> wheel_slots := (wheel_slots w)[i := ys] \<rparr>) + mset (wheel_slots w ! i) = pending w + mset ys"
  using mset_concat_update [OF assms] by (simp add: pending_def)

lemma wheel_new_inv: "wheel_inv wheel_new"
  by (simp add: wheel_inv_def buckets_ok_def wheel_new_def SLOTS_def max_tick_def)

section \<open>Operations preserve it\<close>

lemma add_timer_frame [simp]:
  "current_tick (add_timer d cb w) = current_tick w"
  "length (wheel_slots (add_timer d cb w)) = length (wheel_slots w)"
  by (simp_all add: add_timer_def Let_def)

lemma add_timer_inv:
  assumes inv: "buckets_ok J w"
  shows "buckets_ok J (add_timer d cb w)"
    and "pending (add_timer d cb w) = pending w + {#armed_entry (current_tick w) (d, cb)#}"
proof -
  let ?x = "current_tick w + delay_ticks d"
  have len: "length (wheel_slots w) = 512" and t: "unat (current_tick w) \<le> max_tick"
    using inv by (simp_all add: buckets_ok_def)
  have "current_tick w < ?x"
    using expiry_no_wrap [OF t, of d] delay_ticks_bounds [of d] by (simp add: word_less_nat_alt)
  then show "buckets_ok J (add_timer d cb w)"
    using inv by (auto simp: buckets_ok_def add_timer_def Let_def nth_list_update)
  have "pending (add_timer d cb w) + mset (wheel_slots w ! slot_of ?x) =
      pending w + mset (wheel_slots w ! slot_of ?x @ [armed_entry (current_tick w) (d, cb)])"
    using pending_update [of "slot_of ?x" w] len by (simp add: add_timer_def Let_def armed_entry_def)
  then show "pending (add_timer d cb w) = pending w + {#armed_entry (current_tick w) (d, cb)#}"
    by (simp add: ac_simps)
qed

lemma add_timer_other: "slot_of (current_tick w + delay_ticks d) \<noteq> j \<Longrightarrow> wheel_slots (add_timer d cb w) ! j = wheel_slots w ! j"
  by (simp add: add_timer_def Let_def)

text \<open>A callback is well behaved when it does not arm a timer a whole number of turns ahead.\<close>

definition no_full_turn :: "('c \<Rightarrow> (u64 \<times> 'c) list) \<Rightarrow> bool" where
  "no_full_turn arms \<longleftrightarrow> (\<forall>cb. \<forall>(d, cb') \<in> set (arms cb). \<not> 512 dvd unat (delay_ticks d))"

lemma arm_all_ok:
  assumes "buckets_ok J w" and "\<forall>(d, cb) \<in> set ts. \<not> 512 dvd unat (delay_ticks d)"
    and "slot = slot_of (current_tick w)"
  shows "\<exists>w'. arm_all slot ts w = Some w' \<and> buckets_ok J w' \<and> current_tick w' = current_tick w \<and>
    wheel_slots w' ! slot = wheel_slots w ! slot \<and>
    pending w' = pending w + mset (map (armed_entry (current_tick w)) ts)"
  using assms
proof (induction ts arbitrary: w)
  case (Cons t ts)
  obtain d cb where t: "t = (d, cb)" by (cases t)
  have tick: "unat (current_tick w) \<le> max_tick" using Cons.prems(1) by (simp add: buckets_ok_def)
  then have other: "slot_of (current_tick w + delay_ticks d) \<noteq> slot"
    using same_slot_iff [OF tick] Cons.prems(2,3) by (auto simp: t)
  from Cons.IH [of "add_timer d cb w"] Cons.prems add_timer_inv [OF Cons.prems(1), of d cb]
  obtain w' where "arm_all slot ts (add_timer d cb w) = Some w'" "buckets_ok J w'"
    "current_tick w' = current_tick w" "wheel_slots w' ! slot = wheel_slots (add_timer d cb w) ! slot"
    "pending w' = pending w + {#armed_entry (current_tick w) (d, cb)#} + mset (map (armed_entry (current_tick w)) ts)"
    by auto
  then show ?case using other add_timer_other [OF other] by (simp add: t)
qed simp

definition armed_by :: "('c \<Rightarrow> (u64 \<times> 'c) list) \<Rightarrow> u64 \<times> 'c TimerEntry \<Rightarrow> 'c TimerEntry list" where
  "armed_by arms = (\<lambda>(t, e). map (armed_entry t) (arms (callback e)))"

lemma run_callbacks_ok:
  assumes "buckets_ok J w" and nf: "no_full_turn arms" and "slot = slot_of (current_tick w)"
  shows "\<exists>w'. run_callbacks arms slot es w = Some w' \<and> buckets_ok J w' \<and> current_tick w' = current_tick w \<and>
    wheel_slots w' ! slot = wheel_slots w ! slot \<and>
    pending w' = pending w + mset (concat (map (\<lambda>e. armed_by arms (current_tick w, e)) es))"
  using assms(1,3)
proof (induction es arbitrary: w)
  case (Cons e es)
  have "\<forall>(d, cb) \<in> set (arms (callback e)). \<not> 512 dvd unat (delay_ticks d)"
    using nf by (auto simp: no_full_turn_def)
  from arm_all_ok [OF Cons.prems(1) this Cons.prems(2)] obtain w1 where w1:
    "arm_all slot (arms (callback e)) w = Some w1" "buckets_ok J w1" "current_tick w1 = current_tick w"
    "wheel_slots w1 ! slot = wheel_slots w ! slot"
    "pending w1 = pending w + mset (armed_by arms (current_tick w, e))"
    by (auto simp: armed_by_def)
  with Cons.IH [OF w1(2)] Cons.prems(2) show ?case by (auto simp: ac_simps)
qed simp

lemma wheel_tick_ok:
  assumes inv: "wheel_inv w" and nf: "no_full_turn arms" and room: "unat (current_tick w) < max_tick"
  shows "\<exists>due w'. wheel_tick arms w = Some (due, w') \<and> wheel_inv w' \<and> current_tick w' = current_tick w + 1 \<and>
    (\<forall>e \<in> set due. expires_tick e = current_tick w') \<and>
    pending w' + mset due = pending w + mset (concat (map (armed_by arms) (map (Pair (current_tick w')) due)))"
proof -
  define u where "u = w\<lparr> current_tick := current_tick w + 1 \<rparr>"
  define slot where "slot = slot_of (current_tick u)"
  define es where "es = wheel_slots u ! slot"
  define keep where "keep = filter (\<lambda>e. expires_tick e > current_tick u) es"
  define due where "due = filter (\<lambda>e. \<not> expires_tick e > current_tick u) es"
  have tick: "unat (current_tick u) = unat (current_tick w) + 1" "current_tick u = current_tick w + 1"
    using room by (simp_all add: u_def unat_plus_if' max_tick_def)
  have slots: "wheel_slots u = wheel_slots w" "pending u = pending w" by (simp_all add: u_def pending_def)
  have in_slot: "slot_of (expires_tick e) = j" and future: "unat (current_tick w) < unat (expires_tick e)"
    if "j < 512" "e \<in> set (wheel_slots w ! j)" for j e
    using inv that by (auto simp: wheel_inv_def buckets_ok_def word_less_nat_alt)
  have exact: "expires_tick e = current_tick u" if "e \<in> set due" for e
  proof -
    have "e \<in> set (wheel_slots w ! slot)" "\<not> expires_tick e > current_tick u"
      using that by (auto simp: due_def es_def slots)
    with future [of slot e] tick(1) show ?thesis by (simp add: slot_def word_less_nat_alt word_unat_eq_iff)
  qed
  have later: "current_tick u < expires_tick e"
    if "j < 512" "j \<noteq> slot" "e \<in> set (wheel_slots w ! j)" for j e
  proof -
    have "expires_tick e \<noteq> current_tick u" using in_slot [OF that(1,3)] that(2) by (auto simp: slot_def)
    then have "unat (expires_tick e) \<noteq> unat (current_tick u)" by (simp add: word_unat_eq_iff)
    with future [OF that(1,3)] tick show ?thesis by (simp add: word_less_nat_alt)
  qed
  have len: "length (wheel_slots w) = 512" using inv by (simp add: wheel_inv_def buckets_ok_def)
  let ?u = "u\<lparr> wheel_slots := (wheel_slots u)[slot := keep @ due] \<rparr>"
  have ms: "mset es = mset keep + mset due" by (simp add: keep_def due_def)
  have sl: "slot < 512" by (simp add: slot_def)
  have "buckets_ok (- {slot}) ?u"
    using len room tick later in_slot by (auto simp: buckets_ok_def slots nth_list_update)
  from run_callbacks_ok [OF this nf, of slot due] obtain v where v:
    "run_callbacks arms slot due ?u = Some v" "buckets_ok (- {slot}) v" "current_tick v = current_tick u"
    "wheel_slots v ! slot = keep @ due"
    "pending v = pending ?u + mset (concat (map (\<lambda>e. armed_by arms (current_tick u, e)) due))"
    using len sl by (auto simp: slot_def slots)
  let ?w = "v\<lparr> wheel_slots := (wheel_slots v)[slot := keep] \<rparr>"
  have pu: "pending ?u = pending w"
    using pending_update [of slot u "keep @ due"] len sl ms slots by (simp add: es_def)
  have lv: "length (wheel_slots v) = 512" using v(2) by (simp add: buckets_ok_def)
  then have "pending ?w + mset due = pending v"
    using pending_update [of slot v keep] sl v(4) by (simp add: ac_simps)
  then have bal: "pending ?w + mset due =
      pending w + mset (concat (map (armed_by arms) (map (Pair (current_tick u)) due)))"
    using v(5) pu by (simp add: o_def)
  have inv': "wheel_inv ?w"
    using v(2,3) lv sl in_slot [OF sl]
    by (auto simp: wheel_inv_def buckets_ok_def nth_list_update keep_def es_def slots)
  show ?thesis
  proof (cases "es = []")
    case True
    then have "due = []" "keep = []" by (simp_all add: due_def keep_def)
    have "wheel_inv u"
      unfolding wheel_inv_def buckets_ok_def slots
    proof (intro conjI allI impI ballI)
      fix j e
      assume j: "j < 512" "e \<in> set (wheel_slots w ! j)"
      then have "j \<noteq> slot" using True by (auto simp: es_def slots)
      with j show "current_tick u < expires_tick e" by (intro later)
      show "slot_of (expires_tick e) = j" by (rule in_slot [OF j])
    qed (use len room tick(1) in simp_all)
    then show ?thesis
      using True tick slots by (simp add: wheel_tick_def Let_def u_def slot_def es_def)
  next
    case False
    then have "wheel_tick arms w = Some (due, ?w)"
      using v(1) by (simp add: wheel_tick_def Let_def u_def slot_def es_def due_def keep_def)
    then show ?thesis using inv' bal exact v(3) tick by simp
  qed
qed

lemma advance_loop_ok:
  assumes "wheel_inv w" and nf: "no_full_turn arms" and tgt: "unat target \<le> max_tick"
  shows "\<exists>fired w'. advance_loop arms target w = Some (fired, w') \<and> wheel_inv w' \<and>
    current_tick w' = max (current_tick w) target \<and>
    (\<forall>(t, e) \<in> set fired. t = expires_tick e \<and> current_tick w < t \<and> t \<le> target) \<and>
    sorted (map fst fired) \<and>
    pending w' + mset (map snd fired) = pending w + mset (concat (map (armed_by arms) fired))"
  using assms(1)
proof (induction "unat target - unat (current_tick w)" arbitrary: w rule: less_induct)
  case less
  show ?case
  proof (cases "current_tick w < target")
    case False
    then show ?thesis using less.prems by (simp add: advance_loop.simps [of _ _ w] max_def)
  next
    case True
    then have lt: "unat (current_tick w) < unat target" by (simp add: word_less_nat_alt)
    with tgt have room: "unat (current_tick w) < max_tick" by simp
    from wheel_tick_ok [OF less.prems nf room] obtain due w1 where w1:
      "wheel_tick arms w = Some (due, w1)" "wheel_inv w1" "current_tick w1 = current_tick w + 1"
      "\<forall>e \<in> set due. expires_tick e = current_tick w1"
      "pending w1 + mset due = pending w + mset (concat (map (armed_by arms) (map (Pair (current_tick w1)) due)))"
      by blast
    have t1: "unat (current_tick w1) = unat (current_tick w) + 1"
      using room by (simp add: w1(3) unat_plus_if' max_tick_def)
    then have "unat target - unat (current_tick w1) < unat target - unat (current_tick w)" using lt by simp
    from less.hyps [OF this w1(2)] obtain fired w2 where w2:
      "advance_loop arms target w1 = Some (fired, w2)" "wheel_inv w2"
      "current_tick w2 = max (current_tick w1) target"
      "\<forall>(t, e) \<in> set fired. t = expires_tick e \<and> current_tick w1 < t \<and> t \<le> target"
      "sorted (map fst fired)"
      "pending w2 + mset (map snd fired) = pending w1 + mset (concat (map (armed_by arms) fired))"
      by blast
    let ?now = "map (Pair (current_tick w1)) due"
    have run: "advance_loop arms target w = Some (?now @ fired, w2)"
      using True w1(1) w2(1) by (simp add: advance_loop.simps [of _ _ w])
    have le: "current_tick w < current_tick w1" "current_tick w1 \<le> target"
      using t1 lt by (simp_all add: word_less_nat_alt word_le_nat_alt)
    have all: "\<forall>(t, e) \<in> set (?now @ fired). t = expires_tick e \<and> current_tick w < t \<and> t \<le> target"
      using w1(4) w2(4) le by fastforce
    have "sorted (map fst ?now)" by (simp add: o_def map_replicate_const)
    moreover have "t \<le> t'" if "t \<in> set (map fst ?now)" "t' \<in> set (map fst fired)" for t t'
      using that w2(4) by fastforce
    ultimately have "sorted (map fst (?now @ fired))"
      using w2(5) by (simp only: map_append sorted_append) blast
    moreover have "pending w2 + mset (map snd (?now @ fired)) =
        pending w + mset (concat (map (armed_by arms) (?now @ fired)))"
      using w1(5) w2(6) by (simp add: o_def ac_simps)
    moreover have "current_tick w2 = max (current_tick w) target"
      using w2(3) le True by (simp add: max_absorb2)
    ultimately show ?thesis using run w2(2) all by blast
  qed
qed

section \<open>Timers fire exactly when they expire\<close>

text \<open>
  C22. \<^verbatim>\<open>TimerWheel::advance\<close> on a wheel whose timers lie in the future returns, fires every timer
  exactly at its expiry tick (never early, never a turn of the wheel late), in tick order, and
  loses or duplicates none: the timers left plus those fired are the timers that were pending
  plus those the fired callbacks armed; every timer left expires after the new current tick. No
  sum of ticks wraps. The callbacks may arm timers, but none with a delay of a whole number of
  turns of the wheel.
\<close>

theorem wheel_advance_exact:
  assumes "wheel_inv w" and "no_full_turn arms"
  shows "\<exists>fired w'. advance arms now_ns w = Some (fired, w') \<and> wheel_inv w' \<and>
    current_tick w' = max (current_tick w) (now_ns div TICK_NS) \<and>
    (\<forall>(t, e) \<in> set fired. t = expires_tick e \<and> current_tick w < t \<and> t \<le> now_ns div TICK_NS) \<and>
    sorted (map fst fired) \<and>
    (\<forall>e \<in># pending w'. current_tick w' < expires_tick e) \<and>
    pending w' + mset (map snd fired) = pending w + mset (concat (map (armed_by arms) fired))"
proof -
  have left: "\<forall>e \<in># pending w'. current_tick w' < expires_tick e" if "wheel_inv w'" for w' :: "'c TimerWheel"
    using that by (fastforce simp: pending_def wheel_inv_def buckets_ok_def in_set_conv_nth)
  from advance_loop_ok [OF assms tick_bound, of now_ns] obtain fired w' where
    "advance_loop arms (now_ns div TICK_NS) w = Some (fired, w')" "wheel_inv w'"
    "current_tick w' = max (current_tick w) (now_ns div TICK_NS)"
    "\<forall>(t, e) \<in> set fired. t = expires_tick e \<and> current_tick w < t \<and> t \<le> now_ns div TICK_NS"
    "sorted (map fst fired)"
    "pending w' + mset (map snd fired) = pending w + mset (concat (map (armed_by arms) fired))"
    by blast
  then show ?thesis unfolding advance_def using left by blast
qed

theorem wheel_advance_exact_witness:
  "\<exists>fired w'. advance (\<lambda>cb. if cb = (1::nat) then [(3000000, 2)] else []) 2000000 (add_timer 2000000 1 wheel_new) =
      Some (fired, w') \<and> current_tick w' = max 0 (2000000 div TICK_NS)"
proof -
  have "wheel_inv (add_timer 2000000 1 (wheel_new :: nat TimerWheel))"
    using wheel_new_inv unfolding wheel_inv_def by (rule add_timer_inv)
  moreover have "no_full_turn (\<lambda>cb. if cb = (1::nat) then [(3000000, 2)] else [])"
    by (simp add: no_full_turn_def delay_ticks_def TICK_NS_def unat_div Let_def)
  ultimately show ?thesis
    using wheel_advance_exact [of "add_timer 2000000 1 (wheel_new :: nat TimerWheel)" _ 2000000]
    by (fastforce simp: wheel_new_def)
qed

text \<open>
  Arming keeps the invariant from every state, so the hypothesis of the advance theorem is met by
  every wheel built with \<^verbatim>\<open>initialize\<close> before the first timer: the timer lands in the future,
  at least one tick and at most the requested delay ahead unless the delay is below a tick.
\<close>

theorem add_timer_correct:
  assumes "wheel_inv w"
  shows "wheel_inv (add_timer d cb w) \<and>
    pending (add_timer d cb w) = pending w + {#armed_entry (current_tick w) (d, cb)#} \<and>
    unat (expires_tick (armed_entry (current_tick w) (d, cb))) = unat (current_tick w) + max 1 (unat d div 1000000)"
proof -
  have t: "unat (current_tick w) \<le> max_tick" using assms by (simp add: wheel_inv_def buckets_ok_def)
  have "unat (delay_ticks d) = max 1 (unat d div 1000000)"
    using unat_div_TICK [of d] by (auto simp: delay_ticks_def Let_def max_def unat_eq_zero [symmetric])
  then show ?thesis
    using add_timer_inv [of UNIV w d cb] assms expiry_no_wrap [OF t, of d]
    by (simp add: wheel_inv_def armed_entry_def)
qed

theorem add_timer_correct_witness:
  "unat (expires_tick (armed_entry (current_tick (wheel_new :: nat TimerWheel)) (5000000, 1::nat))) = 5"
  using add_timer_correct [OF wheel_new_inv, of 5000000 "1::nat"] by (simp add: wheel_new_def)

section \<open>Two limits of the wheel\<close>

text \<open>
  A callback that arms a timer 512 ticks ahead appends to the bucket that \<^verbatim>\<open>advance\<close> is iterating.
\<close>

lemma rearm_full_turn_undefined:
  "wheel_tick (\<lambda>cb :: nat. [(512000000, cb)]) (add_timer 1000000 7 wheel_new) = None"
  by (simp add: wheel_tick_def Let_def add_timer_def wheel_new_def delay_ticks_def TICK_NS_def slot_of_def SLOTS_def)

text \<open>
  A timer armed before \<^verbatim>\<open>initialize\<close> is measured from tick 0. Here a timer of five seconds, armed on a
  fresh wheel that is then initialised at second ten, fires with the next tick.
\<close>

lemma armed_before_initialize_fires_early:
  "\<exists>w'. wheel_tick (\<lambda>cb. []) (wheel_initialize 10119000000 (add_timer 5000000000 (7::nat) wheel_new)) =
     Some ([\<lparr> expires_tick = 5000, callback = 7 \<rparr>], w')"
  by (simp add: wheel_tick_def Let_def add_timer_def wheel_new_def delay_ticks_def TICK_NS_def slot_of_def SLOTS_def
      wheel_initialize_def)

end
