(* ===== verification/Reactor.thy ===== *)
theory Reactor
  imports "HOL-Library.Sublist" Ticket_Queue Timer_Wheel
begin

text \<open>
  \<^verbatim>\<open>reactor/reactor.hpp\<close> and \<^verbatim>\<open>.cpp\<close>, \<^verbatim>\<open>epoll_backend.cpp\<close> and the main loop and signal handler of
  \<^verbatim>\<open>server/main.cpp\<close>: one thread resumes coroutines from its run queue, fires timers and polls
  for events; other threads hand it coroutines through the MPMC queue, of which the steps below use the contract of \<open>Ticket_Queue\<close>. What a coroutine does while it runs is arbitrary:
  it may schedule, arm timers, suspend or end. The events that \<^verbatim>\<open>epoll_wait\<close> reports are arbitrary,
  too. The parameters \<open>arms\<close> and \<open>wakes\<close> give the timers that a timer callback arms and the
  coroutines that it schedules.
\<close>

section \<open>The threads and their steps\<close>

text \<open>
  A coroutine handle is its frame's address, zero is the null handle. The lines of \<^verbatim>\<open>main\<close> and \<^verbatim>\<open>run\<close>:
  \<open>Main_Test\<close> the test of \<^verbatim>\<open>g_running\<close>; \<open>Store_Running\<close> and \<open>Store_Current\<close> the entry of \<^verbatim>\<open>run\<close>; \<open>Loop_Test\<close> to
  \<open>Events\<close> its loop, in which \<open>Pop_Release h\<close> is inside \<^verbatim>\<open>try_pop\<close>, with \<open>h\<close> taken and its slot not yet released; \<open>In_Coroutine h r\<close>: the coroutine \<open>h\<close> runs, resumed from the scratch
  queue (\<open>r = None\<close>) or by the poll, whose events \<open>r\<close> remain.
\<close>

datatype rpc = Main_Test | Store_Running | Store_Current | Loop_Test | Pop_External | Pop_Release nat | Sub_Pending | Swap_Queues
  | Run_Scratch | Timers | Poll | Events "nat list" | In_Coroutine nat "nat list option" | Ended

text \<open>The lines of \<^verbatim>\<open>schedule\<close> on another thread; \<open>X_Claimed k\<close>: inside \<^verbatim>\<open>try_push\<close> with ticket \<open>k\<close>, not yet published.\<close>

datatype xpc = X_Idle | X_Push nat | X_Claimed nat | X_Count

text \<open>
  The members of \<^verbatim>\<open>Reactor\<close>; \<open>current\<close> is the main thread's copy of the thread-local \<^verbatim>\<open>current_\<close>, which no other
  thread sets. The main thread is thread 0. The last six fields are histories: handles in the order in which they
  entered the run queue, left it and were resumed; entered the external queue and left it; and how
  many of them had left it or could leave it when the current round began.
\<close>

record 'c reactor =
  g_running :: bool
  running :: bool
  thread_id :: "nat option"
  current :: bool
  run_queue :: "nat list"
  scratch_queue :: "nat list"
  external_queue :: "nat tickets"
  external_pending :: u64
  timer_wheel :: "'c TimerWheel"
  finished :: "nat set"
  poll_timeout :: int
  rpc :: rpc
  xpcs :: "nat \<Rightarrow> xpc"
  arrivals :: "nat list"
  handled :: "nat list"
  resumed :: "nat list"
  pushed :: "nat list"
  moved :: "nat list"
  due :: nat

definition EXTERNAL_CAPACITY :: nat where "EXTERNAL_CAPACITY = 1024"

text \<open>The state in which \<^verbatim>\<open>main\<close> enters its loop: the accept loop \<open>h\<close> was scheduled before \<^verbatim>\<open>run()\<close> recorded the thread, so it is in the external queue.\<close>

definition reactor_init :: "nat \<Rightarrow> 'c reactor \<Rightarrow> bool" where
  "reactor_init h s \<longleftrightarrow> s = \<lparr> g_running = True, running = False, thread_id = None, current = False, run_queue = [],
     scratch_queue = [], external_queue = [(h, True)], external_pending = 1, timer_wheel = wheel_new, finished = {}, poll_timeout = 0,
     rpc = Main_Test, xpcs = (\<lambda>t. X_Idle), arrivals = [], handled = [], resumed = [], pushed = [h], moved = [], due = 0 \<rparr>"

text \<open>\<^verbatim>\<open>run_queue_.push_back\<close>.\<close>

definition enqueue :: "nat list \<Rightarrow> 'c reactor \<Rightarrow> 'c reactor" where
  "enqueue hs s = s\<lparr> run_queue := run_queue s @ hs, arrivals := arrivals s @ hs \<rparr>"

definition next_timeout :: "'c reactor \<Rightarrow> int" where
  "next_timeout s = (if run_queue s = [] \<and> external_pending s = 0 then 1 else 0)"

definition resumable :: "nat \<Rightarrow> 'c reactor \<Rightarrow> bool" where
  "resumable h s \<longleftrightarrow> h \<noteq> 0 \<and> h \<notin> finished s"

definition return_to :: "nat list option \<Rightarrow> rpc" where
  "return_to r = (case r of None \<Rightarrow> Run_Scratch | Some evs \<Rightarrow> Events evs)"

text \<open>The external queue as its contract sees it.\<close>

fun popping :: "rpc \<Rightarrow> nat list" where
  "popping (Pop_Release h) = [h]"
| "popping _ = []"

definition external_tickets :: "'c reactor \<Rightarrow> nat ticket_queue" where
  "external_tickets s = \<lparr> first_ticket = length (moved s), tickets = external_queue s,
     releasing = (if popping (rpc s) = [] then {} else {length (moved s) - 1}) \<rparr>"

text \<open>\<^verbatim>\<open>process_external_queue\<close>.\<close>

inductive drain_step :: "'c reactor \<Rightarrow> 'c reactor \<Rightarrow> bool" where
  pop: "rpc s = Pop_External \<Longrightarrow> take_ticket (external_queue s) = Some (h, q) \<Longrightarrow>
    drain_step s (s\<lparr> external_queue := q, moved := moved s @ [h], rpc := Pop_Release h \<rparr>)"
| pop_return: "rpc s = Pop_Release h \<Longrightarrow> drain_step s (enqueue [h] (s\<lparr> rpc := Sub_Pending \<rparr>))"
| pop_none: "rpc s = Pop_External \<Longrightarrow> may_miss (external_tickets s) \<Longrightarrow> drain_step s (s\<lparr> rpc := Swap_Queues \<rparr>)"
| sub_pending: "rpc s = Sub_Pending \<Longrightarrow>
    drain_step s (s\<lparr> external_pending := external_pending s - 1, rpc := Pop_External \<rparr>)"

text \<open>\<^verbatim>\<open>EpollBackend::poll\<close>: at most 128 events; when \<^verbatim>\<open>epoll_wait\<close> fails there are none.\<close>

inductive poll_step :: "'c reactor \<Rightarrow> 'c reactor \<Rightarrow> bool" where
  poll: "rpc s = Poll \<Longrightarrow> length evs \<le> 128 \<Longrightarrow>
    poll_step s (s\<lparr> poll_timeout := next_timeout s, rpc := Events evs \<rparr>)"
| event_resume: "rpc s = Events (h # evs) \<Longrightarrow> resumable h s \<Longrightarrow>
    poll_step s (s\<lparr> resumed := resumed s @ [h], rpc := In_Coroutine h (Some evs) \<rparr>)"
| event_skip: "rpc s = Events (h # evs) \<Longrightarrow> \<not> resumable h s \<Longrightarrow> poll_step s (s\<lparr> rpc := Events evs \<rparr>)"
| events_end: "rpc s = Events [] \<Longrightarrow> poll_step s (s\<lparr> rpc := Loop_Test \<rparr>)"

text \<open>
  A coroutine that was resumed: \<^verbatim>\<open>schedule\<close> on the reactor's own thread, as \<^verbatim>\<open>Yield\<close> and the accept loop call it, \<^verbatim>\<open>add_timer\<close>, suspension and the end of its body.
\<close>

inductive coroutine_step :: "'c reactor \<Rightarrow> 'c reactor \<Rightarrow> bool" where
  co_schedule: "rpc s = In_Coroutine h r \<Longrightarrow> thread_id s = Some 0 \<Longrightarrow> coroutine_step s (enqueue [h'] s)"
| co_timer: "rpc s = In_Coroutine h r \<Longrightarrow> coroutine_step s (s\<lparr> timer_wheel := add_timer d cb (timer_wheel s) \<rparr>)"
| co_suspend: "rpc s = In_Coroutine h r \<Longrightarrow> coroutine_step s (s\<lparr> rpc := return_to r \<rparr>)"
| co_end: "rpc s = In_Coroutine h r \<Longrightarrow> coroutine_step s (s\<lparr> finished := insert h (finished s), rpc := return_to r \<rparr>)"

text \<open>\<^verbatim>\<open>run\<close> and the loop of \<^verbatim>\<open>main\<close> around it.\<close>

inductive reactor_thread :: "('c \<Rightarrow> (u64 \<times> 'c) list) \<Rightarrow> ('c \<Rightarrow> nat list) \<Rightarrow> 'c reactor \<Rightarrow> 'c reactor \<Rightarrow> bool"
  for arms wakes where
  main_enter: "rpc s = Main_Test \<Longrightarrow> g_running s \<Longrightarrow> reactor_thread arms wakes s (s\<lparr> rpc := Store_Running \<rparr>)"
| main_leave: "rpc s = Main_Test \<Longrightarrow> \<not> g_running s \<Longrightarrow> reactor_thread arms wakes s (s\<lparr> rpc := Ended \<rparr>)"
| store_running: "rpc s = Store_Running \<Longrightarrow> reactor_thread arms wakes s (s\<lparr> running := True, rpc := Store_Current \<rparr>)"
| store_current: "rpc s = Store_Current \<Longrightarrow> reactor_thread arms wakes s
    (s\<lparr> thread_id := Some 0, current := True, timer_wheel := wheel_initialize now (timer_wheel s), rpc := Loop_Test \<rparr>)"
| loop_test: "rpc s = Loop_Test \<Longrightarrow> running s \<Longrightarrow>
    reactor_thread arms wakes s (s\<lparr> rpc := Pop_External, due := length (moved s) + length (ready_tickets (external_queue s)) \<rparr>)"
| loop_exit: "rpc s = Loop_Test \<Longrightarrow> \<not> running s \<Longrightarrow> reactor_thread arms wakes s (s\<lparr> rpc := Main_Test \<rparr>)"
| swap: "rpc s = Swap_Queues \<Longrightarrow>
    reactor_thread arms wakes s (s\<lparr> scratch_queue := run_queue s, run_queue := [], rpc := Run_Scratch \<rparr>)"
| scratch_resume: "rpc s = Run_Scratch \<Longrightarrow> scratch_queue s = h # hs \<Longrightarrow> resumable h s \<Longrightarrow> reactor_thread arms wakes s
    (s\<lparr> scratch_queue := hs, handled := handled s @ [h], resumed := resumed s @ [h], rpc := In_Coroutine h None \<rparr>)"
| scratch_skip: "rpc s = Run_Scratch \<Longrightarrow> scratch_queue s = h # hs \<Longrightarrow> \<not> resumable h s \<Longrightarrow>
    reactor_thread arms wakes s (s\<lparr> scratch_queue := hs, handled := handled s @ [h] \<rparr>)"
| scratch_end: "rpc s = Run_Scratch \<Longrightarrow> scratch_queue s = [] \<Longrightarrow> reactor_thread arms wakes s (s\<lparr> rpc := Timers \<rparr>)"
| timers: "rpc s = Timers \<Longrightarrow> advance arms now (timer_wheel s) = Some (fired, w) \<Longrightarrow> reactor_thread arms wakes s
    (enqueue (concat (map (\<lambda>(t, e). wakes (callback e)) fired)) (s\<lparr> timer_wheel := w, rpc := Poll \<rparr>))"
| in_drain: "drain_step s s' \<Longrightarrow> reactor_thread arms wakes s s'"
| in_poll: "poll_step s s' \<Longrightarrow> reactor_thread arms wakes s s'"
| in_coroutine: "coroutine_step s s' \<Longrightarrow> reactor_thread arms wakes s s'"

text \<open>\<^verbatim>\<open>schedule\<close> on any other thread: the retry loop around \<^verbatim>\<open>try_push\<close>, then the counter. \<^verbatim>\<open>EpollBackend\<close> does not override \<^verbatim>\<open>wakeup()\<close>, which does nothing.\<close>

inductive other_thread :: "nat \<Rightarrow> 'c reactor \<Rightarrow> 'c reactor \<Rightarrow> bool" for t where
  schedule_call: "t \<noteq> 0 \<Longrightarrow> thread_id s \<noteq> Some t \<Longrightarrow> xpcs s t = X_Idle \<Longrightarrow>
    other_thread t s (s\<lparr> xpcs := (xpcs s)(t := X_Push h) \<rparr>)"
| schedule_full: "xpcs s t = X_Push h \<Longrightarrow> may_refuse EXTERNAL_CAPACITY (external_tickets s) \<Longrightarrow> other_thread t s s"
| schedule_claim: "xpcs s t = X_Push h \<Longrightarrow> claim_ticket EXTERNAL_CAPACITY h (external_queue s) = Some q \<Longrightarrow>
    other_thread t s (s\<lparr> external_queue := q, pushed := pushed s @ [h], xpcs := (xpcs s)(t := X_Claimed (length (pushed s))) \<rparr>)"
| schedule_publish: "xpcs s t = X_Claimed k \<Longrightarrow>
    other_thread t s (s\<lparr> external_queue := publish_ticket (k - length (moved s)) (external_queue s), xpcs := (xpcs s)(t := X_Count) \<rparr>)"
| schedule_count: "xpcs s t = X_Count \<Longrightarrow>
    other_thread t s (s\<lparr> external_pending := external_pending s + 1, xpcs := (xpcs s)(t := X_Idle) \<rparr>)"

text \<open>\<^verbatim>\<open>signal_handler\<close> on the thread \<open>t\<close> that receives the signal.\<close>

definition signal_handler :: "nat \<Rightarrow> 'c reactor \<Rightarrow> 'c reactor" where
  "signal_handler t s = s\<lparr> g_running := False, running := (if t = 0 \<and> current s then False else running s) \<rparr>"

definition thread_step :: "('c \<Rightarrow> (u64 \<times> 'c) list) \<Rightarrow> ('c \<Rightarrow> nat list) \<Rightarrow> 'c reactor \<Rightarrow> 'c reactor \<Rightarrow> bool" where
  "thread_step arms wakes s s' \<longleftrightarrow> reactor_thread arms wakes s s' \<or> (\<exists>t. other_thread t s s')"

definition reactor_step :: "('c \<Rightarrow> (u64 \<times> 'c) list) \<Rightarrow> ('c \<Rightarrow> nat list) \<Rightarrow> 'c reactor \<Rightarrow> 'c reactor \<Rightarrow> bool" where
  "reactor_step arms wakes s s' \<longleftrightarrow> thread_step arms wakes s s' \<or> (\<exists>t. s' = signal_handler t s)"

inductive_cases other_thread_cases: "other_thread t s s'"

section \<open>The invariant\<close>

fun on_scratch :: "rpc \<Rightarrow> bool" where
  "on_scratch Run_Scratch = True"
| "on_scratch (In_Coroutine h None) = True"
| "on_scratch _ = False"

fun round_over :: "rpc \<Rightarrow> bool" where
  "round_over Timers = True"
| "round_over Poll = True"
| "round_over (Events evs) = True"
| "round_over (In_Coroutine h (Some evs)) = True"
| "round_over _ = False"

fun before_run :: "rpc \<Rightarrow> bool" where
  "before_run Store_Running = True"
| "before_run Store_Current = True"
| "before_run _ = False"

text \<open>Handles pass through the two queues in order, and nothing is lost.\<close>

definition order_ok :: "'c reactor \<Rightarrow> bool" where
  "order_ok s \<longleftrightarrow> arrivals s = handled s @ scratch_queue s @ run_queue s \<and> (\<not> on_scratch (rpc s) \<longrightarrow> scratch_queue s = []) \<and>
     pushed s = moved s @ map fst (external_queue s) \<and> length (external_queue s) \<le> EXTERNAL_CAPACITY \<and>
     subseq (moved s) (handled s @ scratch_queue s @ run_queue s @ popping (rpc s))"

text \<open>Every unpublished ticket belongs to exactly one thread, which is about to publish it.\<close>

definition claims_ok :: "'c reactor \<Rightarrow> bool" where
  "claims_ok s \<longleftrightarrow> (\<forall>t k. xpcs s t = X_Claimed k \<longrightarrow> length (moved s) \<le> k \<and> k < length (pushed s)) \<and>
     (\<forall>t t' k. xpcs s t = X_Claimed k \<and> xpcs s t' = X_Claimed k \<longrightarrow> t = t') \<and>
     (\<forall>i < length (external_queue s). \<not> snd (external_queue s ! i) \<longleftrightarrow> (\<exists>t. xpcs s t = X_Claimed (length (moved s) + i)))"

text \<open>The counter, while some threads have a ticket and have not yet counted.\<close>

fun uncounted :: "xpc \<Rightarrow> bool" where
  "uncounted (X_Claimed k) = True"
| "uncounted X_Count = True"
| "uncounted _ = False"

definition counting :: "'c reactor \<Rightarrow> nat set" where
  "counting s = {t. uncounted (xpcs s t)}"

fun popped :: "rpc \<Rightarrow> bool" where
  "popped (Pop_Release h) = True"
| "popped Sub_Pending = True"
| "popped _ = False"

definition count_ok :: "'c reactor \<Rightarrow> bool" where
  "count_ok s \<longleftrightarrow> finite (counting s) \<and> external_pending s + of_nat (card (counting s)) =
     of_nat (length (external_queue s)) + (if popped (rpc s) then 1 else 0)"

fun draining :: "rpc \<Rightarrow> bool" where
  "draining Pop_External = True"
| "draining (Pop_Release h) = True"
| "draining Sub_Pending = True"
| "draining _ = False"

text \<open>What could be popped when the round began has been dealt with when the round has gone through the run queue.\<close>

definition round_ok :: "'c reactor \<Rightarrow> bool" where
  "round_ok s \<longleftrightarrow> due s \<le> length (pushed s) \<and>
     (draining (rpc s) \<longrightarrow> due s \<le> length (moved s) + length (ready_tickets (external_queue s))) \<and>
     (rpc s = Swap_Queues \<longrightarrow> due s \<le> length (moved s)) \<and>
     (on_scratch (rpc s) \<longrightarrow> mset (take (due s) (pushed s)) \<subseteq># mset (handled s @ scratch_queue s)) \<and>
     (round_over (rpc s) \<longrightarrow> mset (take (due s) (pushed s)) \<subseteq># mset (handled s))"

text \<open>The wheel is set to the clock once, before any timer is armed; the loop is left only after a signal.\<close>

definition clock_ok :: "'c reactor \<Rightarrow> bool" where
  "clock_ok s \<longleftrightarrow> wheel_inv (timer_wheel s) \<and> (before_run (rpc s) \<longrightarrow> timer_wheel s = wheel_new) \<and>
     (rpc s = Main_Test \<and> g_running s \<longrightarrow> timer_wheel s = wheel_new) \<and>
     (rpc s \<noteq> Main_Test \<and> rpc s \<noteq> Store_Running \<and> g_running s \<longrightarrow> running s)"

definition reactor_inv :: "'c reactor \<Rightarrow> bool" where
  "reactor_inv s \<longleftrightarrow> order_ok s \<and> claims_ok s \<and> count_ok s \<and> round_ok s"

section \<open>Every step preserves it\<close>

lemma enqueue_frame [simp]:
  "rpc (enqueue hs s) = rpc s" "run_queue (enqueue hs s) = run_queue s @ hs" "arrivals (enqueue hs s) = arrivals s @ hs"
  "scratch_queue (enqueue hs s) = scratch_queue s" "handled (enqueue hs s) = handled s" "pushed (enqueue hs s) = pushed s"
  "moved (enqueue hs s) = moved s" "external_queue (enqueue hs s) = external_queue s" "due (enqueue hs s) = due s"
  "external_pending (enqueue hs s) = external_pending s" "xpcs (enqueue hs s) = xpcs s" "running (enqueue hs s) = running s"
  "g_running (enqueue hs s) = g_running s" "timer_wheel (enqueue hs s) = timer_wheel s"
  by (simp_all add: enqueue_def)

lemma signal_handler_frame [simp]:
  "rpc (signal_handler t s) = rpc s" "run_queue (signal_handler t s) = run_queue s" "arrivals (signal_handler t s) = arrivals s"
  "scratch_queue (signal_handler t s) = scratch_queue s" "handled (signal_handler t s) = handled s" "pushed (signal_handler t s) = pushed s"
  "moved (signal_handler t s) = moved s" "external_queue (signal_handler t s) = external_queue s" "due (signal_handler t s) = due s"
  "external_pending (signal_handler t s) = external_pending s" "xpcs (signal_handler t s) = xpcs s"
  "g_running (signal_handler t s) = False" "timer_wheel (signal_handler t s) = timer_wheel s"
  by (simp_all add: signal_handler_def)

lemma return_to_simps [simp]: "return_to None = Run_Scratch" "return_to (Some evs) = Events evs"
  by (simp_all add: return_to_def)

lemma subseq_mset: "subseq xs ys \<Longrightarrow> mset xs \<subseteq># mset ys"
  by (induction rule: list_emb.induct) (auto intro: subset_mset.order_trans)

lemma subseq_snoc: "subseq xs ys \<Longrightarrow> subseq xs (ys @ zs)" "subseq xs ys \<Longrightarrow> subseq (xs @ zs) (ys @ zs)"
  using list_emb_append_mono [of "(=)" xs ys "[]" zs] by simp_all

lemma order_enqueue: "order_ok s \<Longrightarrow> popping (rpc s) = [] \<Longrightarrow> order_ok (enqueue hs s)"
  using subseq_snoc(1) [of "moved s" "handled s @ scratch_queue s @ run_queue s" hs] by (auto simp: order_ok_def)

lemma external_tickets_simps [simp]: "tickets (external_tickets s) = external_queue s"
  by (simp add: external_tickets_def)

lemma order_thread:
  assumes "order_ok s" "reactor_thread arms wakes s s'"
  shows "order_ok s'"
  using assms(2)
proof (cases rule: reactor_thread.cases)
  case in_drain
  then show ?thesis
  proof (cases rule: drain_step.cases)
    case (pop h q)
    then show ?thesis using assms(1) subseq_snoc(2) [of "moved s" "handled s @ run_queue s" "[h]"] by (auto simp: order_ok_def)
  qed (use assms(1) in \<open>auto simp: order_ok_def\<close>)
next
  case in_poll
  then show ?thesis by (cases rule: poll_step.cases) (use assms(1) in \<open>auto simp: order_ok_def\<close>)
next
  case in_coroutine
  then show ?thesis
  proof (cases rule: coroutine_step.cases)
    case (co_schedule h r h')
    show ?thesis unfolding co_schedule(1) using assms(1) by (rule order_enqueue) (simp add: co_schedule)
  qed (use assms(1) in \<open>auto simp: order_ok_def return_to_def split: option.splits\<close>)
next
  case (timers now fired w)
  have "order_ok (s\<lparr> timer_wheel := w, rpc := Poll \<rparr>)" using assms(1) timers by (auto simp: order_ok_def)
  then show ?thesis unfolding timers(1) by (rule order_enqueue) simp
qed (use assms(1) in \<open>auto simp: order_ok_def\<close>)

lemma order_other:
  assumes "order_ok s" "other_thread t s s'"
  shows "order_ok s'"
  using assms(2) by (cases rule: other_thread.cases) (use assms(1) in \<open>auto simp: order_ok_def\<close>)

lemma counting_frame:
  "xpcs s' = xpcs s \<Longrightarrow> counting s' = counting s"
  by (simp add: counting_def)

lemmas sub_step_elims = drain_step.cases poll_step.cases coroutine_step.cases

lemma thread_xpcs: "reactor_thread arms wakes s s' \<Longrightarrow> xpcs s' = xpcs s"
  by (auto elim!: reactor_thread.cases sub_step_elims)

lemma claims_frame:
  assumes "claims_ok s" "\<And>u m. xpcs s' u = X_Claimed m \<longleftrightarrow> xpcs s u = X_Claimed m"
    and "moved s' = moved s" "pushed s' = pushed s" "external_queue s' = external_queue s"
  shows "claims_ok s'"
  using assms(1) unfolding claims_ok_def assms(2-5) .

lemma claims_thread:
  assumes "order_ok s" "claims_ok s" "reactor_thread arms wakes s s'"
  shows "claims_ok s'"
proof (cases "moved s' = moved s \<and> external_queue s' = external_queue s \<and> pushed s' = pushed s")
  case True
  then show ?thesis using assms(2) thread_xpcs [OF assms(3)] by (simp add: claims_ok_def)
next
  case False
  then obtain h q where q: "external_queue s = (h, True) # q" "external_queue s' = q" "moved s' = moved s @ [h]" "pushed s' = pushed s"
    using assms(3) by (auto elim!: reactor_thread.cases sub_step_elims)
  note x = thread_xpcs [OF assms(3)]
  have own: "\<not> snd (external_queue s ! i) \<longleftrightarrow> (\<exists>t. xpcs s t = X_Claimed (length (moved s) + i))" if "i < length (external_queue s)" for i
    using assms(2) that by (simp add: claims_ok_def)
  have "length (moved s) \<noteq> k" if "xpcs s t = X_Claimed k" for t k using own [of 0] that q by auto
  moreover have "\<not> snd (q ! i) \<longleftrightarrow> (\<exists>t. xpcs s t = X_Claimed (length (moved s) + 1 + i))" if "i < length q" for i
    using own [of "Suc i"] that q by simp
  ultimately show ?thesis using assms(2) q x unfolding claims_ok_def by (auto simp: Suc_le_eq le_neq_implies_less)
qed

lemma claims_other:
  assumes "order_ok s" "claims_ok s" "other_thread t s s'"
  shows "claims_ok s'"
  using assms(3)
proof (cases rule: other_thread.cases)
  case (schedule_claim h q)
  have len: "length (pushed s) = length (moved s) + length (external_queue s)" using assms(1) by (simp add: order_ok_def)
  have "ta \<noteq> t" if "xpcs s ta = X_Claimed k" for ta k using schedule_claim that by auto
  then show ?thesis using len assms(2) schedule_claim unfolding claims_ok_def by (auto simp: nth_append less_Suc_eq)
next
  case (schedule_publish k)
  let ?j = "k - length (moved s)"
  have k: "length (moved s) + ?j = k" "?j < length (external_queue s)"
    using assms(1,2) schedule_publish unfolding claims_ok_def order_ok_def by fastforce+
  have own: "\<not> snd (external_queue s ! i) \<longleftrightarrow> (\<exists>t. xpcs s t = X_Claimed (length (moved s) + i))" if "i < length (external_queue s)" for i
    using assms(2) that by (simp add: claims_ok_def)
  have "u = t" if "xpcs s u = X_Claimed k" for u using assms(2) that schedule_publish unfolding claims_ok_def by blast
  then have "\<not> snd (publish_ticket ?j (external_queue s) ! i) \<longleftrightarrow> (\<exists>u. u \<noteq> t \<and> xpcs s u = X_Claimed (length (moved s) + i))"
    if "i < length (external_queue s)" for i
  proof (cases "i = ?j")
    case True
    then show ?thesis using publish_ticket_nth [OF k(2) that] k(1) \<open>\<And>u. xpcs s u = X_Claimed k \<Longrightarrow> u = t\<close> by auto
  next
    case False
    then have neq: "xpcs s t \<noteq> X_Claimed (length (moved s) + i)" using schedule_publish(2) k(1) by auto
    have same: "snd (publish_ticket ?j (external_queue s) ! i) = snd (external_queue s ! i)"
      unfolding publish_ticket_nth [OF k(2) that] using False by simp
    show ?thesis unfolding same own [OF that] using neq by metis
  qed
  moreover have "xpcs s' u = X_Claimed m \<longleftrightarrow> u \<noteq> t \<and> xpcs s u = X_Claimed m" for u m using schedule_publish by simp
  moreover have "moved s' = moved s" "pushed s' = pushed s" "external_queue s' = publish_ticket ?j (external_queue s)"
    using schedule_publish by simp_all
  ultimately show ?thesis using assms(2) unfolding claims_ok_def by (simp (no_asm_simp)) blast
qed (rule claims_frame [OF assms(2)]; auto)+

lemma count_thread:
  assumes "count_ok s" "reactor_thread arms wakes s s'"
  shows "count_ok s'"
proof -
  have c: "counting s' = counting s" using thread_xpcs [OF assms(2)] by (simp add: counting_def)
  from assms(2) show ?thesis
  proof (cases rule: reactor_thread.cases)
    case in_drain
    then show ?thesis by (cases rule: drain_step.cases) (use assms(1) c in \<open>auto simp: count_ok_def algebra_simps\<close>)
  next
    case in_poll
    then show ?thesis by (cases rule: poll_step.cases) (use assms(1) c in \<open>auto simp: count_ok_def\<close>)
  next
    case in_coroutine
    then show ?thesis by (cases rule: coroutine_step.cases) (use assms(1) c in \<open>auto simp: count_ok_def return_to_def split: option.splits\<close>)
  qed (use assms(1) c in \<open>auto simp: count_ok_def\<close>)
qed

lemma count_other:
  assumes "count_ok s" "other_thread t s s'"
  shows "count_ok s'"
  using assms(2)
proof (cases rule: other_thread.cases)
  case (schedule_call h)
  then have "counting s' = counting s" by (auto simp: counting_def)
  then show ?thesis using assms(1) schedule_call by (simp add: count_ok_def)
next
  case (schedule_publish k)
  then have "counting s' = counting s" by (auto simp: counting_def)
  then show ?thesis using assms(1) schedule_publish by (simp add: count_ok_def)
next
  case (schedule_claim h q)
  then have "counting s' = insert t (counting s)" "t \<notin> counting s" by (auto simp: counting_def)
  moreover from this have "of_nat (card (counting s')) = 1 + (of_nat (card (counting s)) :: u64)" using assms(1) by (simp add: count_ok_def)
  ultimately show ?thesis using assms(1) schedule_claim by (simp add: count_ok_def)
next
  case schedule_count
  then have "counting s' = counting s - {t}" "t \<in> counting s" by (auto simp: counting_def)
  moreover have "card (counting s) = Suc (card (counting s - {t}))"
    using assms(1) \<open>t \<in> counting s\<close> card.remove [of "counting s" t] by (simp add: count_ok_def)
  ultimately have "of_nat (card (counting s)) = 1 + (of_nat (card (counting s')) :: u64)" "finite (counting s) \<Longrightarrow> finite (counting s')" by simp_all
  moreover have "external_pending s' = external_pending s + 1" "external_queue s' = external_queue s" "rpc s' = rpc s"
    using schedule_count by simp_all
  ultimately show ?thesis using assms(1) unfolding count_ok_def by (simp add: add.assoc)
qed (use assms(1) in simp)


lemma round_thread:
  assumes "order_ok s" "round_ok s" "reactor_thread arms wakes s s'"
  shows "round_ok s'"
  using assms(3)
proof (cases rule: reactor_thread.cases)
  case loop_test
  have "length (moved s) + length (ready_tickets (external_queue s)) \<le> length (pushed s)"
    using assms(1) ready_tickets_le [of "external_queue s"] by (simp add: order_ok_def)
  then show ?thesis using loop_test by (simp add: round_ok_def)
next
  case swap
  have m: "mset (moved s) \<subseteq># mset (handled s @ run_queue s)" using assms(1) swap subseq_mset by (fastforce simp: order_ok_def)
  have "mset (take (due s) (pushed s)) = mset (take (due s) (moved s))"
    using assms(1,2) swap by (simp add: order_ok_def round_ok_def)
  also have "\<dots> \<subseteq># mset (moved s)" by (metis append_take_drop_id mset_append mset_subset_eq_add_left)
  also note m
  finally show ?thesis using assms(1,2) swap by (simp add: order_ok_def round_ok_def)
next
  case in_drain
  then show ?thesis by (cases rule: drain_step.cases)
    (use assms(1,2) ready_tickets_none [of "external_queue s"] in \<open>auto simp: order_ok_def round_ok_def may_miss_def\<close>)
next
  case in_poll
  then show ?thesis by (cases rule: poll_step.cases) (use assms(2) in \<open>auto simp: round_ok_def\<close>)
next
  case in_coroutine
  then show ?thesis by (cases rule: coroutine_step.cases) (use assms(2) in \<open>auto simp: round_ok_def return_to_def split: option.splits\<close>)
qed (use assms(2) in \<open>auto simp: round_ok_def\<close>)

lemma round_other:
  assumes "round_ok s" "other_thread t s s'"
  shows "round_ok s'"
  using assms(2)
proof (cases rule: other_thread.cases)
  case (schedule_claim h q)
  have "take (due s) (pushed s @ [h]) = take (due s) (pushed s)" using assms(1) by (simp add: round_ok_def)
  then show ?thesis using assms(1) schedule_claim by (simp add: round_ok_def)
next
  case (schedule_publish k)
  then show ?thesis using assms(1) ready_tickets_publish [of "external_queue s" "k - length (moved s)"] by (auto simp: round_ok_def)
qed (use assms(1) in \<open>simp_all add: round_ok_def\<close>)

lemma signal_inv: "reactor_inv s \<Longrightarrow> reactor_inv (signal_handler t s)"
  unfolding reactor_inv_def order_ok_def claims_ok_def count_ok_def round_ok_def counting_def signal_handler_frame .

interpretation reactor_run: inductive_invariant "reactor_init h" "reactor_step arms wakes" reactor_inv for h arms wakes
proof
  show "reactor_inv s" if "reactor_init h s" for s
    using that by (simp add: reactor_init_def reactor_inv_def order_ok_def claims_ok_def count_ok_def round_ok_def counting_def EXTERNAL_CAPACITY_def)
  show "reactor_inv t" if "reactor_inv s" "reactor_step arms wakes s t" for s t
    using that signal_inv order_thread order_other claims_thread claims_other count_thread count_other round_thread round_other
    unfolding reactor_step_def thread_step_def reactor_inv_def by metis
qed


text \<open>The threads use the external queue within its contract.\<close>

lemma external_frame:
  assumes "moved s' = moved s" "external_queue s' = external_queue s" "popping (rpc s') = popping (rpc s)"
  shows "external_tickets s' = external_tickets s"
  using assms by (simp add: external_tickets_def)

lemma external_thread:
  assumes "reactor_thread arms wakes s s'"
  shows "external_tickets s' = external_tickets s \<or> ticket_step EXTERNAL_CAPACITY (external_tickets s) (external_tickets s')"
  using assms
proof (cases rule: reactor_thread.cases)
  case in_drain
  then show ?thesis
  proof (cases rule: drain_step.cases)
    case (pop h q)
    have "ticket_step EXTERNAL_CAPACITY (external_tickets s) \<lparr> first_ticket = Suc (first_ticket (external_tickets s)), tickets = q,
        releasing = insert (first_ticket (external_tickets s)) (releasing (external_tickets s)) \<rparr>"
      using pop(3) by (intro ticket_take [of _ h]) simp
    then show ?thesis using pop by (simp add: external_tickets_def)
  next
    case (pop_return h)
    have "ticket_step EXTERNAL_CAPACITY (external_tickets s)
        ((external_tickets s)\<lparr> releasing := releasing (external_tickets s) - {length (moved s) - 1} \<rparr>)"
      using pop_return(2) by (intro ticket_release) (simp add: external_tickets_def)
    then show ?thesis using pop_return by (simp add: external_tickets_def)
  qed (auto intro!: external_frame)
next
  case in_poll
  then show ?thesis by (cases rule: poll_step.cases) (auto intro!: external_frame)
next
  case in_coroutine
  then show ?thesis by (cases rule: coroutine_step.cases) (auto intro!: external_frame simp: return_to_def split: option.splits)
qed (auto intro!: external_frame)

lemma external_other:
  assumes "reactor_inv s" "other_thread t s s'"
  shows "external_tickets s' = external_tickets s \<or> ticket_step EXTERNAL_CAPACITY (external_tickets s) (external_tickets s')"
  using assms(2)
proof (cases rule: other_thread.cases)
  case (schedule_claim h q)
  then have "ticket_step EXTERNAL_CAPACITY (external_tickets s) ((external_tickets s)\<lparr> tickets := q \<rparr>)"
    by (intro ticket_claim [of _ h]) simp
  moreover have "external_tickets s' = (external_tickets s)\<lparr> tickets := q \<rparr>" using schedule_claim(1) by (simp add: external_tickets_def)
  ultimately show ?thesis by simp
next
  case (schedule_publish k)
  have "k - length (moved s) < length (external_queue s)"
    using assms(1) schedule_publish unfolding reactor_inv_def claims_ok_def order_ok_def by fastforce
  then have "ticket_step EXTERNAL_CAPACITY (external_tickets s) ((external_tickets s)
      \<lparr> tickets := publish_ticket (k - length (moved s)) (tickets (external_tickets s)) \<rparr>)"
    by (intro ticket_publish) simp
  moreover have "external_tickets s' = (external_tickets s)\<lparr> tickets := publish_ticket (k - length (moved s)) (tickets (external_tickets s)) \<rparr>"
    using schedule_publish(1) by (simp add: external_tickets_def)
  ultimately show ?thesis by simp
qed (auto intro!: external_frame)

lemma external_step:
  assumes "reactor_inv s" "reactor_step arms wakes s s'"
  shows "external_tickets s' = external_tickets s \<or> ticket_step EXTERNAL_CAPACITY (external_tickets s) (external_tickets s')"
  using assms external_thread external_other external_frame [of "signal_handler _ s" s]
  unfolding reactor_step_def thread_step_def by (metis signal_handler_frame(1,7,8))

definition accept_ticket :: "nat \<Rightarrow> nat ticket_queue" where
  "accept_ticket h = \<lparr> first_ticket = 0, tickets = [(h, True)], releasing = {} \<rparr>"

interpretation reactor_sim: stuttering_simulation "reactor_init h" "reactor_step arms wakes" reactor_inv
  external_tickets "\<lambda>q. q = accept_ticket h" "ticket_step EXTERNAL_CAPACITY" for h arms wakes
proof
  show "external_tickets s = accept_ticket h" if "reactor_init h s" for s
    using that by (simp add: reactor_init_def external_tickets_def accept_ticket_def)
qed (rule external_step)

text \<open>The clock: needs that timer callbacks do not arm whole turns ahead.\<close>

lemma wheel_initialize_new: "wheel_inv (wheel_initialize now wheel_new)"
  using tick_bound [of now] by (auto simp: wheel_inv_def buckets_ok_def wheel_initialize_def wheel_new_def SLOTS_def)

lemma clock_thread:
  assumes "clock_ok s" "no_full_turn arms" "reactor_thread arms wakes s s'"
  shows "clock_ok s'"
  using assms(3)
proof (cases rule: reactor_thread.cases)
  case (timers now fired w)
  have "wheel_inv (timer_wheel s)" using assms(1) by (simp add: clock_ok_def)
  from advance_loop_ok [OF this assms(2) tick_bound [of now]] have "wheel_inv w" using timers(3) by (auto simp: advance_def)
  then show ?thesis using assms(1) timers by (simp add: clock_ok_def)
next
  case (store_current now)
  then show ?thesis using assms(1) wheel_initialize_new [of now] by (simp add: clock_ok_def)
next
  case in_drain
  then show ?thesis by (cases rule: drain_step.cases) (use assms(1) in \<open>auto simp: clock_ok_def\<close>)
next
  case in_poll
  then show ?thesis by (cases rule: poll_step.cases) (use assms(1) in \<open>auto simp: clock_ok_def\<close>)
next
  case in_coroutine
  then show ?thesis
  proof (cases rule: coroutine_step.cases)
    case (co_timer h r d cb)
    then show ?thesis using assms(1) add_timer_inv(1) [of UNIV "timer_wheel s" d cb] by (simp add: clock_ok_def wheel_inv_def)
  qed (use assms(1) in \<open>auto simp: clock_ok_def return_to_def split: option.splits\<close>)
qed (use assms(1) in \<open>auto simp: clock_ok_def\<close>)

lemma clock_other: "clock_ok s \<Longrightarrow> other_thread t s s' \<Longrightarrow> clock_ok s'"
  by (auto elim!: other_thread_cases simp: clock_ok_def)

lemma clock_reach:
  assumes "no_full_turn arms" "reach (reactor_init h) (reactor_step arms wakes) s"
  shows "clock_ok s"
  using assms(2)
proof (induction rule: reach.induct)
  case (reach_init s)
  then show ?case by (simp add: reactor_init_def clock_ok_def wheel_new_inv)
next
  case (reach_step s t)
  have "clock_ok (signal_handler u s)" for u using reach_step.IH by (simp add: clock_ok_def)
  then show ?case using reach_step clock_thread [OF _ assms(1)] clock_other
    unfolding reactor_step_def thread_step_def by blast
qed

lemma reactor_thread_progress:
  assumes "clock_ok s" "no_full_turn arms" "rpc s \<noteq> Ended"
  shows "\<exists>s'. reactor_thread arms wakes s s'"
proof (cases "rpc s")
  case Timers
  obtain fired w where "advance arms 0 (timer_wheel s) = Some (fired, w)"
    using advance_loop_ok [OF _ assms(2) tick_bound [of 0], of "timer_wheel s"] assms(1) by (auto simp: advance_def clock_ok_def)
  then show ?thesis using timers Timers by blast
next
  case Pop_External
  show ?thesis
  proof (cases "take_ticket (external_queue s)")
    case None
    then show ?thesis using in_drain [OF pop_none [OF Pop_External]] by (auto simp: may_miss_def)
  next
    case (Some hq)
    then show ?thesis using in_drain [OF pop [OF Pop_External]] by (cases hq) blast
  qed
next
  case (Pop_Release h)
  then show ?thesis using in_drain [OF pop_return] by blast
next
  case Run_Scratch
  then show ?thesis using scratch_resume scratch_skip scratch_end by (cases "scratch_queue s") blast+
next
  case (Events evs)
  then show ?thesis using in_poll [OF event_resume] in_poll [OF event_skip] in_poll [OF events_end]
    by (cases evs) blast+
next
  case Main_Test
  then show ?thesis using main_enter main_leave by blast
next
  case Loop_Test
  then show ?thesis using loop_test loop_exit by blast
next
  case Poll
  then show ?thesis using in_poll [OF poll [OF Poll, of "[]"]] by auto
next
  case Sub_Pending
  then show ?thesis using in_drain [OF sub_pending] by blast
next
  case (In_Coroutine h r)
  then show ?thesis using in_coroutine [OF co_suspend] by blast
qed (use assms(3) store_running store_current swap in \<open>blast+\<close>)


section \<open>Properties\<close>

text \<open>
  C19. Handles keep their order and none is lost or resumed twice for one \<^verbatim>\<open>schedule\<close> call: what entered the run queue is what
  was dealt with, followed by what is left to do, in order of arrival; what other threads pushed
  is what was moved to the run queue, in order, followed by what the external queue holds, which
  never exceeds its capacity; and every unpublished ticket in it belongs to exactly one thread, which is about to publish it.
  Seen from the external queue the run keeps the contract that the MPMC queue provides.
\<close>

theorem reactor_order:
  assumes "reach (reactor_init h) (reactor_step arms wakes) s"
  shows "arrivals s = handled s @ scratch_queue s @ run_queue s \<and> pushed s = moved s @ map fst (external_queue s) \<and>
    subseq (moved s) (arrivals s @ popping (rpc s)) \<and> length (external_queue s) \<le> 1024 \<and>
    (\<forall>i < length (external_queue s). \<not> snd (external_queue s ! i) \<longrightarrow> (\<exists>!t. xpcs s t = X_Claimed (length (moved s) + i))) \<and>
    reach (\<lambda>q. q = accept_ticket h) (ticket_step EXTERNAL_CAPACITY) (external_tickets s)"
  using reactor_run.reach_inv [OF assms] reactor_sim.abs_reach [OF assms] by (auto simp: reactor_inv_def order_ok_def claims_ok_def EXTERNAL_CAPACITY_def)

text \<open>A run in which the accept loop, coroutine 5, is scheduled and moved to the run queue.\<close>

lemma reactor_entered:
  "\<exists>s. reach (reactor_init h) (reactor_step arms wakes) s \<and> rpc s = Loop_Test \<and> running s \<and> g_running s \<and> external_queue s = [(h, True)] \<and>
     moved s = [] \<and> xpcs s = (\<lambda>t. X_Idle) \<and> run_queue s = []"
proof -
  let ?R = "reach (reactor_init h) (reactor_step arms wakes)"
  obtain s0 :: "'a reactor" where s0: "reactor_init h s0" by (simp add: reactor_init_def)
  let ?s1 = "s0\<lparr> rpc := Store_Running \<rparr>" and ?s2 = "s0\<lparr> running := True, rpc := Store_Current \<rparr>"
  let ?s3 = "s0\<lparr> running := True, thread_id := Some 0, current := True, timer_wheel := wheel_initialize 0 (timer_wheel s0), rpc := Loop_Test \<rparr>"
  have 0: "?R s0" using s0 by (rule reach_init)
  have "reactor_thread arms wakes s0 ?s1" using s0 by (intro main_enter) (simp_all add: reactor_init_def)
  with 0 have 1: "?R ?s1" by (auto intro: reach_step simp: reactor_step_def thread_step_def)
  have "reactor_thread arms wakes ?s1 ?s2" using store_running [of ?s1 arms wakes] by simp
  with 1 have 2: "?R ?s2" by (auto intro: reach_step simp: reactor_step_def thread_step_def)
  have "reactor_thread arms wakes ?s2 ?s3" using store_current [of ?s2 arms wakes 0] by simp
  with 2 have "?R ?s3" by (auto intro: reach_step simp: reactor_step_def thread_step_def)
  then show ?thesis using s0 by (intro exI [of _ ?s3]) (simp add: reactor_init_def)
qed

theorem reactor_order_witness:
  "\<exists>s :: nat reactor. reach (reactor_init 5) (reactor_step (\<lambda>_. []) (\<lambda>_. [])) s \<and> pushed s = [5] \<and> arrivals s = handled s"
proof -
  obtain s :: "nat reactor" where s: "reach (reactor_init 5) (reactor_step (\<lambda>_. []) (\<lambda>_. [])) s" "rpc s = Loop_Test" "external_queue s = [(5, True)]"
      "moved s = []" "run_queue s = []"
    using reactor_entered [of 5 "\<lambda>_. []" "\<lambda>_. []"] by blast
  have "scratch_queue s = []" using reactor_run.reach_inv [OF s(1)] s(2) by (simp add: reactor_inv_def order_ok_def)
  with reactor_order [OF s(1)] s show ?thesis by auto
qed



text \<open>
  The counter of pending handles: with the threads that have a ticket and have not yet counted it adds up to the length of the
  external queue, modulo \<open>2\<^sup>6\<^sup>4\<close> (it wraps when the reactor pops before the pusher counts); when no thread is in
  between, the poll blocks exactly if both queues are empty.
\<close>

theorem reactor_poll_blocks:
  assumes "reach (reactor_init h) (reactor_step arms wakes) s" and "\<not> popped (rpc s)"
  shows "external_pending s + of_nat (card {t. uncounted (xpcs s t)}) = of_nat (length (external_queue s)) \<and>
    ({t. uncounted (xpcs s t)} = {} \<longrightarrow> (next_timeout s \<noteq> 0 \<longleftrightarrow> run_queue s = [] \<and> external_queue s = []))"
proof -
  have inv: "count_ok s" "length (external_queue s) \<le> 1024"
    using reactor_run.reach_inv [OF assms(1)] by (simp_all add: reactor_inv_def order_ok_def EXTERNAL_CAPACITY_def)
  have "external_pending s = 0 \<longleftrightarrow> external_queue s = []" if "{t. uncounted (xpcs s t)} = {}"
  proof -
    have p: "external_pending s = of_nat (length (external_queue s))" using inv(1) that assms(2) by (simp add: count_ok_def counting_def)
    have "unat (of_nat (length (external_queue s)) :: u64) = length (external_queue s)"
      using inv(2) by (simp add: unat_of_nat)
    moreover have "external_pending s = 0 \<longleftrightarrow> unat (external_pending s) = 0" by (simp only: unat_eq_zero)
    ultimately show ?thesis unfolding p by simp
  qed
  then show ?thesis using inv(1) assms(2) by (auto simp: count_ok_def counting_def next_timeout_def)
qed

theorem reactor_poll_blocks_witness:
  "\<exists>s :: nat reactor. reach (reactor_init 5) (reactor_step (\<lambda>_. []) (\<lambda>_. [])) s \<and> external_queue s = [(5, True)] \<and> next_timeout s = 0"
proof -
  obtain s :: "nat reactor" where s: "reach (reactor_init 5) (reactor_step (\<lambda>_. []) (\<lambda>_. [])) s" "rpc s = Loop_Test" "external_queue s = [(5, True)]"
      "xpcs s = (\<lambda>t. X_Idle)"
    using reactor_entered [of 5 "\<lambda>_. []" "\<lambda>_. []"] by blast
  with reactor_poll_blocks [OF s(1)] show ?thesis by auto
qed



end
