(* ===== verification/Uring.thy ===== *)
theory Uring
  imports Reactor
begin

text \<open>
  \<^verbatim>\<open>reactor/io_uring_backend.hpp\<close> and \<^verbatim>\<open>.cpp\<close>, an event backend that the server does not use. The ring and the calls of \<^verbatim>\<open>liburing\<close> on it are parameters.
\<close>

section \<open>The member functions\<close>

text \<open>\<open>None\<close> is the null pointer, for which the library waits without a limit. Seconds and nanoseconds are only read when the timeout is positive.\<close>

definition wait_timespec :: "int \<Rightarrow> (int \<times> int) option" where
  "wait_timespec timeout_ms = (if timeout_ms > 0 then Some (timeout_ms div 1000, (timeout_ms mod 1000) * 1000000) else None)"

text \<open>\<open>init\<close> is the result of \<^verbatim>\<open>io_uring_queue_init\<close>; \<open>None\<close> is \<^verbatim>\<open>std::abort\<close>.\<close>

definition uring_new :: "(nat \<Rightarrow> int \<times> 'q) \<Rightarrow> 'q option" where
  "uring_new queue_init = (case queue_init 4096 of (ret, q) \<Rightarrow> if ret < 0 then None else Some q)"

text \<open>\<open>wait_cqe\<close> returns an error or a completion; \<open>seen\<close> gives the completion back to the ring. Nobody looks at it.\<close>

definition uring_poll :: "((int \<times> int) option \<Rightarrow> 'q \<Rightarrow> (int + 'c) \<times> 'q) \<Rightarrow> ('c \<Rightarrow> 'q \<Rightarrow> 'q) \<Rightarrow> int \<Rightarrow> 'q \<Rightarrow> int \<times> 'q" where
  "uring_poll wait_cqe seen timeout_ms q =
     (case wait_cqe (wait_timespec timeout_ms) q of
        (Inl ret, q') \<Rightarrow> (ret, q')
      | (Inr cqe, q') \<Rightarrow> (1, seen cqe q'))"

record uring_read =
  rd_fd :: int
  rd_buf :: u64
  rd_len :: size_t
  rd_offset :: int
  rd_user_data :: u64

text \<open>\<^verbatim>\<open>io_uring_get_sqe\<close> returns null when the submission queue is full; \<open>None\<close> is the use of that pointer.\<close>

definition uring_submit_read :: "('q \<Rightarrow> 'q option) \<Rightarrow> (uring_read \<Rightarrow> 'q \<Rightarrow> 'q) \<Rightarrow> uring_read \<Rightarrow> 'q \<Rightarrow> 'q option" where
  "uring_submit_read get_sqe submit r q = map_option (submit r) (get_sqe q)"

section \<open>Properties\<close>

lemma wait_timespec_exact:
  assumes "wait_timespec timeout_ms = Some (sec, nsec)"
  shows "sec * 1000 + nsec div 1000000 = timeout_ms \<and> 0 \<le> sec \<and> 0 \<le> nsec \<and> nsec < 1000000000"
  using assms by (auto simp: wait_timespec_def split: if_splits)

text \<open>
  On this backend the reactor would stop. The loop polls with timeout zero exactly when there is work left, and zero makes the backend wait
  for a completion without limit; only an idle reactor waits for a bounded time.
\<close>

theorem uring_blocks_on_work:
  "(wait_timespec (next_timeout s) = None \<longleftrightarrow> run_queue s \<noteq> [] \<or> external_pending s \<noteq> 0) \<and>
   (run_queue s = [] \<and> external_pending s = 0 \<longrightarrow> wait_timespec (next_timeout s) = Some (0, 1000000))"
  by (auto simp: next_timeout_def wait_timespec_def)

text \<open>The completion that ends a wait is dropped: the result of \<^verbatim>\<open>poll\<close> does not depend on it and no coroutine is resumed.\<close>

lemma uring_completion_dropped:
  assumes "wait_cqe (wait_timespec t) q = (Inr c, q')"
  shows "fst (uring_poll wait_cqe seen t q) = 1"
  using assms by (simp add: uring_poll_def)

end
