(* ===== verification/Continuation.thy ===== *)
theory Continuation
  imports "HOL-Library.Multiset" Prelude
begin

text \<open>
  \<^verbatim>\<open>reactor/continuation_pool.hpp\<close> and \<^verbatim>\<open>.cpp\<close> and \<^verbatim>\<open>reactor/future_awaitable.hpp\<close>: a coroutine that awaits a future
  hands a task to a pool of four threads; a pool thread blocks on the future, stores the value
  and schedules the coroutine. Everything under \<^verbatim>\<open>mu_\<close> is one step. A waiting thread may wake up without
  a notification. When futures resolve, and with what value, is arbitrary.
\<close>

section \<open>Coroutines, pool threads and futures\<close>

text \<open>
  A coroutine awaits one future and both have the same number. A future whose promise was destroyed unresolved is \<open>Broken\<close>:
  \<^verbatim>\<open>get()\<close> then throws, on a pool thread or inside a coroutine, and either way ends in \<^verbatim>\<open>std::terminate\<close>.
\<close>

datatype 'v future = Unset | Value 'v | Broken

text \<open>
  The coroutine: \<open>A_Suspend\<close> after \<^verbatim>\<open>await_ready\<close> was false, \<open>A_Notify\<close> inside \<^verbatim>\<open>post\<close> after the push, \<open>A_Waiting\<close> suspended,
  \<open>A_Ready\<close> after \<^verbatim>\<open>await_ready\<close> was true, \<open>A_Resumed\<close> after \<^verbatim>\<open>await_resume\<close>. The pool thread: \<open>P_Loop\<close> holds the mutex before the wait predicate, \<open>P_Sleep\<close>
  is blocked, \<open>P_Run\<close> runs a task, \<open>P_Left\<close> has returned.
\<close>

datatype 'v awaiter = A_Idle | A_Suspend | A_Notify | A_Waiting | A_Ready | A_Resumed 'v
datatype pool_thread = P_Loop | P_Sleep | P_Run nat | P_Left

record 'v pool =
  queue :: "nat list"
  pool_stopped :: bool
  pool_threads :: "nat \<Rightarrow> pool_thread"
  awaiters :: "nat \<Rightarrow> 'v awaiter"
  futures :: "nat \<Rightarrow> 'v future"
  results :: "nat \<rightharpoonup> 'v"
  scheduled :: "nat list"
  terminated :: bool
  posted :: "nat list"
  taken :: "nat list"

definition NUM_THREADS :: nat where "NUM_THREADS = 4"

definition pool_init :: "'v pool \<Rightarrow> bool" where
  "pool_init s \<longleftrightarrow> s = \<lparr> queue = [], pool_stopped = False, pool_threads = (\<lambda>w. P_Loop), awaiters = (\<lambda>c. A_Idle), futures = (\<lambda>c. Unset),
     results = Map.empty, scheduled = [], terminated = False, posted = [], taken = [] \<rparr>"

definition goto_w :: "nat \<Rightarrow> pool_thread \<Rightarrow> 'v pool \<Rightarrow> 'v pool" where
  "goto_w w p s = s\<lparr> pool_threads := (pool_threads s)(w := p) \<rparr>"

definition goto_a :: "nat \<Rightarrow> 'v awaiter \<Rightarrow> 'v pool \<Rightarrow> 'v pool" where
  "goto_a c a s = s\<lparr> awaiters := (awaiters s)(c := a) \<rparr>"

text \<open>\<^verbatim>\<open>worker_loop\<close>, with the lambda that \<^verbatim>\<open>await_suspend\<close> posts as its task.\<close>

inductive pool_worker :: "nat \<Rightarrow> 'v pool \<Rightarrow> 'v pool \<Rightarrow> bool" for w where
  worker_take: "w < NUM_THREADS \<Longrightarrow> pool_threads s w = P_Loop \<Longrightarrow> queue s = c # q \<Longrightarrow>
    pool_worker w s (goto_w w (P_Run c) (s\<lparr> queue := q, taken := taken s @ [c] \<rparr>))"
| worker_leave: "w < NUM_THREADS \<Longrightarrow> pool_threads s w = P_Loop \<Longrightarrow> queue s = [] \<Longrightarrow> pool_stopped s \<Longrightarrow>
    pool_worker w s (goto_w w P_Left s)"
| worker_sleep: "w < NUM_THREADS \<Longrightarrow> pool_threads s w = P_Loop \<Longrightarrow> queue s = [] \<Longrightarrow> \<not> pool_stopped s \<Longrightarrow>
    pool_worker w s (goto_w w P_Sleep s)"
| worker_value: "w < NUM_THREADS \<Longrightarrow> pool_threads s w = P_Run c \<Longrightarrow> futures s c = Value v \<Longrightarrow>
    pool_worker w s (goto_w w P_Loop (s\<lparr> results := (results s)(c \<mapsto> v), scheduled := scheduled s @ [c] \<rparr>))"
| worker_throws: "w < NUM_THREADS \<Longrightarrow> pool_threads s w = P_Run c \<Longrightarrow> futures s c = Broken \<Longrightarrow>
    pool_worker w s (s\<lparr> terminated := True \<rparr>)"

text \<open>\<^verbatim>\<open>post\<close> up to the release of the mutex.\<close>

definition pool_post :: "nat \<Rightarrow> 'v pool \<Rightarrow> 'v pool" where
  "pool_post c s = s\<lparr> queue := queue s @ [c], posted := posted s @ [c] \<rparr>"

text \<open>\<^verbatim>\<open>await_ready\<close>, \<^verbatim>\<open>await_suspend\<close> with \<^verbatim>\<open>post\<close>, and \<^verbatim>\<open>await_resume\<close>. \<^verbatim>\<open>fut.valid()\<close> holds exactly if the future was not moved to the pool.\<close>

inductive await_step :: "nat \<Rightarrow> 'v pool \<Rightarrow> 'v pool \<Rightarrow> bool" for c where
  await_ready: "awaiters s c = A_Idle \<Longrightarrow> futures s c \<noteq> Unset \<Longrightarrow> await_step c s (goto_a c A_Ready s)"
| await_not_ready: "awaiters s c = A_Idle \<Longrightarrow> futures s c = Unset \<Longrightarrow> await_step c s (goto_a c A_Suspend s)"
| post: "awaiters s c = A_Suspend \<Longrightarrow> \<not> pool_stopped s \<Longrightarrow>
    await_step c s (goto_a c A_Notify (pool_post c s))"
| notify_one: "awaiters s c = A_Notify \<Longrightarrow> w < NUM_THREADS \<Longrightarrow> pool_threads s w = P_Sleep \<Longrightarrow>
    await_step c s (goto_a c A_Waiting (goto_w w P_Loop s))"
| notify_nobody: "awaiters s c = A_Notify \<Longrightarrow> (\<forall>w < NUM_THREADS. pool_threads s w \<noteq> P_Sleep) \<Longrightarrow>
    await_step c s (goto_a c A_Waiting s)"
| resume_ready: "awaiters s c = A_Ready \<Longrightarrow> futures s c = Value v \<Longrightarrow> await_step c s (goto_a c (A_Resumed v) s)"
| resume_throws: "awaiters s c = A_Ready \<Longrightarrow> futures s c = Broken \<Longrightarrow> await_step c s (s\<lparr> terminated := True \<rparr>)"
| resume_result: "awaiters s c = A_Waiting \<Longrightarrow> c \<in> set (scheduled s) \<Longrightarrow> results s c = Some v \<Longrightarrow>
    await_step c s (goto_a c (A_Resumed v) s)"

text \<open>The destructor sets the flag and notifies all; a wake-up without cause.\<close>

definition pool_stop :: "'v pool \<Rightarrow> 'v pool" where
  "pool_stop s = s\<lparr> pool_stopped := True, pool_threads := (\<lambda>w. if pool_threads s w = P_Sleep then P_Loop else pool_threads s w) \<rparr>"

text \<open>A step of the pool and its users, and one of the promises' owners.\<close>

inductive quiet_step :: "'v pool \<Rightarrow> 'v pool \<Rightarrow> bool" where
  by_worker: "\<not> terminated s \<Longrightarrow> pool_worker w s s' \<Longrightarrow> quiet_step s s'"
| by_awaiter: "\<not> terminated s \<Longrightarrow> await_step c s s' \<Longrightarrow> quiet_step s s'"
| spurious: "\<not> terminated s \<Longrightarrow> pool_threads s w = P_Sleep \<Longrightarrow> quiet_step s (goto_w w P_Loop s)"
| stop: "\<not> terminated s \<Longrightarrow> quiet_step s (pool_stop s)"

inductive pool_step :: "'v pool \<Rightarrow> 'v pool \<Rightarrow> bool" where
  quiet: "quiet_step s s' \<Longrightarrow> pool_step s s'"
| resolve: "futures s c = Unset \<Longrightarrow> pool_step s (s\<lparr> futures := (futures s)(c := Value v) \<rparr>)"
| abandon: "futures s c = Unset \<Longrightarrow> pool_step s (s\<lparr> futures := (futures s)(c := Broken) \<rparr>)"

section \<open>The invariant\<close>

fun run_of :: "pool_thread \<Rightarrow> nat multiset" where
  "run_of (P_Run c) = {#c#}"
| "run_of _ = {#}"

definition in_flight :: "'v pool \<Rightarrow> nat multiset" where
  "in_flight s = (\<Sum>w < NUM_THREADS. run_of (pool_threads s w))"

definition places_ok :: "'v pool \<Rightarrow> bool" where
  "places_ok s \<longleftrightarrow> posted s = taken s @ queue s \<and> mset (taken s) = in_flight s + mset (scheduled s) \<and>
     distinct (posted s) \<and> (\<forall>c. awaiters s c \<in> {A_Idle, A_Suspend, A_Ready} \<longrightarrow> c \<notin> set (posted s))"

definition values_ok :: "'v pool \<Rightarrow> bool" where
  "values_ok s \<longleftrightarrow> (\<forall>c \<in> set (scheduled s). \<exists>v. futures s c = Value v \<and> results s c = Some v) \<and>
     (\<forall>c v. results s c = Some v \<longrightarrow> futures s c = Value v) \<and> (\<forall>c v. awaiters s c = A_Resumed v \<longrightarrow> futures s c = Value v) \<and>
     (\<forall>c. awaiters s c = A_Ready \<longrightarrow> futures s c \<noteq> Unset)"

definition awake :: "pool_thread \<Rightarrow> bool" where
  "awake p \<longleftrightarrow> p = P_Loop \<or> (\<exists>c. p = P_Run c)"

definition wake_ok :: "'v pool \<Rightarrow> bool" where
  "wake_ok s \<longleftrightarrow> (queue s \<noteq> [] \<longrightarrow> (\<exists>w < NUM_THREADS. awake (pool_threads s w)) \<or> (\<exists>c. awaiters s c = A_Notify)) \<and>
     (\<forall>w < NUM_THREADS. pool_threads s w = P_Left \<longrightarrow> pool_stopped s \<and> queue s = [])"

definition pool_inv :: "'v pool \<Rightarrow> bool" where
  "pool_inv s \<longleftrightarrow> places_ok s \<and> values_ok s \<and> wake_ok s"


section \<open>Every step preserves it\<close>

lemma pool_goto_frame [simp]:
  "queue (goto_w w p s) = queue s" "pool_stopped (goto_w w p s) = pool_stopped s" "pool_threads (goto_w w p s) = (pool_threads s)(w := p)"
  "awaiters (goto_w w p s) = awaiters s" "futures (goto_w w p s) = futures s" "results (goto_w w p s) = results s"
  "scheduled (goto_w w p s) = scheduled s" "terminated (goto_w w p s) = terminated s" "posted (goto_w w p s) = posted s" "taken (goto_w w p s) = taken s"
  "queue (goto_a c a s) = queue s" "pool_stopped (goto_a c a s) = pool_stopped s" "pool_threads (goto_a c a s) = pool_threads s"
  "awaiters (goto_a c a s) = (awaiters s)(c := a)" "futures (goto_a c a s) = futures s" "results (goto_a c a s) = results s"
  "scheduled (goto_a c a s) = scheduled s" "terminated (goto_a c a s) = terminated s" "posted (goto_a c a s) = posted s" "taken (goto_a c a s) = taken s"
  by (simp_all add: goto_w_def goto_a_def)

lemma pool_post_frame [simp]:
  "queue (pool_post c s) = queue s @ [c]" "pool_stopped (pool_post c s) = pool_stopped s" "pool_threads (pool_post c s) = pool_threads s"
  "awaiters (pool_post c s) = awaiters s" "futures (pool_post c s) = futures s" "results (pool_post c s) = results s"
  "scheduled (pool_post c s) = scheduled s" "terminated (pool_post c s) = terminated s" "posted (pool_post c s) = posted s @ [c]"
  "taken (pool_post c s) = taken s"
  by (simp_all add: pool_post_def)

lemma in_flight_upd:
  assumes "w < NUM_THREADS" "pool_threads s' = (pool_threads s)(w := p)"
  shows "in_flight s' + run_of (pool_threads s w) = in_flight s + run_of p"
proof -
  let ?f = "\<lambda>v. run_of (pool_threads s v)"
  have "in_flight s' = run_of p + sum ?f ({..<NUM_THREADS} - {w})"
    unfolding in_flight_def assms(2) using assms(1) by (subst sum.remove [of _ w]) auto
  moreover have "in_flight s = ?f w + sum ?f ({..<NUM_THREADS} - {w})"
    unfolding in_flight_def using assms(1) by (subst sum.remove [of _ w]) auto
  ultimately show ?thesis by (simp add: add_ac)
qed

lemma in_flight_cong:
  assumes "\<And>w. w < NUM_THREADS \<Longrightarrow> run_of (pool_threads s' w) = run_of (pool_threads s w)"
  shows "in_flight s' = in_flight s"
  unfolding in_flight_def by (rule sum.cong) (use assms in auto)

lemma places_worker:
  assumes "places_ok s" "pool_worker w s s'"
  shows "places_ok s'"
  using assms(2)
proof (cases rule: pool_worker.cases)
  case (worker_take c q)
  have "in_flight s' + run_of (pool_threads s w) = in_flight s + run_of (P_Run c)" by (rule in_flight_upd) (use worker_take in auto)
  then show ?thesis using assms(1) worker_take by (auto simp: places_ok_def)
next
  case (worker_value c v)
  have "in_flight s' + run_of (pool_threads s w) = in_flight s + run_of P_Loop" by (rule in_flight_upd) (use worker_value in auto)
  then have "in_flight s = in_flight s' + {#c#}" using worker_value by simp
  then show ?thesis using assms(1) worker_value by (auto simp: places_ok_def)
next
  case worker_leave
  have "in_flight s' = in_flight s" by (rule in_flight_cong) (use worker_leave in auto)
  then show ?thesis using assms(1) worker_leave by (auto simp: places_ok_def)
next
  case worker_sleep
  have "in_flight s' = in_flight s" by (rule in_flight_cong) (use worker_sleep in auto)
  then show ?thesis using assms(1) worker_sleep by (auto simp: places_ok_def)
next
  case (worker_throws c)
  have "in_flight s' = in_flight s" by (rule in_flight_cong) (use worker_throws in auto)
  then show ?thesis using assms(1) worker_throws by (auto simp: places_ok_def)
qed

lemma places_awaiter:
  assumes "places_ok s" "await_step c s s'"
  shows "places_ok s'"
proof -
  have "in_flight s' = in_flight s"
    using assms(2) by (intro in_flight_cong) (auto elim!: await_step.cases)
  with assms(2) show ?thesis
    by (cases rule: await_step.cases) (use assms(1) in \<open>auto simp: places_ok_def\<close>)
qed

lemma values_worker:
  assumes "values_ok s" "pool_worker w s s'"
  shows "values_ok s'"
  using assms(2) by (cases rule: pool_worker.cases) (use assms(1) in \<open>auto simp: values_ok_def\<close>)

lemma values_awaiter:
  assumes "values_ok s" "await_step c s s'"
  shows "values_ok s'"
  using assms(2) by (cases rule: await_step.cases) (use assms(1) in \<open>auto simp: values_ok_def\<close>)

lemma wake_worker:
  assumes "wake_ok s" "pool_worker w s s'"
  shows "wake_ok s'"
  using assms(2)
proof (cases rule: pool_worker.cases)
  case (worker_take c q)
  then show ?thesis using assms(1) by (auto simp: wake_ok_def awake_def)
next
  case (worker_value c v)
  then show ?thesis using assms(1) by (auto simp: wake_ok_def awake_def)
qed (use assms(1) in \<open>auto simp: wake_ok_def\<close>)

lemma no_sleeper_awake:
  assumes "wake_ok s" "\<forall>w < NUM_THREADS. pool_threads s w \<noteq> P_Sleep" "queue s \<noteq> []"
  shows "awake (pool_threads s 0)"
proof -
  have "0 < NUM_THREADS" by (simp add: NUM_THREADS_def)
  then show ?thesis using assms by (cases "pool_threads s 0") (auto simp: wake_ok_def awake_def)
qed

lemma wake_goto:
  assumes "wake_ok s" "awaiters s c \<noteq> A_Notify"
  shows "wake_ok (goto_a c a s)"
proof -
  have "\<exists>d. ((awaiters s)(c := a)) d = A_Notify" if "awaiters s d = A_Notify" for d
    using that assms(2) by (intro exI [of _ d]) auto
  then show ?thesis using assms(1) by (auto simp: wake_ok_def simp del: fun_upd_apply)
qed

lemma wake_awaiter:
  assumes "wake_ok s" "await_step c s s'"
  shows "wake_ok s'"
  using assms(2)
proof (cases rule: await_step.cases)
  case notify_nobody
  have "0 < NUM_THREADS" by (simp add: NUM_THREADS_def)
  then show ?thesis using assms(1) notify_nobody no_sleeper_awake [OF assms(1) notify_nobody(3)] by (auto simp: wake_ok_def)
next
  case (notify_one w)
  then show ?thesis using assms(1) by (auto simp: wake_ok_def awake_def)
next
  case post
  then show ?thesis using assms(1) by (auto simp: wake_ok_def)
next
  case resume_throws
  then show ?thesis using assms(1) by (simp add: wake_ok_def)
qed (use wake_goto [OF assms(1)] in auto)

lemma quiet_inv:
  assumes "pool_inv s" "quiet_step s s'"
  shows "pool_inv s'"
  using assms(2)
proof (cases rule: quiet_step.cases)
  case (by_worker w)
  then show ?thesis using assms(1) places_worker values_worker wake_worker unfolding pool_inv_def by blast
next
  case (by_awaiter c)
  then show ?thesis using assms(1) places_awaiter values_awaiter wake_awaiter unfolding pool_inv_def by blast
next
  case (spurious w)
  have "in_flight s' = in_flight s" by (rule in_flight_cong) (use spurious in auto)
  then have "places_ok s'" "values_ok s'" using assms(1) spurious by (auto simp: pool_inv_def places_ok_def values_ok_def)
  moreover have "awake (pool_threads s' v)" if "awake (pool_threads s v)" for v using that spurious by (auto simp: awake_def)
  moreover have "pool_threads s v = P_Left" if "pool_threads s' v = P_Left" for v using that spurious by (auto split: if_splits)
  moreover have "queue s' = queue s" "awaiters s' = awaiters s" "pool_stopped s' = pool_stopped s" using spurious by simp_all
  ultimately have "wake_ok s'" using assms(1) unfolding pool_inv_def wake_ok_def by metis
  with \<open>places_ok s'\<close> \<open>values_ok s'\<close> show ?thesis by (simp add: pool_inv_def)
next
  case stop
  have "in_flight s' = in_flight s" by (rule in_flight_cong) (use stop in \<open>auto simp: pool_stop_def\<close>)
  then have "places_ok s'" "values_ok s'" using assms(1) stop by (auto simp: pool_inv_def places_ok_def values_ok_def pool_stop_def)
  moreover have "wake_ok s'" using assms(1) stop by (auto simp: pool_inv_def wake_ok_def awake_def pool_stop_def)
  ultimately show ?thesis by (simp add: pool_inv_def)
qed

lemma future_inv:
  assumes "pool_inv s" "futures s c = Unset" "s' = s\<lparr> futures := (futures s)(c := f) \<rparr>" "f \<noteq> Unset"
  shows "pool_inv s'"
proof -
  have "in_flight s' = in_flight s" by (rule in_flight_cong) (use assms in auto)
  then have "places_ok s'" using assms by (auto simp: pool_inv_def places_ok_def)
  moreover have "values_ok s'" using assms by (force simp: pool_inv_def values_ok_def)
  moreover have "wake_ok s'" using assms by (simp add: pool_inv_def wake_ok_def)
  ultimately show ?thesis by (simp add: pool_inv_def)
qed

interpretation pool_run: inductive_invariant pool_init pool_step pool_inv
proof
  show "pool_inv s" if "pool_init s" for s :: "'a pool"
    using that by (simp add: pool_init_def pool_inv_def places_ok_def values_ok_def wake_ok_def in_flight_def)
  show "pool_inv t" if "pool_inv s" "pool_step s t" for s t :: "'a pool"
    using that(2) by (cases rule: pool_step.cases) (use that(1) quiet_inv future_inv in \<open>blast+\<close>)
qed


section \<open>A run that blocks every pool thread\<close>

definition blocked_at :: "nat \<Rightarrow> 'v pool \<Rightarrow> bool" where
  "blocked_at k s \<longleftrightarrow> queue s = [] \<and> \<not> pool_stopped s \<and> pool_threads s = (\<lambda>w. if w < k then P_Run w else P_Loop) \<and>
     awaiters s = (\<lambda>c. if c < k then A_Waiting else A_Idle) \<and> futures s = (\<lambda>c. Unset) \<and> scheduled s = [] \<and> \<not> terminated s"

lemma quiet_reach: "reach pool_init pool_step s \<Longrightarrow> quiet_step s s' \<Longrightarrow> reach pool_init pool_step s'"
  by (blast intro: reach_step quiet)

text \<open>A coroutine whose future is unset posts its continuation while no pool thread sleeps.\<close>

lemma post_continuation:
  assumes "reach pool_init pool_step s" "\<not> terminated s" "awaiters s c = A_Idle" "futures s c = Unset" "\<not> pool_stopped s"
    "\<forall>w < NUM_THREADS. pool_threads s w \<noteq> P_Sleep"
  shows "reach pool_init pool_step (goto_a c A_Waiting (pool_post c s))"
proof -
  let ?s1 = "goto_a c A_Suspend s"
  let ?s2 = "goto_a c A_Notify (pool_post c ?s1)"
  have 1: "reach pool_init pool_step ?s1"
    using assms by (intro quiet_reach [OF assms(1)] by_awaiter [OF _ await_not_ready])
  have 2: "reach pool_init pool_step ?s2"
    using assms by (intro quiet_reach [OF 1] by_awaiter [OF _ post]) auto
  have eq: "goto_a c A_Waiting ?s2 = goto_a c A_Waiting (pool_post c s)"
    by (simp add: goto_a_def pool_post_def)
  have "reach pool_init pool_step (goto_a c A_Waiting ?s2)"
    using assms by (intro quiet_reach [OF 2] by_awaiter [OF _ notify_nobody]) auto
  then show ?thesis unfolding eq .
qed

lemma blocked_reachable: "k \<le> NUM_THREADS \<Longrightarrow> \<exists>s :: 'v pool. reach pool_init pool_step s \<and> blocked_at k s"
proof (induction k)
  case 0
  obtain s :: "'v pool" where s: "pool_init s" by (simp add: pool_init_def)
  then have "reach pool_init pool_step s" by (rule reach_init)
  moreover have "blocked_at 0 s" using s by (simp add: pool_init_def blocked_at_def)
  ultimately show ?case by blast
next
  case (Suc k)
  then obtain s :: "'v pool" where s: "reach pool_init pool_step s" "blocked_at k s" by auto
  let ?s1 = "goto_a k A_Waiting (pool_post k s)"
  have 1: "reach pool_init pool_step ?s1" by (rule post_continuation [OF s(1)]) (use s(2) in \<open>auto simp: blocked_at_def\<close>)
  let ?s2 = "goto_w k (P_Run k) (?s1\<lparr> queue := [], taken := taken ?s1 @ [k] \<rparr>)"
  have "reach pool_init pool_step ?s2"
    by (rule quiet_reach [OF 1], rule by_worker [of _ k], use s(2) in \<open>simp add: blocked_at_def\<close>, rule worker_take)
      (use s(2) Suc.prems in \<open>auto simp: blocked_at_def\<close>)
  moreover have "blocked_at (Suc k) ?s2" using s(2) by (auto simp: blocked_at_def fun_eq_iff less_Suc_eq)
  ultimately show ?case by blast
qed

text \<open>A fifth future resolves after its coroutine has posted.\<close>

lemma starved_reachable:
  "\<exists>s :: 'v pool. reach pool_init pool_step s \<and> queue s = [4] \<and> futures s 4 = Value v \<and> scheduled s = [] \<and> \<not> terminated s \<and>
     (\<forall>w < NUM_THREADS. pool_threads s w = P_Run w \<and> futures s w = Unset)"
proof -
  obtain s :: "'v pool" where s: "reach pool_init pool_step s" "blocked_at 4 s" using blocked_reachable [of 4] by (auto simp: NUM_THREADS_def)
  let ?s1 = "goto_a 4 A_Waiting (pool_post 4 s)"
  have 1: "reach pool_init pool_step ?s1" by (rule post_continuation [OF s(1)]) (use s(2) in \<open>auto simp: blocked_at_def NUM_THREADS_def\<close>)
  let ?s2 = "?s1\<lparr> futures := (futures ?s1)(4 := Value v) \<rparr>"
  have "reach pool_init pool_step ?s2"
    by (rule reach_step [OF 1], rule resolve) (use s(2) in \<open>simp add: blocked_at_def\<close>)
  then show ?thesis using s(2) by (intro exI [of _ ?s2] conjI) (auto simp: blocked_at_def NUM_THREADS_def)
qed

section \<open>Properties\<close>

text \<open>
  C21. Every continuation is run exactly once, in the order of posting, and an awaiting coroutine gets its future's value: posted
  continuations are those taken followed by those queued, those taken are held by one pool
  thread each or have scheduled their coroutine, none is posted twice, and whatever path \<^verbatim>\<open>co_await\<close>
  took, its value is the one the future was resolved with.
\<close>

theorem continuation_exact:
  assumes "reach pool_init pool_step s"
  shows "posted s = taken s @ queue s \<and> mset (taken s) = in_flight s + mset (scheduled s) \<and> distinct (posted s) \<and>
    (\<forall>c v. awaiters s c = A_Resumed v \<longrightarrow> futures s c = Value v)"
  using pool_run.reach_inv [OF assms] by (auto simp: pool_inv_def places_ok_def values_ok_def)

theorem continuation_exact_witness:
  "\<exists>s :: nat pool. reach pool_init pool_step s \<and> queue s = [4] \<and> posted s = taken s @ [4] \<and> distinct (posted s)"
  using starved_reachable [where 'v = nat and v = 7] continuation_exact by metis

text \<open>
  No wake-up is lost: while the process lives and a continuation is queued, a pool thread can step, a notification is on
  its way, or a pool thread waits for an unresolved future.
\<close>

theorem pool_no_lost_wakeup:
  assumes "reach pool_init pool_step s" and "queue s \<noteq> []"
  shows "(\<exists>w s'. pool_worker w s s') \<or> (\<exists>c. awaiters s c = A_Notify) \<or>
    (\<exists>w < NUM_THREADS. \<exists>c. pool_threads s w = P_Run c \<and> futures s c = Unset)"
proof -
  have "wake_ok s" using pool_run.reach_inv [OF assms(1)] by (simp add: pool_inv_def)
  then consider (n) c where "awaiters s c = A_Notify" | (a) w where "w < NUM_THREADS" "awake (pool_threads s w)"
    using assms(2) unfolding wake_ok_def by blast
  then show ?thesis
  proof cases
    case a
    then consider "pool_threads s w = P_Loop" | c where "pool_threads s w = P_Run c" by (auto simp: awake_def)
    then show ?thesis
    proof cases
      case 1
      then show ?thesis using a(1) assms(2) worker_take by (cases "queue s") blast+
    next
      case (2 c)
      note f = worker_value [OF a(1) 2] worker_throws [OF a(1) 2]
      then show ?thesis
      proof (cases "futures s c")
        case Unset
        then show ?thesis using a(1) 2 by blast
      qed (use f in \<open>blast+\<close>)
    qed
  qed blast
qed

theorem pool_no_lost_wakeup_witness:
  "\<exists>s :: nat pool. reach pool_init pool_step s \<and> queue s = [4] \<and> ((\<exists>w s'. pool_worker w s s') \<or> (\<exists>c. awaiters s c = A_Notify) \<or>
    (\<exists>w < NUM_THREADS. \<exists>c. pool_threads s w = P_Run c \<and> futures s c = Unset))"
proof -
  obtain s :: "nat pool" where "reach pool_init pool_step s" "queue s = [4]" using starved_reachable [where 'v = nat and v = 7] by blast
  with pool_no_lost_wakeup [of s] show ?thesis by auto
qed

text \<open>
  Four slow requests block the server. While the four pool threads wait for unresolved futures, no other coroutine is
  scheduled, also when its own future has long been resolved.
\<close>

theorem pool_starves:
  assumes "\<forall>w < NUM_THREADS. \<exists>c. pool_threads s w = P_Run c \<and> futures s c = Unset" and "quiet_step\<^sup>*\<^sup>* s s'"
  shows "scheduled s' = scheduled s"
proof -
  have "scheduled s' = scheduled s \<and> (\<forall>w < NUM_THREADS. \<exists>c. pool_threads s' w = P_Run c \<and> futures s' c = Unset)"
    using assms(2)
  proof (induction rule: rtranclp_induct)
    case (step y z)
    have b: "\<exists>c. pool_threads y w = P_Run c \<and> futures y c = Unset" if "w < NUM_THREADS" for w using step.IH that by blast
    have nw: "\<not> pool_worker w y z" for w using b [of w] by (auto elim!: pool_worker.cases)
    have aw: "scheduled z = scheduled y \<and> futures z = futures y \<and> (\<forall>w < NUM_THREADS. pool_threads z w = pool_threads y w)"
      if "await_step c y z" for c using that by (cases rule: await_step.cases) (auto dest: b)
    have "scheduled z = scheduled y \<and> futures z = futures y \<and> (\<forall>w < NUM_THREADS. pool_threads z w = pool_threads y w)"
      using step.hyps(2) by (cases rule: quiet_step.cases) (use nw aw in \<open>auto simp: pool_stop_def dest: b\<close>)
    then show ?case using step.IH by auto
  qed (use assms(1) in simp)
  then show ?thesis by blast
qed

theorem pool_starves_witness:
  "\<exists>s s' :: nat pool. reach pool_init pool_step s \<and> queue s = [4] \<and> futures s 4 = Value 7 \<and> quiet_step s s' \<and> 4 \<notin> set (scheduled s')"
proof -
  obtain s :: "nat pool" where s: "reach pool_init pool_step s" "queue s = [4]" "futures s 4 = Value 7" "scheduled s = []" "\<not> terminated s"
    "\<forall>w < NUM_THREADS. pool_threads s w = P_Run w \<and> futures s w = Unset" using starved_reachable [where 'v = nat and v = 7] by blast
  have q: "quiet_step s (pool_stop s)" using s(5) by (rule stop)
  have "scheduled (pool_stop s) = scheduled s" by (rule pool_starves [OF _ r_into_rtranclp [where r = quiet_step, OF q]]) (use s(6) in blast)
  then have "4 \<notin> set (scheduled (pool_stop s))" using s(4) by simp
  then show ?thesis using s(1-3) q by blast
qed

end
