(* ===== verification/Serving.thy ===== *)
theory Serving
  imports Executor Continuation
begin

text \<open>
  The executor of one model and the continuation pool together, as \<^verbatim>\<open>session\<close> and \<^verbatim>\<open>main\<close> of \<^verbatim>\<open>server/main.cpp\<close> compose them: a session coroutine calls \<^verbatim>\<open>infer_async\<close>
  and awaits the future of its promise; workers resolve promises; pool threads wait for them and schedule the coroutine. When \<^verbatim>\<open>main\<close> ends,
  the reactor is destroyed first, then the runtime, which stops the executor and destroys its queue with the promises in it; the pool
  is a static object and goes last.
\<close>

section \<open>The product of the two components\<close>

datatype lifetime = Running | Reactor_Destroyed | Runtime_Destroyed

text \<open>\<open>dangling\<close> counts calls of \<^verbatim>\<open>schedule\<close> on the reactor after its destruction.\<close>

record ('f, 'b) serving =
  srv_exec :: "('f, 'b) executor"
  srv_pool :: "InferenceResponse pool"
  life :: lifetime
  dangling :: nat

text \<open>The future of promise \<open>c\<close>.\<close>

definition future_of :: "('f, 'b) executor \<Rightarrow> lifetime \<Rightarrow> nat \<Rightarrow> InferenceResponse future" where
  "future_of e l c = (case promises e c of Some r \<Rightarrow> Value r
     | None \<Rightarrow> if l = Runtime_Destroyed \<and> c < length (requests e) then Broken else Unset)"

definition with_exec :: "('f, 'b) executor \<Rightarrow> ('f, 'b) serving \<Rightarrow> ('f, 'b) serving" where
  "with_exec e s = s\<lparr> srv_exec := e, srv_pool := (srv_pool s)\<lparr> futures := future_of e (life s) \<rparr> \<rparr>"

definition with_life :: "lifetime \<Rightarrow> ('f, 'b) serving \<Rightarrow> ('f, 'b) serving" where
  "with_life l s = s\<lparr> life := l, srv_pool := (srv_pool s)\<lparr> futures := future_of (srv_exec s) l \<rparr> \<rparr>"

text \<open>
  All sessions run on the main thread, client 0. Between two coroutines it is neither inside \<^verbatim>\<open>infer_async\<close> nor inside
  \<^verbatim>\<open>co_await\<close>.
\<close>

definition at_rest :: "('f, 'b) serving \<Rightarrow> bool" where
  "at_rest s \<longleftrightarrow> clients (srv_exec s) 0 = C_Idle \<and>
     (\<forall>c < length (requests (srv_exec s)). awaiters (srv_pool s) c = A_Waiting \<or> (\<exists>v. awaiters (srv_pool s) c = A_Resumed v))"

definition serving_init :: "('f, 'b) serving \<Rightarrow> bool" where
  "serving_init s \<longleftrightarrow> exec_init (srv_exec s) \<and> pool_init (srv_pool s) \<and> life s = Running \<and> dangling s = 0"

text \<open>The main thread: \<^verbatim>\<open>infer_async\<close> in a session, then \<^verbatim>\<open>co_await\<close>, and the resumption by the reactor.\<close>

inductive main_step :: "('f, 'b) serving \<Rightarrow> ('f, 'b) serving \<Rightarrow> bool" where
  session_call: "life s = Running \<Longrightarrow> at_rest s \<Longrightarrow> infer_begin 0 r now routing (srv_exec s) = Some e \<Longrightarrow>
    main_step s (with_exec e s)"
| session_push: "life s = Running \<Longrightarrow> clients (srv_exec s) 0 \<noteq> C_Idle \<Longrightarrow> client_step (srv_exec s) e \<Longrightarrow>
    requests e = requests (srv_exec s) \<Longrightarrow> main_step s (with_exec e s)"
| session_await: "life s = Running \<Longrightarrow> clients (srv_exec s) 0 = C_Idle \<Longrightarrow> c < length (requests (srv_exec s)) \<Longrightarrow>
    awaiters (srv_pool s) c \<noteq> A_Waiting \<Longrightarrow> await_step c (srv_pool s) p \<Longrightarrow> main_step s (s\<lparr> srv_pool := p \<rparr>)"
| session_resume: "life s = Running \<Longrightarrow> at_rest s \<Longrightarrow> awaiters (srv_pool s) c = A_Waiting \<Longrightarrow> await_step c (srv_pool s) p \<Longrightarrow>
    main_step s (s\<lparr> srv_pool := p \<rparr>)"

text \<open>The end of \<^verbatim>\<open>main\<close>, which stops the executor between the two destructions.\<close>

inductive exit_step :: "('f, 'b) serving \<Rightarrow> ('f, 'b) serving \<Rightarrow> bool" where
  destroy_reactor: "life s = Running \<Longrightarrow> at_rest s \<Longrightarrow> exit_step s (with_life Reactor_Destroyed s)"
| destroy_runtime: "life s = Reactor_Destroyed \<Longrightarrow> stopped (srv_exec s) \<Longrightarrow> \<not> notifying (srv_exec s) \<Longrightarrow>
    \<forall>w. workers (srv_exec s) w = W_Off \<Longrightarrow> exit_step s (with_life Runtime_Destroyed s)"
| destroy_pool: "life s = Runtime_Destroyed \<Longrightarrow> exit_step s (s\<lparr> srv_pool := pool_stop (srv_pool s) \<rparr>)"

definition may_control :: "('f, 'b) serving \<Rightarrow> ('f, 'b) executor \<Rightarrow> bool" where
  "may_control s e \<longleftrightarrow> life s \<noteq> Runtime_Destroyed \<and>
     (stopped e \<noteq> stopped (srv_exec s) \<longrightarrow> (stopped e \<longleftrightarrow> life s = Reactor_Destroyed))"

inductive serving_step ::
  "('b \<Rightarrow> 'f InferenceRequest list \<Rightarrow> InferenceResponse list) \<Rightarrow> ('f, 'b) serving \<Rightarrow> ('f, 'b) serving \<Rightarrow> bool" for ib where
  on_main: "\<not> terminated (srv_pool s) \<Longrightarrow> main_step s s' \<Longrightarrow> serving_step ib s s'"
| on_exit: "\<not> terminated (srv_pool s) \<Longrightarrow> exit_step s s' \<Longrightarrow> serving_step ib s s'"
| on_worker: "\<not> terminated (srv_pool s) \<Longrightarrow> life s \<noteq> Runtime_Destroyed \<Longrightarrow> worker_step ib w (srv_exec s) e \<Longrightarrow>
    serving_step ib s (with_exec e s)"
| on_control: "\<not> terminated (srv_pool s) \<Longrightarrow> control_step (srv_exec s) e \<Longrightarrow> may_control s e \<Longrightarrow> serving_step ib s (with_exec e s)"
| on_pool: "\<not> terminated (srv_pool s) \<Longrightarrow> pool_worker w (srv_pool s) p \<Longrightarrow> serving_step ib s (s\<lparr> srv_pool := p,
    dangling := dangling s + (if life s \<noteq> Running then length (scheduled p) - length (scheduled (srv_pool s)) else 0) \<rparr>)"
| on_spurious: "\<not> terminated (srv_pool s) \<Longrightarrow> pool_threads (srv_pool s) w = P_Sleep \<Longrightarrow>
    serving_step ib s (s\<lparr> srv_pool := goto_w w P_Loop (srv_pool s) \<rparr>)"

section \<open>The invariant\<close>

text \<open>Each component keeps its own invariant, and the futures of the pool are the promises of the executor.\<close>

definition linked :: "('f, 'b) serving \<Rightarrow> bool" where
  "linked s \<longleftrightarrow> futures (srv_pool s) = future_of (srv_exec s) (life s) \<and>
     (\<forall>c. awaiters (srv_pool s) c \<in> {A_Notify, A_Waiting} \<longrightarrow> c \<in> set (posted (srv_pool s))) \<and>
     (\<forall>c. awaiters (srv_pool s) c \<noteq> A_Idle \<longrightarrow> c < length (requests (srv_exec s)))"

definition serving_inv ::
  "('b \<Rightarrow> 'f InferenceRequest list \<Rightarrow> InferenceResponse list) \<Rightarrow> ('f, 'b) serving \<Rightarrow> bool" where
  "serving_inv ib s \<longleftrightarrow> exec_inv ib (srv_exec s) \<and> pool_inv (srv_pool s) \<and> linked s"

lemma futures_inv:
  assumes "pool_inv p" "\<And>c. futures p c \<noteq> Unset \<Longrightarrow> f c = futures p c"
  shows "pool_inv (p\<lparr> futures := f \<rparr>)"
proof -
  have "in_flight (p\<lparr> futures := f \<rparr>) = in_flight p" by (rule in_flight_cong) simp
  then have "places_ok (p\<lparr> futures := f \<rparr>)" using assms(1) by (auto simp: pool_inv_def places_ok_def)
  moreover have "values_ok (p\<lparr> futures := f \<rparr>)"
  proof -
    have v: "f c = Value v" if "futures p c = Value v" for c v using assms(2) [of c] that by simp
    have "values_ok p" using assms(1) by (simp add: pool_inv_def)
    then show ?thesis using v assms(2) unfolding values_ok_def by (auto; metis)
  qed
  moreover have "wake_ok (p\<lparr> futures := f \<rparr>)" using assms(1) by (simp add: pool_inv_def wake_ok_def)
  ultimately show ?thesis by (simp add: pool_inv_def)
qed

text \<open>No step of the executor takes back a promise or a request.\<close>

definition extends :: "('f, 'b) executor \<Rightarrow> ('f, 'b) executor \<Rightarrow> bool" where
  "extends e e' \<longleftrightarrow> promises e \<subseteq>\<^sub>m promises e' \<and> length (requests e) \<le> length (requests e')"

lemma set_value_extends: "set_value p r e = Some e' \<Longrightarrow> extends e e'"
  by (auto simp: set_value_Some extends_def map_le_def)

lemma client_extends: "client_step e e' \<Longrightarrow> extends e e'"
  by (erule client_step.cases)
    (auto simp: extends_def map_le_def infer_begin_def push_stopped_def push_timeout_def set_value_Some Let_def split: if_splits)

lemma extends_trans: "extends e e' \<Longrightarrow> extends e' e'' \<Longrightarrow> extends e e''"
  unfolding extends_def using map_le_trans le_trans by blast

lemma count_extends: "extends e (count_response r e)"
  by (simp add: extends_def count_response_def)

lemma deliver_extends: "deliver batch rs x e = Some e' \<Longrightarrow> extends e e'"
proof (induction batch rs x e rule: deliver.induct)
  case (3 t wait batch r rs x e)
  from "3.prems" obtain e1 where e1: "set_value (promise t) (with_timing r (task_routing_ns t) wait x) (count_response r e) = Some e1"
    and rest: "deliver batch rs x e1 = Some e'" by (auto simp: Option.bind_eq_Some_conv)
  show ?case using "3.IH" [OF e1 rest] set_value_extends [OF e1] count_extends extends_trans by blast
qed (simp_all add: extends_def)

lemma deliver_unavailable_extends: "deliver_unavailable batch e = Some e' \<Longrightarrow> extends e e'"
proof (induction batch e rule: deliver_unavailable.induct)
  case (2 t wait batch e)
  from "2.prems" obtain e1 where e1: "set_value (promise t) (error_response ''backend unavailable'') e = Some e1"
    and rest: "deliver_unavailable batch e1 = Some e'" by (auto simp: Option.bind_eq_Some_conv)
  show ?case using "2.IH" [OF e1 rest] set_value_extends [OF e1] extends_trans by blast
qed (simp add: extends_def)

lemma worker_extends: "worker_step ib w e e' \<Longrightarrow> extends e e'"
proof (erule worker_step.cases)
  fix s batch x s' assume "e = s" "e' = set_worker w W_Head s'" "run_batch ib x batch s = Some s'"
  moreover from this have "extends s s'"
    by (auto simp: run_batch_def deliver_extends deliver_unavailable_extends split: option.splits if_splits)
  ultimately show ?thesis by (simp add: extends_def)
qed (simp_all add: extends_def)

lemma control_extends: "control_step e e' \<Longrightarrow> extends e e'"
  by (erule control_step.cases) (simp_all add: extends_def)

lemma with_exec_inv:
  assumes "serving_inv ib s" "exec_step ib (srv_exec s) e" "extends (srv_exec s) e" "life s \<noteq> Runtime_Destroyed"
  shows "serving_inv ib (with_exec e s)"
proof -
  have l: "linked s" and p: "pool_inv (srv_pool s)" and x: "exec_inv ib (srv_exec s)" using assms(1) by (simp_all add: serving_inv_def)
  have "future_of e (life s) c = futures (srv_pool s) c" if "futures (srv_pool s) c \<noteq> Unset" for c
    using that l assms(3,4) by (auto simp: linked_def future_of_def extends_def map_le_def dom_def split: option.splits)
  then have "pool_inv (srv_pool (with_exec e s))" unfolding with_exec_def using futures_inv [OF p] by simp
  moreover have "exec_inv ib e" by (rule executor.inv_step [OF x assms(2)])
  moreover have "linked (with_exec e s)" using l assms(3) by (fastforce simp: linked_def with_exec_def extends_def)
  ultimately show ?thesis by (simp add: serving_inv_def with_exec_def)
qed

lemma await_frame:
  assumes "await_step c p p'"
  shows "futures p' = futures p" "\<And>d. d \<noteq> c \<Longrightarrow> awaiters p' d = awaiters p d" "set (posted p) \<subseteq> set (posted p')"
    "awaiters p' c \<in> {A_Notify, A_Waiting} \<Longrightarrow> awaiters p c \<in> {A_Notify, A_Waiting} \<or> c \<in> set (posted p')"
  using assms by (auto elim!: await_step.cases)

lemma await_inv:
  assumes "serving_inv ib s" "\<not> terminated (srv_pool s)" "await_step c (srv_pool s) p" "c < length (requests (srv_exec s))"
  shows "serving_inv ib (s\<lparr> srv_pool := p \<rparr>)"
proof -
  have "pool_inv p" using assms(1-3) quiet_inv by_awaiter by (metis serving_inv_def)
  moreover have "linked (s\<lparr> srv_pool := p \<rparr>)"
    unfolding linked_def
  proof (intro conjI allI impI)
    note l = assms(1) [unfolded serving_inv_def linked_def] and f = await_frame [OF assms(3)]
    show "futures (srv_pool (s\<lparr> srv_pool := p \<rparr>)) = future_of (srv_exec (s\<lparr> srv_pool := p \<rparr>)) (life (s\<lparr> srv_pool := p \<rparr>))" using l f(1) by simp
    fix d
    show "d \<in> set (posted (srv_pool (s\<lparr> srv_pool := p \<rparr>)))" if "awaiters (srv_pool (s\<lparr> srv_pool := p \<rparr>)) d \<in> {A_Notify, A_Waiting}"
      using that l f by (cases "d = c") auto
    show "d < length (requests (srv_exec (s\<lparr> srv_pool := p \<rparr>)))" if "awaiters (srv_pool (s\<lparr> srv_pool := p \<rparr>)) d \<noteq> A_Idle"
      using that l f(2) assms(4) by (cases "d = c") auto
  qed
  ultimately show ?thesis using assms(1) by (simp add: serving_inv_def)
qed

lemma main_inv:
  assumes "serving_inv ib s" "\<not> terminated (srv_pool s)" "main_step s s'"
  shows "serving_inv ib s'"
  using assms(3)
proof cases
  case (session_call r now routing e)
  have "client_step (srv_exec s) e" using session_call by (intro client_step.call) (simp_all add: at_rest_def)
  from with_exec_inv [OF assms(1) exec_stepI(1) [OF this] client_extends [OF this]] show ?thesis using session_call by simp
next
  case (session_push e)
  from with_exec_inv [OF assms(1) exec_stepI(1) [OF session_push(4)] client_extends [OF session_push(4)]] show ?thesis using session_push by simp
next
  case (session_await c p)
  then show ?thesis using await_inv [OF assms(1,2)] by simp
next
  case (session_resume c p)
  have "c < length (requests (srv_exec s))" using assms(1) session_resume(4) unfolding serving_inv_def linked_def by fastforce
  then show ?thesis using session_resume await_inv [OF assms(1,2)] by simp
qed

lemma with_life_inv:
  assumes "serving_inv ib s" "life s \<noteq> Runtime_Destroyed"
  shows "serving_inv ib (with_life l s)"
proof -
  have l: "linked s" and p: "pool_inv (srv_pool s)" using assms(1) by (simp_all add: serving_inv_def)
  have "future_of (srv_exec s) l c = futures (srv_pool s) c" if "futures (srv_pool s) c \<noteq> Unset" for c
    using that l assms(2) by (auto simp: linked_def future_of_def split: option.splits)
  then have "pool_inv (srv_pool (with_life l s))" unfolding with_life_def using futures_inv [OF p] by simp
  then show ?thesis using assms(1) by (simp add: serving_inv_def linked_def with_life_def)
qed

lemma exit_inv:
  assumes "serving_inv ib s" "\<not> terminated (srv_pool s)" "exit_step s s'"
  shows "serving_inv ib s'"
  using assms(3)
proof cases
  case destroy_pool
  have "pool_inv (pool_stop (srv_pool s))" using assms(1,2) quiet_inv quiet_step.stop by (metis serving_inv_def)
  then show ?thesis using assms(1) destroy_pool by (simp add: serving_inv_def linked_def pool_stop_def)
qed (use with_life_inv [OF assms(1)] in simp_all)

interpretation serving_run: inductive_invariant serving_init "serving_step ib" "serving_inv ib" for ib
proof
  show "serving_inv ib s" if "serving_init s" for s :: "('a, 'b) serving"
  proof -
    have i: "exec_init (srv_exec s)" "pool_init (srv_pool s)" "life s = Running" using that by (simp_all add: serving_init_def)
    have "promises (srv_exec s) = Map.empty" "requests (srv_exec s) = []" using i(1) by (auto simp: exec_init_def executor_new_def)
    then have "linked s" using i by (simp add: linked_def pool_init_def future_of_def fun_eq_iff)
    then show ?thesis using executor.inv_init [OF i(1)] pool_run.inv_init [OF i(2)] by (simp add: serving_inv_def)
  qed
  show "serving_inv ib t" if inv: "serving_inv ib s" and "serving_step ib s t" for s t :: "('a, 'b) serving"
    using that(2)
  proof cases
    case (on_worker w e)
    from with_exec_inv [OF inv exec_stepI(2) [OF on_worker(4)] worker_extends [OF on_worker(4)]] show ?thesis using on_worker by simp
  next
    case (on_control e)
    from with_exec_inv [OF inv exec_stepI(3) [OF on_control(3)] control_extends [OF on_control(3)]] show ?thesis
      using on_control by (simp add: may_control_def)
  next
    case (on_pool w p)
    have "pool_inv p" using inv on_pool quiet_inv by_worker by (metis serving_inv_def)
    moreover have "futures p = futures (srv_pool s)" "awaiters p = awaiters (srv_pool s)" "posted p = posted (srv_pool s)"
      using on_pool(3) by (auto elim!: pool_worker.cases)
    ultimately show ?thesis using inv on_pool(1) by (simp add: serving_inv_def linked_def)
  next
    case (on_spurious w)
    have "pool_inv (goto_w w P_Loop (srv_pool s))" using inv on_spurious quiet_inv quiet_step.spurious by (metis serving_inv_def)
    then show ?thesis using inv on_spurious(1) by (simp add: serving_inv_def linked_def)
  qed (use main_inv [OF inv] exit_inv [OF inv] in simp_all)
qed

section \<open>Properties\<close>

lemma in_flight_thread: "c \<in># in_flight p \<longleftrightarrow> (\<exists>w < NUM_THREADS. pool_threads p w = P_Run c)"
proof -
  have "c \<in># run_of t \<longleftrightarrow> t = P_Run c" for t by (cases t) auto
  moreover have "c \<in># (\<Sum>w < n. run_of (f w)) \<longleftrightarrow> (\<exists>w < n. c \<in># run_of (f w))" for n :: nat and f
    by (induction n) (auto simp: less_Suc_eq)
  ultimately show ?thesis by (simp add: in_flight_def)
qed

text \<open>The value a coroutine resumed with is an answer to its request.\<close>

lemma resumed_answer:
  assumes "serving_inv ib s" "awaiters (srv_pool s) c = A_Resumed v"
  shows "c < length (requests (srv_exec s)) \<and> promises (srv_exec s) c = Some v \<and> answer_ok ib (requests (srv_exec s) ! c) v"
proof -
  have inv: "exec_inv ib (srv_exec s)" "values_ok (srv_pool s)" "linked s" using assms(1) by (simp_all add: serving_inv_def pool_inv_def)
  have "futures (srv_pool s) c = Value v" using assms(2) inv(2) by (simp add: values_ok_def)
  then have p: "promises (srv_exec s) c = Some v" using inv(3) by (simp add: linked_def future_of_def split: option.splits if_splits)
  moreover have "c < length (requests (srv_exec s))"
  proof -
    have "awaiters (srv_pool s) c \<noteq> A_Idle" using assms(2) by simp
    then show ?thesis using inv(3) unfolding linked_def by blast
  qed
  ultimately show ?thesis using promises_okD(3) inv(1) unfolding exec_inv_def by blast
qed

text \<open>
  C9. A request is answered end to end. In every interleaving of sessions, workers, pool threads and the exit of \<^verbatim>\<open>main\<close>: a coroutine that has
  come back from \<^verbatim>\<open>co_await\<close> holds the value its own promise was resolved with, an answer to its own request; a coroutine that waits has its
  continuation in exactly the places the pool provides, the queue, a pool thread, or scheduled with the resolved value; and while its promise is unresolved
  exactly one party of the executor holds it.
\<close>

theorem serving_answers:
  assumes "reach serving_init (serving_step ib) s"
  shows "(\<forall>c v. awaiters (srv_pool s) c = A_Resumed v \<longrightarrow> c < length (requests (srv_exec s)) \<and>
      promises (srv_exec s) c = Some v \<and> answer_ok ib (requests (srv_exec s) ! c) v) \<and>
    (\<forall>c. awaiters (srv_pool s) c = A_Waiting \<longrightarrow>
      (c \<in> set (queue (srv_pool s)) \<or> (\<exists>w < NUM_THREADS. pool_threads (srv_pool s) w = P_Run c) \<or>
       c \<in> set (scheduled (srv_pool s)) \<and> (\<exists>v. promises (srv_exec s) c = Some v \<and> results (srv_pool s) c = Some v)) \<and>
      (promises (srv_exec s) c = None \<longrightarrow> (\<exists>!h. c \<in> set (held (srv_exec s) h))))"
proof -
  have inv: "exec_inv ib (srv_exec s)" "pool_inv (srv_pool s)" "linked s"
    using serving_run.reach_inv [OF assms] by (simp_all add: serving_inv_def)
  have ok: "promises_ok ib (tasks_of (srv_exec s)) (promises (srv_exec s)) (requests (srv_exec s))" using inv(1) by (simp add: exec_inv_def)
  note od = ownsD [OF promises_okD(1) [OF ok]]
  have val: "promises (srv_exec s) c = Some v" if "futures (srv_pool s) c = Value v" for c v
    using that inv(3) by (auto simp: linked_def future_of_def split: option.splits if_splits)
  have lt: "c < length (requests (srv_exec s))" if "awaiters (srv_pool s) c \<noteq> A_Idle" for c using that inv(3) by (auto simp: linked_def)
  note resumed_answer [OF serving_run.reach_inv [OF assms]]
  moreover have "c \<in> set (queue (srv_pool s)) \<or> (\<exists>w < NUM_THREADS. pool_threads (srv_pool s) w = P_Run c) \<or>
       c \<in> set (scheduled (srv_pool s)) \<and> (\<exists>v. promises (srv_exec s) c = Some v \<and> results (srv_pool s) c = Some v)"
    if "awaiters (srv_pool s) c = A_Waiting" for c
  proof -
    have "c \<in> set (posted (srv_pool s))" using that inv(3) by (auto simp: linked_def)
    moreover have "posted (srv_pool s) = taken (srv_pool s) @ queue (srv_pool s)"
      and m: "mset (taken (srv_pool s)) = in_flight (srv_pool s) + mset (scheduled (srv_pool s))"
      using inv(2) unfolding pool_inv_def places_ok_def by blast+
    moreover have "set (taken (srv_pool s)) = set_mset (in_flight (srv_pool s)) \<union> set (scheduled (srv_pool s))"
      using arg_cong [OF m, of set_mset] by simp
    ultimately have "c \<in> set (queue (srv_pool s)) \<or> (\<exists>w < NUM_THREADS. pool_threads (srv_pool s) w = P_Run c) \<or> c \<in> set (scheduled (srv_pool s))"
      by (auto simp: in_flight_thread)
    moreover have "\<exists>v. futures (srv_pool s) c = Value v \<and> results (srv_pool s) c = Some v" if "c \<in> set (scheduled (srv_pool s))"
      using that inv(2) by (simp add: pool_inv_def values_ok_def)
    ultimately show ?thesis using val by blast
  qed
  moreover have "\<exists>!h. c \<in> set (held (srv_exec s) h)" if "awaiters (srv_pool s) c = A_Waiting" "promises (srv_exec s) c = None" for c
  proof -
    have "c \<notin> dom (promises (srv_exec s))" "c < length (requests (srv_exec s))" using that lt [of c] by auto
    then obtain h where "c \<in> set (held (srv_exec s) h)" using od(6) [of c] by (auto simp: held_eq)
    then show ?thesis using od(4) [of c] by (auto simp: held_eq)
  qed
  ultimately show ?thesis by blast
qed

section \<open>The exit of main with a request in flight\<close>

definition pool0 :: "InferenceResponse pool" where
  "pool0 = \<lparr> queue = [], pool_stopped = False, pool_threads = (\<lambda>w. P_Loop), awaiters = (\<lambda>c. A_Idle), futures = (\<lambda>c. Unset),
     results = Map.empty, scheduled = [], terminated = False, posted = [], taken = [] \<rparr>"

definition pool1 :: "InferenceResponse pool" where
  "pool1 = pool0\<lparr> pool_threads := (\<lambda>w. P_Loop)(0 := P_Run 0), awaiters := (\<lambda>c. A_Idle)(0 := A_Waiting), posted := [0], taken := [0] \<rparr>"

definition serving_at :: "(nat, unit) executor \<Rightarrow> InferenceResponse pool \<Rightarrow> lifetime \<Rightarrow> (nat, unit) serving" where
  "serving_at e p l = \<lparr> srv_exec = e, srv_pool = p, life = l, dangling = 0 \<rparr>"

lemma future_of_none: "promises e = Map.empty \<Longrightarrow> l \<noteq> Runtime_Destroyed \<Longrightarrow> future_of e l = (\<lambda>c. Unset)"
  by (simp add: future_of_def fun_eq_iff)

lemma with_exec_at:
  assumes "promises e' = Map.empty" "l \<noteq> Runtime_Destroyed" "futures p = (\<lambda>c. Unset)"
  shows "with_exec e' (serving_at e p l) = serving_at e' p l"
  using assms by (simp add: with_exec_def serving_at_def future_of_none)

lemma serving_exec:
  assumes "reach serving_init (serving_step ib) (serving_at e p l)" "serving_step ib (serving_at e p l) (with_exec e' (serving_at e p l))"
    and "promises e' = Map.empty" "l \<noteq> Runtime_Destroyed" "futures p = (\<lambda>c. Unset)"
  shows "reach serving_init (serving_step ib) (serving_at e' p l)"
  using reach_step [OF assms(1,2)] with_exec_at [OF assms(3-5)] by simp

lemma serving_client:
  assumes "reach serving_init (serving_step ib) (serving_at e pool0 Running)" "client_step e e'" "clients e 0 \<noteq> C_Idle"
    "requests e' = requests e" "promises e' = Map.empty"
  shows "reach serving_init (serving_step ib) (serving_at e' pool0 Running)"
proof (rule serving_exec [OF assms(1)])
  have "main_step (serving_at e pool0 Running) (with_exec e' (serving_at e pool0 Running))"
    by (rule session_push) (use assms in \<open>simp_all add: serving_at_def\<close>)
  then show "serving_step ib (serving_at e pool0 Running) (with_exec e' (serving_at e pool0 Running))"
    by (intro on_main) (simp_all add: serving_at_def pool0_def)
qed (use assms in \<open>simp_all add: pool0_def\<close>)

lemma serving_worker:
  assumes "reach serving_init (serving_step ib) (serving_at e pool1 l)" "worker_step ib w e e'" "promises e' = Map.empty" "l \<noteq> Runtime_Destroyed"
  shows "reach serving_init (serving_step ib) (serving_at e' pool1 l)"
  by (rule serving_exec [OF assms(1) on_worker]) (use assms in \<open>simp_all add: serving_at_def pool1_def pool0_def\<close>)

lemma serving_control:
  assumes "reach serving_init (serving_step ib) (serving_at e p l)" "control_step e e'" "may_control (serving_at e p l) e'" "promises e' = Map.empty"
    "\<not> terminated p" "futures p = (\<lambda>c. Unset)"
  shows "reach serving_init (serving_step ib) (serving_at e' p l)"
  by (rule serving_exec [OF assms(1) on_control]) (use assms in \<open>simp_all add: serving_at_def may_control_def\<close>)

lemma serving_started: "reach serving_init (serving_step ib) (serving_at started pool0 Running)"
proof (rule serving_control [of ib fresh])
  have "serving_init (serving_at fresh pool0 Running)"
    by (simp add: serving_init_def serving_at_def exec_init_def fresh_def pool_init_def pool0_def) blast
  then show "reach serving_init (serving_step ib) (serving_at fresh pool0 Running)" by (rule reach_init)
  have "control_step fresh (fresh\<lparr> stopped := False, workers := (\<lambda>w. if w < num_workers fresh then W_Head else W_Off) \<rparr>)"
    by (rule control_step.start) (simp_all add: fresh_def executor_new_def)
  then show "control_step fresh started" by (simp add: started_def fresh_def executor_new_def)
qed (simp_all add: may_control_def serving_at_def started_def pool0_def fresh_def executor_new_def)

lemma serving_await:
  assumes "reach serving_init (serving_step ib) (serving_at e p Running)" "clients e 0 = C_Idle" "0 < length (requests e)"
    "awaiters p 0 \<noteq> A_Waiting" "await_step 0 p p'" "\<not> terminated p"
  shows "reach serving_init (serving_step ib) (serving_at e p' Running)"
proof -
  have "main_step (serving_at e p Running) ((serving_at e p Running)\<lparr> srv_pool := p' \<rparr>)"
    by (rule session_await [of _ 0]) (use assms in \<open>simp_all add: serving_at_def\<close>)
  then have "serving_step ib (serving_at e p Running) (serving_at e p' Running)"
    using assms(6) by (intro on_main) (simp_all add: serving_at_def)
  then show ?thesis using assms(1) by (blast intro: reach_step)
qed

lemma serving_pool:
  assumes "reach serving_init (serving_step ib) (serving_at e p Running)" "pool_worker w p p'" "\<not> terminated p"
  shows "reach serving_init (serving_step ib) (serving_at e p' Running)"
  using reach_step [OF assms(1) on_pool [of "serving_at e p Running" w p']] assms(2,3) by (simp add: serving_at_def)

text \<open>A session's request is queued, its coroutine waits and a pool thread blocks on its future.\<close>

lemma serving_waiting: "reach serving_init (serving_step ib) (serving_at (with_task started) pool1 Running)"
proof -
  let ?R = "\<lambda>e p. reach serving_init (serving_step ib) (serving_at e p Running)"
  let ?e1 = "set_client 0 (C_Pushing slot0) (started\<lparr> metrics := (metrics started)\<lparr> requests_received := requests_received (metrics started) + 1 \<rparr>,
    requests := [some_request] \<rparr>)"
  have "infer_begin 0 some_request 0 0 started = Some ?e1"
    by (simp add: infer_begin_def Let_def backend_ready_def ready_meta_simps slot0_def)
  then have "main_step (serving_at started pool0 Running) (with_exec ?e1 (serving_at started pool0 Running))"
    by (intro session_call) (simp_all add: serving_at_def at_rest_def)
  then have "?R ?e1 pool0"
    by (intro serving_exec [OF serving_started on_main]) (simp_all add: serving_at_def pool0_def)
  note r = serving_client [OF this client_step.check_running [of _ 0 slot0]]
  note r = serving_client [OF r client_step.claim [of _ 0 slot0 "[(slot0, False)]"]]
  note r = serving_client [OF r client_step.publish [of _ 0 0]]
  note r = serving_client [OF r client_step.count [of _ 0]]
  note r = serving_client [OF r client_step.notify_none [of _ 0]]
  have upd: "(\<lambda>t. C_Idle)(0 := C_Idle) = (\<lambda>t :: nat. C_Idle)" by auto
  have "?R (with_task started) pool0"
    using r by (simp add: set_client_def with_task_def QUEUE_CAPACITY_def publish_task_def slot0_def upd)
  note r = serving_await [OF this _ _ _ await_not_ready]
  note r = serving_await [OF r _ _ _ await_step.post]
  note r = serving_await [OF r _ _ _ notify_nobody]
  note r = serving_pool [OF r worker_take [of 0]]
  then show ?thesis by (simp add: with_task_def pool1_def pool0_def goto_a_def goto_w_def pool_post_def NUM_THREADS_def)
qed


lemma serving_exit:
  assumes "reach serving_init (serving_step ib) (serving_at e pool1 Running)" "clients e 0 = C_Idle" "length (requests e) = 1" "promises e = Map.empty"
  shows "reach serving_init (serving_step ib) (serving_at e pool1 Reactor_Destroyed)"
proof -
  have "exit_step (serving_at e pool1 Running) (with_life Reactor_Destroyed (serving_at e pool1 Running))"
    by (rule destroy_reactor) (use assms in \<open>simp_all add: serving_at_def at_rest_def pool1_def\<close>)
  then have "serving_step ib (serving_at e pool1 Running) (with_life Reactor_Destroyed (serving_at e pool1 Running))"
    by (intro on_exit) (simp_all add: serving_at_def pool1_def pool0_def)
  moreover have "with_life Reactor_Destroyed (serving_at e pool1 Running) = serving_at e pool1 Reactor_Destroyed"
    using assms(4) by (simp add: with_life_def serving_at_def future_of_none pool1_def pool0_def)
  ultimately show ?thesis using reach_step [OF assms(1)] by metis
qed

lemma pool1_simps [simp]: "\<not> terminated pool1" "futures pool1 = (\<lambda>c. Unset)" "pool_threads pool1 0 = P_Run 0" "scheduled pool1 = []"
  by (simp_all add: pool1_def pool0_def)

theorem serving_answers_witness:
  "\<exists>s :: (nat, unit) serving. reach serving_init (serving_step (\<lambda>b rs. [])) s \<and> awaiters (srv_pool s) 0 = A_Waiting \<and>
     (\<exists>!h. 0 \<in> set (held (srv_exec s) h))"
proof -
  let ?s = "serving_at (with_task started) pool1 Running"
  have w: "awaiters (srv_pool ?s) 0 = A_Waiting" "promises (srv_exec ?s) 0 = None" by (simp_all add: serving_at_def pool1_def with_task_def)
  have r: "reach serving_init (serving_step (\<lambda>b rs. [])) ?s" by (rule serving_waiting)
  have "\<exists>!h. 0 \<in> set (held (srv_exec ?s) h)" using serving_answers [OF r] w by blast
  with r w(1) show ?thesis by blast
qed

text \<open>
  C37. A request that is queued when \<^verbatim>\<open>main\<close> ends aborts the process: the executor's queue is destroyed with the promise in it, the future breaks, and the
  pool thread that waits for it gets an exception that nobody catches.
\<close>

theorem serving_exit_terminates:
  "\<exists>s :: (nat, unit) serving. reach serving_init (serving_step ib) s \<and> life s = Runtime_Destroyed \<and> terminated (srv_pool s)"
proof -
  let ?e1 = "(with_task started)\<lparr> stopped := True, notifying := True \<rparr>" and ?l = Reactor_Destroyed
  have ws: "workers ?e1 = (\<lambda>w. if w = 0 then W_Head else W_Off)" by (simp add: with_task_def)
  let ?e2 = "?e1\<lparr> notifying := False, workers := (\<lambda>w. if workers ?e1 w = W_Sleep then W_Wait else workers ?e1 w) \<rparr>"
  have "reach serving_init (serving_step ib) (serving_at (with_task started) pool1 ?l)"
    by (rule serving_exit [OF serving_waiting]) (simp_all add: with_task_def)
  note r = serving_control [OF this control_step.stop]
  have r1: "reach serving_init (serving_step ib) (serving_at ?e1 pool1 ?l)"
    by (rule r) (simp_all add: with_task_def may_control_def serving_at_def)
  have r2: "reach serving_init (serving_step ib) (serving_at ?e2 pool1 ?l)"
    by (rule serving_control [OF r1 control_step.notify_all]) (simp_all add: with_task_def may_control_def serving_at_def)
  let ?e3 = "set_worker 0 W_Off ?e2"
  have r3: "reach serving_init (serving_step ib) (serving_at ?e3 pool1 ?l)"
    by (rule serving_worker [OF r2 worker_step.leave]) (simp_all add: with_task_def)
  define s4 where "s4 = with_life Runtime_Destroyed (serving_at ?e3 pool1 ?l)"
  have "exit_step (serving_at ?e3 pool1 ?l) s4"
    unfolding s4_def by (rule destroy_runtime) (simp_all add: serving_at_def with_task_def)
  then have r4: "reach serving_init (serving_step ib) s4"
    by (intro reach_step [OF r3 on_exit]) (simp_all add: serving_at_def)
  have f: "futures (srv_pool s4) 0 = Broken" "pool_threads (srv_pool s4) 0 = P_Run 0" "\<not> terminated (srv_pool s4)" "life s4 = Runtime_Destroyed"
    by (simp_all add: s4_def with_life_def serving_at_def future_of_def with_task_def)
  have "pool_worker 0 (srv_pool s4) ((srv_pool s4)\<lparr> terminated := True \<rparr>)"
    by (rule worker_throws [of 0 _ 0]) (use f in \<open>simp_all add: NUM_THREADS_def\<close>)
  note r5 = reach_step [OF r4 on_pool [OF f(3) this]]
  show ?thesis by (rule exI, rule conjI, rule r5) (simp add: f)
qed

text \<open>A worker has popped the request and fills its batch when \<^verbatim>\<open>main\<close> ends and the runtime stops the executor.\<close>

definition last_batch :: "(nat, unit) executor" where
  "last_batch = set_worker 0 (W_Run [(slot0, 0)]) ((with_task started)\<lparr> tasks := [], queue_size := 0, stopped := True, notifying := True \<rparr>)"

lemma serving_last_batch: "reach serving_init (serving_step ib) (serving_at last_batch pool1 Reactor_Destroyed)"
proof -
  let ?l = Reactor_Destroyed
  let ?R = "\<lambda>e l. reach serving_init (serving_step ib) (serving_at e pool1 l)"
  let ?w = "\<lambda>pc q n. set_worker 0 pc ((with_task started)\<lparr> tasks := q, queue_size := n \<rparr>)"
  have 0: "?R (?w W_Head [(slot0, True)] 1) Running"
  proof -
    have "?w W_Head [(slot0, True)] 1 = with_task started"
      by (rule executor.equality) (simp_all add: with_task_def set_worker_def fun_eq_iff)
    then show ?thesis using serving_waiting [of ib] by metis
  qed
  have 1: "?R (?w (W_Batch []) [(slot0, True)] 1) Running"
    using serving_worker [OF 0 worker_step.enter [of _ 0]] by (simp add: set_worker_def with_task_def)
  have 2: "?R (?w (W_Pop []) [(slot0, True)] 1) Running"
    using serving_worker [OF 1 worker_step.more [of _ 0 "[]" ready_meta]] by (simp add: set_worker_def with_task_def ready_meta_simps)
  have 3: "?R (?w (W_Popped [(slot0, 0)]) [] 1) Running"
  proof -
    let ?e = "?w (W_Pop []) [(slot0, True)] 1"
    have "worker_step ib 0 ?e (set_worker 0 (W_Popped ([] @ [(slot0, 0 - enqueue_time slot0)])) (?e\<lparr> tasks := [] \<rparr>))"
      by (rule worker_step.pop) (simp_all add: set_worker_def)
    moreover have "set_worker 0 (W_Popped ([] @ [(slot0, 0 - enqueue_time slot0)])) (?e\<lparr> tasks := [] \<rparr>) = ?w (W_Popped [(slot0, 0)]) [] 1"
      by (rule executor.equality) (simp_all add: set_worker_def slot0_def)
    ultimately have "worker_step ib 0 ?e (?w (W_Popped [(slot0, 0)]) [] 1)" by simp
    from serving_worker [OF 2 this] show ?thesis by (simp add: with_task_def)
  qed
  have 4: "?R (?w (W_Batch [(slot0, 0)]) [] 0) Running"
    using serving_worker [OF 3 worker_step.popped [of _ 0]] by (simp add: set_worker_def with_task_def)
  have "?R (?w (W_Batch [(slot0, 0)]) [] 0) ?l"
    by (rule serving_exit [OF 4]) (simp_all add: with_task_def set_worker_def)
  note r = serving_control [OF this control_step.stop]
  let ?v = "\<lambda>pc. set_worker 0 pc ((with_task started)\<lparr> tasks := [], queue_size := 0, stopped := True, notifying := True \<rparr>)"
  have "?R ((?w (W_Batch [(slot0, 0)]) [] 0)\<lparr> stopped := True, notifying := True \<rparr>) ?l"
    by (rule r) (simp_all add: with_task_def may_control_def serving_at_def set_worker_def)
  moreover have "(?w (W_Batch [(slot0, 0)]) [] 0)\<lparr> stopped := True, notifying := True \<rparr> = ?v (W_Batch [(slot0, 0)])"
    by (rule executor.equality) (simp_all add: set_worker_def)
  ultimately have 5: "?R (?v (W_Batch [(slot0, 0)])) ?l" by metis
  have 6: "?R (?v (W_Run [(slot0, 0)])) ?l"
    using serving_worker [OF 5 worker_step.enough [of _ 0 "[(slot0, 0)]" ready_meta]] by (simp add: set_worker_def with_task_def)
  then show ?thesis by (simp add: last_batch_def)
qed

text \<open>
  C38. A batch that completes while \<^verbatim>\<open>main\<close> ends makes a pool thread use the destroyed reactor: the runtime is destroyed after the reactor and its executor
  finishes the batch at hand, upon which the pool thread calls \<^verbatim>\<open>schedule\<close> through a dangling pointer.
\<close>

theorem serving_exit_dangles:
  "\<exists>s :: (nat, unit) serving. reach serving_init (serving_step (\<lambda>b. map (\<lambda>q. error_response []))) s \<and> dangling s = 1"
proof -
  let ?ib = "\<lambda>b :: unit. map (\<lambda>q :: nat InferenceRequest. error_response [])" and ?l = Reactor_Destroyed
  have b: "meta last_batch = Some ready_meta" "promises last_batch = Map.empty" "requests last_batch = [some_request]"
    by (simp_all add: last_batch_def with_task_def)
  have "run_batch ?ib 0 [(slot0, 0)] last_batch \<noteq> None" by (rule run_batch_total) (simp_all add: b)
  then obtain e where e: "run_batch ?ib 0 [(slot0, 0)] last_batch = Some e" by blast
  have "resolves (promise ` fst ` set [(slot0, 0 :: u64)]) (\<lambda>p. answer_ok ?ib (requests last_batch ! p)) last_batch e"
    by (rule run_batch_Some [OF e]) (simp add: b slot0_def)
  then have "0 \<in> dom (promises e)" by (simp add: resolves_def slot0_def)
  have "worker_step ?ib 0 last_batch (set_worker 0 W_Head e)"
    by (rule worker_step.run [OF _ e]) (simp add: last_batch_def)
  then have step: "serving_step ?ib (serving_at last_batch pool1 ?l) (with_exec (set_worker 0 W_Head e) (serving_at last_batch pool1 ?l))"
    by (intro on_worker) (simp_all add: serving_at_def)
  define s where "s = with_exec (set_worker 0 W_Head e) (serving_at last_batch pool1 ?l)"
  have 7: "reach serving_init (serving_step ?ib) s" unfolding s_def by (rule reach_step [OF serving_last_batch step])
  obtain v where v: "futures (srv_pool s) 0 = Value v" using \<open>0 \<in> dom (promises e)\<close> by (auto simp: s_def with_exec_def future_of_def)
  have f: "pool_threads (srv_pool s) 0 = P_Run 0" "\<not> terminated (srv_pool s)" "life s = ?l" "dangling s = 0"
    by (simp_all add: s_def with_exec_def serving_at_def)
  have "0 < NUM_THREADS" by (simp add: NUM_THREADS_def)
  from worker_value [OF this f(1) v] obtain p where p: "pool_worker 0 (srv_pool s) p" "length (scheduled p) = Suc (length (scheduled (srv_pool s)))"
    by fastforce
  show ?thesis by (rule exI, rule conjI, rule reach_step [OF 7], rule on_pool [OF f(2) p(1)]) (simp add: f p(2))
qed

end
