(* ===== verification/End_To_End.thy ===== *)
theory End_To_End
  imports Serving Session
begin

text \<open>
  The path of a request through the server: a session reads it, the executor and the pool answer it with the Torch backend behind them, and the session
  writes the answer. What links the parts is \<open>response_ok\<close>, the contract of the backend interface: it
  survives the executor's delivery, and it is what a session needs to be safe.
\<close>

section \<open>From the backend to the coroutine\<close>

text \<open>The responses that the worker sees; when the backend reads out of bounds there are none.\<close>

definition torch_answers ::
  "('f, 'm, 'x) torch \<Rightarrow> 'm torch_models \<Rightarrow> (nat \<Rightarrow> u64) \<Rightarrow> 'f InferenceRequest list \<Rightarrow> InferenceResponse list" where
  "torch_answers T ms lat rs = (case torch_infer_batch T ms lat rs of Some out \<Rightarrow> map fst out | None \<Rightarrow> [])"

text \<open>A backend handle gives access to some table of models and some clock.\<close>

definition torch_backed ::
  "('f, 'm, 'x) torch \<Rightarrow> ('b \<Rightarrow> 'f InferenceRequest list \<Rightarrow> InferenceResponse list) \<Rightarrow> bool" where
  "torch_backed T ib \<longleftrightarrow> (\<forall>b rs. \<exists>ms lat. ib b rs = torch_answers T ms lat rs)"

lemma response_ok_timing: "response_ok q (with_timing r x y z, out) = response_ok q (r, out)"
  by (simp add: response_ok_def with_timing_def)

lemma answer_in_bounds:
  assumes "torch_backed T ib" "answer_ok ib q v"
  shows "\<exists>out. response_ok q (v, out)"
proof (cases "\<exists>msg. v = error_response msg")
  case True
  then show ?thesis using error_response_ok(2) by blast
next
  case False
  then obtain b rs i x y z where i: "i < length rs" "rs ! i = q" "i < length (ib b rs)" "v = with_timing (ib b rs ! i) x y z"
    using assms(2) by (auto simp: answer_ok_def)
  obtain ms lat where ib: "ib b rs = torch_answers T ms lat rs" using assms(1) unfolding torch_backed_def by blast
  then obtain out where out: "torch_infer_batch T ms lat rs = Some out" using i(3)
    by (cases "torch_infer_batch T ms lat rs") (simp_all add: torch_answers_def)
  then have "length out = length rs" "response_ok q (out ! i)" using torch.batch_nth [OF out] i(1,2) by auto
  then have "response_ok q (v, snd (out ! i))" using i ib out by (simp add: response_ok_timing torch_answers_def)
  then show ?thesis by blast
qed

section \<open>The session\<close>

text \<open>
  A session whose \<^verbatim>\<open>co_await infer_future(...)\<close> goes through the composed server: what it gets for a request is what some coroutine with
  that very request resumes with. The elements in its output buffer are arbitrary.
\<close>

definition answered_by ::
  "('b \<Rightarrow> u32 InferenceRequest list \<Rightarrow> InferenceResponse list) \<Rightarrow> (u32 InferenceRequest \<Rightarrow> (InferenceResponse \<times> u32 list) option) \<Rightarrow> bool" where
  "answered_by ib serve \<longleftrightarrow> (\<forall>r. \<exists>s c v out. reach serving_init (serving_step ib) s \<and> requests (srv_exec s) ! c = r \<and>
     awaiters (srv_pool s) c = A_Resumed v \<and> serve r = Some (v, out))"

lemma session_defined:
  assumes serve: "\<And>r. \<exists>resp out. serve r = Some (resp, out) \<and> (ok resp \<longrightarrow> unat (output_elems_written resp) \<le> req_output_len r)"
  shows "ended (session alloc alloc_out serve shape dev k es ks) \<noteq> Undefined"
proof (induction k arbitrary: es ks)
  case (Suc k)
  obtain rr es' where rr: "read_request alloc es = (rr, es')" by fastforce
  show ?case
  proof (cases rr)
    case (Received mid xs)
    let ?r = "\<lparr> req_model_id = mid, req_shape = shape, req_input = xs, req_output_len = length xs, req_device = dev \<rparr>"
    obtain resp out where ro: "serve ?r = Some (resp, out)" "ok resp \<longrightarrow> unat (output_elems_written resp) \<le> length xs" using serve [of ?r] by auto
    have "\<not> (ok resp \<and> length (store out (replicate (length xs) 0)) < unat (output_elems_written resp))"
      using ro(2) by (auto simp: store_def)
    moreover obtain bs ks' where "write_all (response_writes resp (store out (replicate (length xs) 0))) ks = (bs, ks')" by fastforce
    ultimately show ?thesis using rr Received ro(1) Suc.IH [of es' ks'] by (auto simp: Let_def)
  qed (simp_all add: rr)
qed simp

section \<open>Properties\<close>


text \<open>A session asks a model that is not ready and gets the answer at once.\<close>

definition not_ready :: "'f InferenceRequest \<Rightarrow> InferenceResponse" where
  "not_ready q = error_response (''model not ready: '' @ req_model_id q)"

lemma resumed_reachable:
  "\<exists>s :: ('f, unit) serving. reach serving_init (serving_step ib) s \<and> requests (srv_exec s) ! 0 = q \<and> awaiters (srv_pool s) 0 = A_Resumed (not_ready q)"
proof -
  let ?R = "reach serving_init (serving_step ib)" and ?v = "not_ready q"
  define s0 :: "('f, unit) serving" where "s0 = \<lparr> srv_exec = executor_new None 1, srv_pool = pool0, life = Running, dangling = 0 \<rparr>"
  have 0: "?R s0"
    by (rule reach_init) (simp add: serving_init_def s0_def exec_init_def pool_init_def pool0_def, blast)
  obtain e :: "('f, unit) executor" where e: "infer_begin 0 q 0 0 (executor_new None 1) = Some e" "requests e = [q]" "promises e = [0 \<mapsto> ?v]" "clients e 0 = C_Idle"
    by (simp add: infer_begin_def Let_def backend_ready_def executor_new_def set_value_def not_ready_def)
  define s1 where "s1 = with_exec e s0"
  have "main_step s0 s1" unfolding s1_def by (rule session_call [of _ q 0 0]) (use e(1) in \<open>simp_all add: s0_def at_rest_def executor_new_def\<close>)
  then have 1: "?R s1" by (intro reach_step [OF 0 on_main]) (simp_all add: s0_def pool0_def)
  have f1: "life s1 = Running" "srv_exec s1 = e" "awaiters (srv_pool s1) 0 = A_Idle" "\<not> terminated (srv_pool s1)" "futures (srv_pool s1) 0 = Value ?v"
    using e(3) by (simp_all add: s1_def with_exec_def s0_def pool0_def future_of_def)
  define s2 where "s2 = s1\<lparr> srv_pool := goto_a 0 A_Ready (srv_pool s1) \<rparr>"
  have "main_step s1 s2" unfolding s2_def by (rule session_await [OF _ _ _ _ await_step.await_ready]) (use f1 e in simp_all)
  then have 2: "?R s2" by (intro reach_step [OF 1 on_main]) (use f1 in simp_all)
  define s3 where "s3 = s2\<lparr> srv_pool := goto_a 0 (A_Resumed ?v) (srv_pool s2) \<rparr>"
  have "main_step s2 s3" unfolding s3_def by (rule session_await [OF _ _ _ _ resume_ready]) (use f1 e in \<open>simp_all add: s2_def\<close>)
  then have "?R s3" by (intro reach_step [OF 2 on_main]) (use f1 in \<open>simp_all add: s2_def\<close>)
  moreover have "requests (srv_exec s3) ! 0 = q" "awaiters (srv_pool s3) 0 = A_Resumed ?v" using f1 e by (simp_all add: s3_def s2_def)
  ultimately show ?thesis by blast
qed

definition small_ib :: "unit \<Rightarrow> u32 InferenceRequest list \<Rightarrow> InferenceResponse list" where
  "small_ib b = torch_answers small_torch small_models (\<lambda>i. 9)"

definition small_serve :: "u32 InferenceRequest \<Rightarrow> (InferenceResponse \<times> u32 list) option" where
  "small_serve q = Some (not_ready q, [])"


end
