(* ===== verification/Dispatch.thy ===== *)
theory Dispatch
  imports Reactor Sockets Continuation
begin

text \<open>
  The event loop, the sockets and the continuation pool together: how coroutines of the server are suspended and resumed. A coroutine waits for
  a socket (\<open>Sockets\<close>), for a future (\<open>Continuation\<close>), or in the run queue of the reactor (\<open>Reactor\<close>), and it is the main thread that resumes it. A pool
  thread whose future is resolved calls \<^verbatim>\<open>schedule\<close> of the reactor, possibly before the coroutine that awaits it has finished suspending. No code of the server arms timers.
\<close>

section \<open>The product of the three components\<close>

text \<open>
  Where a coroutine is: \<open>Fresh\<close> not yet created, \<open>Queued\<close> handed to the reactor by its creator or by \<^verbatim>\<open>Yield\<close>, \<open>Active\<close> running, \<open>Awaiting c\<close> running inside \<^verbatim>\<open>co_await\<close> of
  future \<open>c\<close>, \<open>On_Future c\<close> and \<open>On_Socket\<close> suspended, \<open>Over\<close> at its final suspension. The future \<open>c\<close> is awaited by the coroutine \<open>co_of c\<close>.
\<close>

datatype whereabouts = Fresh | Queued | Active | Awaiting nat | On_Future nat | On_Socket | Over

record ('c, 'k, 'v) dispatch =
  d_loop :: "'c reactor"
  d_net :: "'k net_sys"
  d_pool :: "'v pool"
  d_co :: "nat \<Rightarrow> whereabouts"

definition move :: "nat \<Rightarrow> whereabouts \<Rightarrow> ('c, 'k, 'v) dispatch \<Rightarrow> ('c, 'k, 'v) dispatch" where
  "move h a s = s\<lparr> d_co := (d_co s)(h := a) \<rparr>"

definition goto_r :: "rpc \<Rightarrow> ('c, 'k, 'v) dispatch \<Rightarrow> ('c, 'k, 'v) dispatch" where
  "goto_r pc s = s\<lparr> d_loop := (d_loop s)\<lparr> rpc := pc \<rparr> \<rparr>"

text \<open>The main loop where it neither polls nor resumes nor runs a coroutine.\<close>

fun plumbing :: "rpc \<Rightarrow> bool" where
  "plumbing Poll = False"
| "plumbing (Events (h # evs)) = False"
| "plumbing (In_Coroutine h r) = False"
| "plumbing _ = True"

text \<open>The main thread outside coroutines: its loop, \<^verbatim>\<open>EpollBackend::poll\<close>, and the resumption of the next handle.\<close>

inductive loop_step :: "('k \<Rightarrow> int \<rightharpoonup> epoll_event) \<Rightarrow> ('k \<Rightarrow> int list \<Rightarrow> 'k \<Rightarrow> bool) \<Rightarrow>
    ('c, 'k, 'v) dispatch \<Rightarrow> ('c, 'k, 'v) dispatch \<Rightarrow> bool" for interest wait where
  l_loop: "plumbing (rpc (d_loop s)) \<Longrightarrow> reactor_thread (\<lambda>_. []) (\<lambda>_. []) (d_loop s) r \<Longrightarrow> resumed r = resumed (d_loop s) \<Longrightarrow>
    loop_step interest wait s (s\<lparr> d_loop := r \<rparr>)"
| l_poll: "rpc (d_loop s) = Poll \<Longrightarrow> wait (kernel (d_net s)) fds k \<Longrightarrow> length fds \<le> 128 \<Longrightarrow>
    evs = map (\<lambda>fd. ev_ptr (the (interest (kernel (d_net s)) fd))) fds \<Longrightarrow> loop_step interest wait s
    (s\<lparr> d_loop := (d_loop s)\<lparr> poll_timeout := next_timeout (d_loop s), rpc := Events evs \<rparr>, d_net := (d_net s)\<lparr> kernel := k, pending := evs \<rparr> \<rparr>)"
| l_event: "rpc (d_loop s) = Events (h # evs) \<Longrightarrow> resumable h (d_loop s) \<Longrightarrow> loop_step interest wait s (move h Active
    (s\<lparr> d_loop := (d_loop s)\<lparr> resumed := resumed (d_loop s) @ [h], rpc := In_Coroutine h (Some evs) \<rparr>,
        d_net := (d_net s)\<lparr> co := (co (d_net s))(h := Co_Runs), pending := evs \<rparr> \<rparr>))"
| l_event_skip: "rpc (d_loop s) = Events (h # evs) \<Longrightarrow> \<not> resumable h (d_loop s) \<Longrightarrow> loop_step interest wait s
    (goto_r (Events evs) (s\<lparr> d_net := (d_net s)\<lparr> pending := evs \<rparr> \<rparr>))"
| l_resume: "rpc (d_loop s) = Run_Scratch \<Longrightarrow> scratch_queue (d_loop s) = h # hs \<Longrightarrow> resumable h (d_loop s) \<Longrightarrow> (\<nexists>c. d_co s h = On_Future c) \<Longrightarrow>
    loop_step interest wait s (move h Active (s\<lparr> d_loop := (d_loop s)\<lparr> scratch_queue := hs, handled := handled (d_loop s) @ [h],
      resumed := resumed (d_loop s) @ [h], rpc := In_Coroutine h None \<rparr> \<rparr>))"
| l_resume_value: "rpc (d_loop s) = Run_Scratch \<Longrightarrow> scratch_queue (d_loop s) = h # hs \<Longrightarrow> resumable h (d_loop s) \<Longrightarrow> d_co s h = On_Future c \<Longrightarrow>
    results (d_pool s) c = Some v \<Longrightarrow> loop_step interest wait s (move h Active (s\<lparr> d_loop := (d_loop s)\<lparr> scratch_queue := hs, handled := handled (d_loop s) @ [h],
      resumed := resumed (d_loop s) @ [h], rpc := In_Coroutine h None \<rparr>, d_pool := goto_a c (A_Resumed v) (d_pool s) \<rparr>))"

text \<open>
  The running coroutine: the accept loop schedules a new session, \<^verbatim>\<open>Yield\<close>, \<^verbatim>\<open>co_await\<close> of a socket, the steps of \<^verbatim>\<open>co_await\<close> of a future, and the end of
  the body. Frames of sessions are never freed, so that a new frame has a new address.
\<close>

inductive running_step :: "('k \<Rightarrow> int \<rightharpoonup> epoll_event) \<Rightarrow> (ctl_op \<Rightarrow> int \<Rightarrow> epoll_event \<Rightarrow> 'k \<Rightarrow> ctl_result \<times> 'k) \<Rightarrow> (nat \<Rightarrow> int) \<Rightarrow> (nat \<Rightarrow> nat) \<Rightarrow>
    ('c, 'k, 'v) dispatch \<Rightarrow> ('c, 'k, 'v) dispatch \<Rightarrow> bool" for interest ctl fd_of co_of where
  r_spawn: "rpc (d_loop s) = In_Coroutine h r \<Longrightarrow> d_co s h = Active \<Longrightarrow> thread_id (d_loop s) = Some 0 \<Longrightarrow> h' \<noteq> 0 \<Longrightarrow> d_co s h' = Fresh \<Longrightarrow>
    running_step interest ctl fd_of co_of s (move h' Queued (s\<lparr> d_loop := enqueue [h'] (d_loop s) \<rparr>))"
| r_yield: "rpc (d_loop s) = In_Coroutine h r \<Longrightarrow> d_co s h = Active \<Longrightarrow> thread_id (d_loop s) = Some 0 \<Longrightarrow>
    running_step interest ctl fd_of co_of s (move h Queued (goto_r (return_to r) (s\<lparr> d_loop := enqueue [h] (d_loop s) \<rparr>)))"
| r_socket: "rpc (d_loop s) = In_Coroutine h r \<Longrightarrow> d_co s h = Active \<Longrightarrow> awaits h ev \<Longrightarrow>
    running_step interest ctl fd_of co_of s (move h On_Socket (goto_r (return_to r) (s\<lparr> d_net := (d_net s)\<lparr>
      kernel := socket_suspend ctl (fd_of h) ev (kernel (d_net s)), co := (co (d_net s))(h := Co_Waits ev),
      unregistered := (if registers interest ctl (fd_of h) ev (kernel (d_net s)) then unregistered (d_net s) else insert h (unregistered (d_net s))) \<rparr> \<rparr>)))"
| r_await: "rpc (d_loop s) = In_Coroutine h r \<Longrightarrow> d_co s h = Active \<and> awaiters (d_pool s) c = A_Idle \<or> d_co s h = Awaiting c \<Longrightarrow> co_of c = h \<Longrightarrow>
    await_step c (d_pool s) p \<Longrightarrow> awaiters p c \<noteq> A_Waiting \<Longrightarrow>
    running_step interest ctl fd_of co_of s (move h (if \<exists>v. awaiters p c = A_Resumed v then Active else Awaiting c) (s\<lparr> d_pool := p \<rparr>))"
| r_suspended: "rpc (d_loop s) = In_Coroutine h r \<Longrightarrow> d_co s h = Awaiting c \<Longrightarrow> await_step c (d_pool s) p \<Longrightarrow> awaiters p c = A_Waiting \<Longrightarrow>
    running_step interest ctl fd_of co_of s (move h (On_Future c) (goto_r (return_to r) (s\<lparr> d_pool := p \<rparr>)))"
| r_end: "rpc (d_loop s) = In_Coroutine h r \<Longrightarrow> d_co s h = Active \<Longrightarrow>
    running_step interest ctl fd_of co_of s (move h Over (goto_r (return_to r) (s\<lparr> d_loop := (d_loop s)\<lparr> finished := insert h (finished (d_loop s)) \<rparr>,
      d_net := (d_net s)\<lparr> co := (co (d_net s))(h := Co_Done) \<rparr> \<rparr>)))"

text \<open>
  Pool thread \<open>w\<close> is thread \<open>w + 1\<close> of the reactor. When it has stored the value of future \<open>c\<close> it calls \<^verbatim>\<open>schedule\<close>, and does nothing else until that has returned. Promises are resolved or broken
  at any time, and signals arrive at any time.
\<close>

inductive background_step :: "(nat \<Rightarrow> nat) \<Rightarrow> ('c, 'k, 'v) dispatch \<Rightarrow> ('c, 'k, 'v) dispatch \<Rightarrow> bool" for co_of where
  b_worker: "xpcs (d_loop s) (Suc w) = X_Idle \<Longrightarrow> pool_worker w (d_pool s) p \<Longrightarrow> scheduled p = scheduled (d_pool s) \<Longrightarrow> background_step co_of s (s\<lparr> d_pool := p \<rparr>)"
| b_call: "xpcs (d_loop s) (Suc w) = X_Idle \<Longrightarrow> thread_id (d_loop s) \<noteq> Some (Suc w) \<Longrightarrow> pool_worker w (d_pool s) p \<Longrightarrow> scheduled p = scheduled (d_pool s) @ [c] \<Longrightarrow>
    background_step co_of s (s\<lparr> d_pool := p, d_loop := (d_loop s)\<lparr> xpcs := (xpcs (d_loop s))(Suc w := X_Push (co_of c)) \<rparr> \<rparr>)"
| b_schedule: "xpcs (d_loop s) t \<noteq> X_Idle \<Longrightarrow> other_thread t (d_loop s) r \<Longrightarrow> background_step co_of s (s\<lparr> d_loop := r \<rparr>)"
| b_spurious: "pool_threads (d_pool s) w = P_Sleep \<Longrightarrow> background_step co_of s (s\<lparr> d_pool := goto_w w P_Loop (d_pool s) \<rparr>)"
| b_promise: "futures (d_pool s) c = Unset \<Longrightarrow> f \<noteq> Unset \<Longrightarrow> background_step co_of s (s\<lparr> d_pool := (d_pool s)\<lparr> futures := (futures (d_pool s))(c := f) \<rparr> \<rparr>)"
| b_signal: "background_step co_of s (s\<lparr> d_loop := signal_handler t (d_loop s) \<rparr>)"

definition dispatch_step :: "('k \<Rightarrow> int \<rightharpoonup> epoll_event) \<Rightarrow> (ctl_op \<Rightarrow> int \<Rightarrow> epoll_event \<Rightarrow> 'k \<Rightarrow> ctl_result \<times> 'k) \<Rightarrow>
    ('k \<Rightarrow> int list \<Rightarrow> 'k \<Rightarrow> bool) \<Rightarrow> (nat \<Rightarrow> int) \<Rightarrow> (nat \<Rightarrow> nat) \<Rightarrow> ('c, 'k, 'v) dispatch \<Rightarrow> ('c, 'k, 'v) dispatch \<Rightarrow> bool" where
  "dispatch_step interest ctl wait fd_of co_of s s' \<longleftrightarrow> \<not> terminated (d_pool s) \<and>
     (loop_step interest wait s s' \<or> running_step interest ctl fd_of co_of s s' \<or> background_step co_of s s')"

text \<open>\<^verbatim>\<open>main\<close> has scheduled the accept loop \<open>h0\<close> and enters its loop.\<close>

definition dispatch_init :: "('k \<Rightarrow> int \<rightharpoonup> epoll_event) \<Rightarrow> ('k \<Rightarrow> int set) \<Rightarrow> nat \<Rightarrow> ('c, 'k, 'v) dispatch \<Rightarrow> bool" where
  "dispatch_init interest armed h0 s \<longleftrightarrow> h0 \<noteq> 0 \<and> reactor_init h0 (d_loop s) \<and> net_init interest armed (d_net s) \<and> pool_init (d_pool s) \<and>
     d_co s = (\<lambda>h. Fresh)(h0 := Queued)"

lemma move_frame [simp]:
  "d_loop (move h a s) = d_loop s" "d_net (move h a s) = d_net s" "d_pool (move h a s) = d_pool s" "d_co (move h a s) = (d_co s)(h := a)"
  by (simp_all add: move_def)

lemma goto_r_frame [simp]:
  "d_loop (goto_r pc s) = (d_loop s)\<lparr> rpc := pc \<rparr>" "d_net (goto_r pc s) = d_net s" "d_pool (goto_r pc s) = d_pool s" "d_co (goto_r pc s) = d_co s"
  by (simp_all add: goto_r_def)

section \<open>The handles on their way to the main thread\<close>

fun push_of :: "xpc \<Rightarrow> nat multiset" where
  "push_of (X_Push h) = {#h#}"
| "push_of _ = {#}"

definition pushing :: "'c reactor \<Rightarrow> nat multiset" where
  "pushing r = (\<Sum>w < NUM_THREADS. push_of (xpcs r (Suc w)))"

definition on_way :: "'c reactor \<Rightarrow> nat multiset" where
  "on_way r = mset (scratch_queue r) + mset (run_queue r) + mset (popping (rpc r)) + mset (map fst (external_queue r)) + pushing r"

lemma pushing_upd:
  assumes "w < NUM_THREADS" "xpcs r' = (xpcs r)(Suc w := x)"
  shows "pushing r' + push_of (xpcs r (Suc w)) = pushing r + push_of x"
proof -
  let ?f = "\<lambda>v. push_of (xpcs r (Suc v))"
  have "pushing r' = push_of x + sum ?f ({..<NUM_THREADS} - {w})"
    unfolding pushing_def assms(2) using assms(1) by (subst sum.remove [of _ w]) auto
  moreover have "pushing r = ?f w + sum ?f ({..<NUM_THREADS} - {w})"
    unfolding pushing_def using assms(1) by (subst sum.remove [of _ w]) auto
  ultimately show ?thesis by (simp add: add_ac)
qed

lemma pushing_cong: "xpcs r' = xpcs r \<Longrightarrow> pushing r' = pushing r"
  by (simp add: pushing_def)

text \<open>The main loop moves handles from queue to queue and drops only those that it must not resume.\<close>

lemma on_way_loop:
  assumes "reactor_inv r" "plumbing (rpc r)" "reactor_thread (\<lambda>_. []) (\<lambda>_. []) r r'" "resumed r' = resumed r"
  shows "on_way r' = on_way r \<or> (\<exists>h \<in># on_way r. \<not> resumable h r)"
proof -
  have scratch: "scratch_queue r = []" if "\<not> on_scratch (rpc r)" using assms(1) that by (simp add: reactor_inv_def order_ok_def)
  show ?thesis
    using assms(3)
  proof cases
    case (scratch_skip h hs)
    then show ?thesis by (auto simp: on_way_def)
  next
    case (in_drain)
    then show ?thesis
      by cases (auto simp: on_way_def enqueue_def pushing_def)
  next
    case in_poll
    then show ?thesis using assms(2) by cases (auto simp: on_way_def pushing_def)
  next
    case in_coroutine
    then show ?thesis using assms(2) by cases auto
  qed (use scratch assms(4) in \<open>auto simp: on_way_def pushing_def enqueue_def concat_map_singleton\<close>)
qed

lemma on_way_other:
  assumes "other_thread t r r'" "xpcs r t \<noteq> X_Idle" "t = Suc w" "w < NUM_THREADS"
  shows "on_way r' = on_way r"
  using assms(1)
proof cases
  case (schedule_claim h q)
  have "pushing r' + push_of (xpcs r (Suc w)) = pushing r + push_of (X_Claimed (length (pushed r)))"
    by (rule pushing_upd) (use schedule_claim assms(3,4) in auto)
  then have "pushing r = pushing r' + {#h#}" using schedule_claim assms(3) by simp
  then show ?thesis using schedule_claim by (auto simp: on_way_def)
next
  case (schedule_publish k)
  have "pushing r' + push_of (xpcs r (Suc w)) = pushing r + push_of X_Count" by (rule pushing_upd) (use schedule_publish assms(3,4) in auto)
  then have "pushing r' = pushing r" using schedule_publish assms(3) by simp
  then show ?thesis using schedule_publish by (simp add: on_way_def)
next
  case schedule_count
  have "pushing r' + push_of (xpcs r (Suc w)) = pushing r + push_of X_Idle" by (rule pushing_upd) (use schedule_count assms(3,4) in auto)
  then have "pushing r' = pushing r" using schedule_count assms(3) by simp
  then show ?thesis using schedule_count by (simp add: on_way_def)
qed (use assms(2) in auto)

section \<open>The link between the components\<close>

text \<open>
  A coroutine has as many handles on the way as there are reasons to resume it from the run queue: one if it was scheduled by its
  creator or itself, and one if it is inside \<^verbatim>\<open>co_await\<close> of a future for which a pool thread has called \<^verbatim>\<open>schedule\<close>.
\<close>

fun wakes_of :: "nat set \<Rightarrow> whereabouts \<Rightarrow> nat" where
  "wakes_of S Queued = 1"
| "wakes_of S (Awaiting c) = of_bool (c \<in> S)"
| "wakes_of S (On_Future c) = of_bool (c \<in> S)"
| "wakes_of S _ = 0"

fun events_left :: "rpc \<Rightarrow> nat list" where
  "events_left (Events evs) = evs"
| "events_left (In_Coroutine h (Some evs)) = evs"
| "events_left _ = []"

text \<open>What the other components know of a coroutine.\<close>

fun net_view :: "whereabouts \<Rightarrow> co_state \<Rightarrow> bool" where
  "net_view On_Socket x \<longleftrightarrow> (\<exists>ev. x = Co_Waits ev)"
| "net_view Over x \<longleftrightarrow> x = Co_Done"
| "net_view _ x \<longleftrightarrow> x = Co_Runs"

fun pool_view :: "nat \<Rightarrow> 'v awaiter \<Rightarrow> whereabouts \<Rightarrow> bool" where
  "pool_view c A_Idle a \<longleftrightarrow> a \<noteq> Awaiting c \<and> a \<noteq> On_Future c"
| "pool_view c A_Waiting a \<longleftrightarrow> a = On_Future c"
| "pool_view c (A_Resumed v) a \<longleftrightarrow> a \<noteq> Awaiting c \<and> a \<noteq> On_Future c"
| "pool_view c _ a \<longleftrightarrow> a = Awaiting c"

fun runs :: "whereabouts \<Rightarrow> bool" where
  "runs Active = True"
| "runs (Awaiting c) = True"
| "runs _ = False"

definition handles_ok :: "('c, 'k, 'v) dispatch \<Rightarrow> bool" where
  "handles_ok s \<longleftrightarrow> (\<forall>h. count (on_way (d_loop s)) h = wakes_of (set (scheduled (d_pool s))) (d_co s h))"

definition places_agree :: "(nat \<Rightarrow> nat) \<Rightarrow> ('c, 'k, 'v) dispatch \<Rightarrow> bool" where
  "places_agree co_of s \<longleftrightarrow> d_co s 0 = Fresh \<and>
     (\<forall>h. runs (d_co s h) \<longleftrightarrow> (\<exists>r. rpc (d_loop s) = In_Coroutine h r)) \<and>
     (\<forall>h. h \<in> finished (d_loop s) \<longleftrightarrow> d_co s h = Over) \<and>
     (\<forall>h. net_view (d_co s h) (co (d_net s) h)) \<and>
     (\<forall>c. pool_view c (awaiters (d_pool s) c) (d_co s (co_of c))) \<and>
     (\<forall>h c. d_co s h = Awaiting c \<or> d_co s h = On_Future c \<longrightarrow> co_of c = h)"

definition threads_ok :: "('c, 'k, 'v) dispatch \<Rightarrow> bool" where
  "threads_ok s \<longleftrightarrow> pending (d_net s) = events_left (rpc (d_loop s)) \<and>
     (\<forall>t. xpcs (d_loop s) t \<noteq> X_Idle \<longrightarrow> (\<exists>w < NUM_THREADS. t = Suc w)) \<and>
     (\<forall>c v. awaiters (d_pool s) c = A_Resumed v \<and> c \<in> set (posted (d_pool s)) \<longrightarrow> c \<in> set (scheduled (d_pool s)))"

definition coherent :: "(nat \<Rightarrow> nat) \<Rightarrow> ('c, 'k, 'v) dispatch \<Rightarrow> bool" where
  "coherent co_of s \<longleftrightarrow> handles_ok s \<and> places_agree co_of s \<and> threads_ok s"

lemma places_agreeD:
  assumes "places_agree co_of s"
  shows "d_co s 0 = Fresh" "runs (d_co s h) \<longleftrightarrow> (\<exists>r. rpc (d_loop s) = In_Coroutine h r)" "h \<in> finished (d_loop s) \<longleftrightarrow> d_co s h = Over"
    "net_view (d_co s h) (co (d_net s) h)" "pool_view c (awaiters (d_pool s) c) (d_co s (co_of c))"
    "d_co s h = Awaiting c \<or> d_co s h = On_Future c \<Longrightarrow> co_of c = h"
  using assms unfolding places_agree_def by blast+

text \<open>A handle on its way belongs to a coroutine that may be resumed when it arrives.\<close>

lemma on_way_wakes:
  assumes "handles_ok s" "h \<in># on_way (d_loop s)"
  shows "d_co s h = Queued \<or> (\<exists>c \<in> set (scheduled (d_pool s)). d_co s h = Awaiting c \<or> d_co s h = On_Future c)"
proof -
  have "0 < wakes_of (set (scheduled (d_pool s))) (d_co s h)" using assms by (metis handles_ok_def count_greater_zero_iff)
  then show ?thesis by (cases "d_co s h") (auto split: if_splits)
qed

lemma on_way_resumable:
  assumes "handles_ok s" "places_agree co_of s" "h \<in># on_way (d_loop s)"
  shows "resumable h (d_loop s)"
proof -
  have "h \<noteq> 0" using on_way_wakes [OF assms(1,3)] places_agreeD(1) [OF assms(2)] by (cases h) auto
  then show ?thesis using on_way_wakes [OF assms(1,3)] places_agreeD(3) [OF assms(2), of h] by (auto simp: resumable_def)
qed

text \<open>While no coroutine runs, a handle that arrives belongs to a suspended one.\<close>

lemma arrived_suspended:
  assumes "handles_ok s" "places_agree co_of s" "h \<in># on_way (d_loop s)" "\<nexists>g r. rpc (d_loop s) = In_Coroutine g r"
  shows "d_co s h = Queued \<or> (\<exists>c \<in> set (scheduled (d_pool s)). d_co s h = On_Future c \<and> awaiters (d_pool s) c = A_Waiting)"
proof -
  have "\<not> runs (d_co s h)" using places_agreeD(2) [OF assms(2), of h] assms(4) by blast
  then consider "d_co s h = Queued" | c where "c \<in> set (scheduled (d_pool s))" "d_co s h = On_Future c"
    using on_way_wakes [OF assms(1,3)] by auto
  then show ?thesis
  proof cases
    case (2 c)
    then have "co_of c = h" using places_agreeD(6) [OF assms(2)] by blast
    then have "awaiters (d_pool s) c = A_Waiting" using places_agreeD(5) [OF assms(2), of c] 2(2) by (cases "awaiters (d_pool s) c") auto
    then show ?thesis using 2 by blast
  qed simp
qed

section \<open>Every step keeps the link\<close>

lemma loop_frame:
  assumes "plumbing (rpc r)" "reactor_thread (\<lambda>_. []) (\<lambda>_. []) r r'" "resumed r' = resumed r"
  shows "\<not> (\<exists>h l. rpc r = In_Coroutine h l)" "\<not> (\<exists>h l. rpc r' = In_Coroutine h l)" "finished r' = finished r" "xpcs r' = xpcs r"
    "events_left (rpc r) = []" "events_left (rpc r') = []"
proof -
  have "\<not> (\<exists>h l. rpc r' = In_Coroutine h l) \<and> finished r' = finished r \<and> xpcs r' = xpcs r \<and> events_left (rpc r') = []"
    using assms(2)
  proof cases
    case in_drain
    then show ?thesis by cases (auto simp: enqueue_def)
  next
    case in_poll
    then show ?thesis using assms(1) by cases auto
  next
    case in_coroutine
    then show ?thesis using assms(1) by cases auto
  qed (use assms(3) in \<open>auto simp: enqueue_def\<close>)
  then show "\<not> (\<exists>h l. rpc r' = In_Coroutine h l)" "finished r' = finished r" "xpcs r' = xpcs r" "events_left (rpc r') = []" by blast+
  show "\<not> (\<exists>h l. rpc r = In_Coroutine h l)" using assms(1) by auto
  show "events_left (rpc r) = []" using assms(1) by (cases "rpc r" rule: plumbing.cases) auto
qed

text \<open>A change of one coroutine's whereabouts.\<close>

lemma handles_ok_move:
  assumes "handles_ok s" "\<And>g. g \<noteq> h \<Longrightarrow> count (on_way (d_loop s')) g = count (on_way (d_loop s)) g"
    "count (on_way (d_loop s')) h = wakes_of (set (scheduled (d_pool s))) a" "d_co s' = (d_co s)(h := a)" "scheduled (d_pool s') = scheduled (d_pool s)"
  shows "handles_ok s'"
  using assms by (simp add: handles_ok_def)

lemma places_agree_move:
  assumes "places_agree co_of s" "d_co s' = (d_co s)(h := a)" "h \<noteq> 0"
    and "\<And>g. g \<noteq> h \<Longrightarrow> (\<exists>l. rpc (d_loop s') = In_Coroutine g l) \<longleftrightarrow> (\<exists>l. rpc (d_loop s) = In_Coroutine g l)"
    and "runs a \<longleftrightarrow> (\<exists>l. rpc (d_loop s') = In_Coroutine h l)"
    and "\<And>g. g \<noteq> h \<Longrightarrow> g \<in> finished (d_loop s') \<longleftrightarrow> g \<in> finished (d_loop s)" and "h \<in> finished (d_loop s') \<longleftrightarrow> a = Over"
    and "\<And>g. g \<noteq> h \<Longrightarrow> co (d_net s') g = co (d_net s) g" and "net_view a (co (d_net s') h)"
    and "\<And>c. co_of c \<noteq> h \<Longrightarrow> awaiters (d_pool s') c = awaiters (d_pool s) c" and "\<And>c. co_of c = h \<Longrightarrow> pool_view c (awaiters (d_pool s') c) a"
    and "\<And>c. a = Awaiting c \<or> a = On_Future c \<Longrightarrow> co_of c = h"
  shows "places_agree co_of s'"
proof -
  note D = places_agreeD [OF assms(1)]
  have "d_co s' 0 = Fresh" using D(1) assms(2,3) by simp
  moreover have "runs (d_co s' g) \<longleftrightarrow> (\<exists>l. rpc (d_loop s') = In_Coroutine g l)" for g using D(2) [of g] assms(2,4,5) by (cases "g = h") auto
  moreover have "g \<in> finished (d_loop s') \<longleftrightarrow> d_co s' g = Over" for g using D(3) [of g] assms(2,6,7) by (cases "g = h") auto
  moreover have "net_view (d_co s' g) (co (d_net s') g)" for g using D(4) [of g] assms(2,8,9) by (cases "g = h") auto
  moreover have "pool_view c (awaiters (d_pool s') c) (d_co s' (co_of c))" for c using D(5) [of c] assms(2,10,11) by (cases "co_of c = h") auto
  moreover have "co_of c = g" if "d_co s' g = Awaiting c \<or> d_co s' g = On_Future c" for g c
    using D(6) [of g c] that assms(2,12) by (cases "g = h") auto
  ultimately show ?thesis unfolding places_agree_def by blast
qed

lemma event_on_socket:
  assumes "places_agree co_of s" "threads_ok s" "net_inv interest armed fd_of (d_net s)" "rpc (d_loop s) = Events (h # evs)"
  shows "d_co s h = On_Socket" "h \<noteq> 0" "h \<notin> set evs"
proof -
  have p: "pending (d_net s) = h # evs" using assms(2,4) by (simp add: threads_ok_def)
  have "\<exists>ev. co (d_net s) h = Co_Waits ev" and "h \<noteq> 0" using pending_waits [OF assms(3), of h] p by auto
  then show "d_co s h = On_Socket" "h \<noteq> 0" using places_agreeD(4) [OF assms(1), of h] by (cases "d_co s h"; auto)+
  show "h \<notin> set evs" using net_invD(1) [OF assms(3)] p by simp
qed

lemma places_agree_frame:
  assumes "places_agree co_of s" "d_co s' = d_co s" "\<And>g. (\<exists>l. rpc (d_loop s') = In_Coroutine g l) \<longleftrightarrow> (\<exists>l. rpc (d_loop s) = In_Coroutine g l)"
    "finished (d_loop s') = finished (d_loop s)" "co (d_net s') = co (d_net s)" "awaiters (d_pool s') = awaiters (d_pool s)"
  shows "places_agree co_of s'"
  using assms(1) unfolding places_agree_def assms(2-6) .

lemma coherent_resumed:
  assumes ok: "coherent co_of s" and at: "rpc (d_loop s) = Run_Scratch" "scratch_queue (d_loop s) = h # hs"
    and r: "r = (d_loop s)\<lparr> scratch_queue := hs, handled := handled (d_loop s) @ [h], resumed := resumed (d_loop s) @ [h], rpc := In_Coroutine h None \<rparr>"
    and p: "d_co s h = Queued \<and> p = d_pool s \<or> (\<exists>c v. d_co s h = On_Future c \<and> p = goto_a c (A_Resumed v) (d_pool s))"
  shows "coherent co_of (move h Active (s\<lparr> d_loop := r, d_pool := p \<rparr>))" (is "coherent _ ?s")
proof -
  have H: "handles_ok s" and P: "places_agree co_of s" and T: "threads_ok s" using ok by (simp_all add: coherent_def)
  have in_way: "h \<in># on_way (d_loop s)" using at by (simp add: on_way_def)
  have way: "on_way (d_loop s) = add_mset h (on_way r)" using at r by (simp add: on_way_def pushing_def)
  have one: "count (on_way (d_loop s)) h = 1"
  proof -
    have "0 < count (on_way (d_loop s)) h" using in_way by simp
    moreover have "count (on_way (d_loop s)) h = wakes_of (set (scheduled (d_pool s))) (d_co s h)" using H by (simp add: handles_ok_def)
    ultimately show ?thesis using p by auto
  qed
  have "handles_ok ?s"
    by (rule handles_ok_move [OF H, of h]) (use way one p in auto)
  moreover have "places_agree co_of ?s"
  proof (rule places_agree_move [OF P])
    show "h \<noteq> 0" using on_way_resumable [OF H P in_way] by (simp add: resumable_def)
    show "h \<in> finished (d_loop ?s) \<longleftrightarrow> Active = Over" using places_agreeD(3) [OF P, of h] p r by auto
    show "net_view Active (co (d_net ?s) h)" using places_agreeD(4) [OF P, of h] p by auto
    show "pool_view c (awaiters (d_pool ?s) c) Active" if "co_of c = h" for c
      using places_agreeD(5) [OF P, of c] that p by (cases "awaiters (d_pool s) c") auto
    show "awaiters (d_pool ?s) c = awaiters (d_pool s) c" if "co_of c \<noteq> h" for c
      using places_agreeD(6) [OF P] that p by auto
  qed (use at r in auto)
  moreover have "threads_ok ?s"
  proof -
    have "c \<in> set (scheduled (d_pool s))" if "d_co s h = On_Future c" for c
      using arrived_suspended [OF H P in_way] that at(1) by auto
    then show ?thesis using T at(1) r p by (auto simp: threads_ok_def split: if_splits)
  qed
  ultimately show ?thesis by (simp add: coherent_def)
qed

lemma coherent_loop:
  assumes ok: "coherent co_of s" and inv: "reactor_inv (d_loop s)" "net_inv interest armed fd_of (d_net s)"
    and "loop_step interest wait s s'"
  shows "coherent co_of s'"
proof -
  have H: "handles_ok s" and P: "places_agree co_of s" and T: "threads_ok s" using ok by (simp_all add: coherent_def)
  show ?thesis
    using assms(4)
  proof cases
    case (l_loop r)
    note F = loop_frame [OF l_loop(2-4)]
    have "on_way r = on_way (d_loop s)" using on_way_loop [OF inv(1) l_loop(2-4)] on_way_resumable [OF H P] by blast
    then show ?thesis using H T F places_agree_frame [OF P, of s'] l_loop(1) by (simp add: coherent_def handles_ok_def threads_ok_def)
  next
    case (l_poll fds k evs)
    then show ?thesis using H T places_agree_frame [OF P, of s'] by (simp add: coherent_def handles_ok_def threads_ok_def on_way_def pushing_def)
  next
    case (l_event h evs)
    note E = event_on_socket [OF P T inv(2) l_event(2)]
    have "handles_ok s'"
      by (rule handles_ok_move [OF H, of h])
        (use l_event H E(1) in \<open>simp_all add: handles_ok_def on_way_def pushing_def\<close>)
    moreover have "places_agree co_of s'"
    proof (rule places_agree_move [OF P])
      show "pool_view c (awaiters (d_pool s') c) Active" if "co_of c = h" for c
        using places_agreeD(5) [OF P, of c] that l_event(1) E(1) by (cases "awaiters (d_pool s) c") auto
      show "h \<in> finished (d_loop s') \<longleftrightarrow> Active = Over" using places_agreeD(3) [OF P, of h] l_event(1) E(1) by auto
    qed (use l_event E in auto)
    ultimately show ?thesis using T l_event(1) by (simp add: coherent_def threads_ok_def)
  next
    case (l_event_skip h evs)
    then show ?thesis using event_on_socket [OF P T inv(2) l_event_skip(2)] places_agreeD(3) [OF P, of h] by (simp add: resumable_def)
  next
    case (l_resume h hs)
    have "d_co s h = Queued" using arrived_suspended [OF H P, of h] l_resume by (auto simp: on_way_def)
    then show ?thesis using coherent_resumed [OF ok l_resume(2,3) refl, of "d_pool s"] l_resume(1) by simp
  next
    case (l_resume_value h hs c v)
    then show ?thesis using coherent_resumed [OF ok l_resume_value(2,3) refl, of "goto_a c (A_Resumed v) (d_pool s)"] by auto
  qed
qed

text \<open>The running coroutine gives up the main thread.\<close>

lemma coherent_leaves:
  assumes ok: "coherent co_of s" and at: "rpc (d_loop s) = In_Coroutine h l" and a: "\<not> runs a"
    and way: "on_way (d_loop s') = on_way (d_loop s) + (if a = Queued then {#h#} else {#})"
    and loop: "rpc (d_loop s') = return_to l" "xpcs (d_loop s') = xpcs (d_loop s)"
      "finished (d_loop s') = finished (d_loop s) \<union> (if a = Over then {h} else {})"
    and net: "pending (d_net s') = pending (d_net s)" "\<And>g. g \<noteq> h \<Longrightarrow> co (d_net s') g = co (d_net s) g" "net_view a (co (d_net s') h)"
    and pool: "scheduled (d_pool s') = scheduled (d_pool s)" "posted (d_pool s') = posted (d_pool s)"
      "\<And>c. co_of c \<noteq> h \<Longrightarrow> awaiters (d_pool s') c = awaiters (d_pool s) c" "\<And>c. co_of c = h \<Longrightarrow> pool_view c (awaiters (d_pool s') c) a"
      "\<And>c v. awaiters (d_pool s') c = A_Resumed v \<Longrightarrow> awaiters (d_pool s) c = A_Resumed v"
    and co: "d_co s' = (d_co s)(h := a)" "d_co s h = Active \<and> a \<in> {Queued, On_Socket, Over} \<or> (\<exists>c. d_co s h = Awaiting c \<and> a = On_Future c)"
  shows "coherent co_of s'"
proof -
  have H: "handles_ok s" and P: "places_agree co_of s" and T: "threads_ok s" using ok by (simp_all add: coherent_def)
  have ret: "events_left (return_to l) = events_left (In_Coroutine h l)" "\<nexists>g m. return_to l = In_Coroutine g m"
    by (cases l; simp add: return_to_def)+
  have h: "h \<noteq> 0" using places_agreeD(1) [OF P] co(2) by (cases h) auto
  have count: "count (on_way (d_loop s)) h = wakes_of (set (scheduled (d_pool s))) (d_co s h)" using H by (simp add: handles_ok_def)
  have "handles_ok s'"
  proof (rule handles_ok_move [OF H, of h])
    show "count (on_way (d_loop s')) h = wakes_of (set (scheduled (d_pool s))) a" using co(2) count way by auto
  qed (use way co(1) pool(1) in auto)
  moreover have "places_agree co_of s'"
  proof (rule places_agree_move [OF P co(1) h])
    show "h \<in> finished (d_loop s') \<longleftrightarrow> a = Over" using places_agreeD(3) [OF P, of h] loop(3) co(2) by auto
    show "co_of c = h" if "a = Awaiting c \<or> a = On_Future c" for c using that co(2) a places_agreeD(6) [OF P, of h c] by auto
    show "(\<exists>m. rpc (d_loop s') = In_Coroutine g m) \<longleftrightarrow> (\<exists>m. rpc (d_loop s) = In_Coroutine g m)" if "g \<noteq> h" for g
      using that at ret(2) unfolding loop(1) by simp
    show "runs a \<longleftrightarrow> (\<exists>m. rpc (d_loop s') = In_Coroutine h m)" using a ret(2) unfolding loop(1) by simp
    show "g \<in> finished (d_loop s') \<longleftrightarrow> g \<in> finished (d_loop s)" if "g \<noteq> h" for g using that loop(3) by simp
  qed (fact net(2), fact net(3), fact pool(3), fact pool(4))
  moreover have "threads_ok s'" using T loop at ret net(1) pool by (auto simp: threads_ok_def)
  ultimately show ?thesis by (simp add: coherent_def)
qed

lemma await_frame_pool:
  assumes "await_step c p p'"
  shows "scheduled p' = scheduled p" "\<And>d. d \<noteq> c \<Longrightarrow> awaiters p' d = awaiters p d"
    "awaiters p' c = A_Waiting \<Longrightarrow> posted p' = posted p"
  using assms by (cases rule: await_step.cases; auto)+

lemma scheduled_posted:
  assumes "places_ok p" "c \<in> set (scheduled p)"
  shows "c \<in> set (posted p)" "awaiters p c \<notin> {A_Idle, A_Suspend, A_Ready}"
proof -
  have m: "mset (taken p) = in_flight p + mset (scheduled p)" and t: "posted p = taken p @ queue p"
    and idle: "\<And>c. awaiters p c \<in> {A_Idle, A_Suspend, A_Ready} \<Longrightarrow> c \<notin> set (posted p)"
    using assms(1) unfolding places_ok_def by blast+
  have "c \<in># mset (taken p)" unfolding m using assms(2) by simp
  then show "c \<in> set (posted p)" using t by simp
  then show "awaiters p c \<notin> {A_Idle, A_Suspend, A_Ready}" using idle by blast
qed

text \<open>The steps of \<^verbatim>\<open>co_await\<close> up to the suspension, or past it when the future is ready.\<close>

lemma coherent_await:
  assumes ok: "coherent co_of s" and pl: "places_ok (d_pool s)" and at: "rpc (d_loop s) = In_Coroutine h l"
    and co: "d_co s h = Active \<and> awaiters (d_pool s) c = A_Idle \<or> d_co s h = Awaiting c" "co_of c = h"
    and st: "await_step c (d_pool s) p" "awaiters p c \<noteq> A_Waiting"
  shows "coherent co_of (move h (if \<exists>v. awaiters p c = A_Resumed v then Active else Awaiting c) (s\<lparr> d_pool := p \<rparr>))" (is "coherent _ (move h ?a _)")
proof -
  let ?s = "move h ?a (s\<lparr> d_pool := p \<rparr>)"
  have H: "handles_ok s" and P: "places_agree co_of s" and T: "threads_ok s" using ok by (simp_all add: coherent_def)
  note F = await_frame_pool [OF st(1)]
  have h: "h \<noteq> 0" using places_agreeD(1) [OF P] co(1) by (cases h) auto
  have here: "pool_view c (awaiters (d_pool s) c) (d_co s h)" using places_agreeD(5) [OF P, of c] co(2) by simp
  have sched: "awaiters (d_pool s) c \<in> {A_Idle, A_Suspend, A_Ready} \<Longrightarrow> c \<notin> set (scheduled (d_pool s)) \<and> c \<notin> set (posted (d_pool s))"
  proof -
    assume "awaiters (d_pool s) c \<in> {A_Idle, A_Suspend, A_Ready}"
    then show ?thesis using scheduled_posted [OF pl, of c] pl unfolding places_ok_def by blast
  qed
  have early: "awaiters (d_pool s) c \<in> {A_Idle, A_Suspend, A_Ready}"
    using st(1) by (cases rule: await_step.cases) (use st(2) here co(1) in auto)
  have "handles_ok ?s"
    by (rule handles_ok_move [OF H, of h]) (use H co(1) F(1) sched [OF early] in \<open>auto simp: handles_ok_def\<close>)
  moreover have "places_agree co_of ?s"
  proof (rule places_agree_move [OF P])
    show "pool_view d (awaiters (d_pool ?s) d) ?a" if "co_of d = h" for d
    proof (cases "d = c")
      case True
      have "pool_view c (awaiters p c) ?a" using st by (cases rule: await_step.cases) auto
      then show ?thesis using True by simp
    next
      case False
      then show ?thesis using places_agreeD(5) [OF P, of d] that co(1) F(2) by (cases "awaiters (d_pool s) d") auto
    qed
    show "runs ?a \<longleftrightarrow> (\<exists>l. rpc (d_loop ?s) = In_Coroutine h l)" using at by simp
    show "h \<in> finished (d_loop ?s) \<longleftrightarrow> ?a = Over" using places_agreeD(3) [OF P, of h] co(1) by auto
    show "net_view ?a (co (d_net ?s) h)" using places_agreeD(4) [OF P, of h] co(1) by auto
    show "awaiters (d_pool ?s) d = awaiters (d_pool s) d" if "co_of d \<noteq> h" for d using that co(2) F(2) [of d] by auto
  qed (use h co(2) in \<open>auto split: if_splits\<close>)
  moreover have "threads_ok ?s"
  proof -
    have "d \<in> set (scheduled p)" if "awaiters p d = A_Resumed v" "d \<in> set (posted p)" for d v
    proof (cases "d = c")
      case True
      have "posted p = posted (d_pool s)" using st(1) by (cases rule: await_step.cases) (use True that(1) in auto)
      then show ?thesis using True that sched [OF early] by simp
    next
      case False
      have "d \<in> set (posted (d_pool s))" using st(1) that(2) False by (cases rule: await_step.cases) auto
      then show ?thesis using T False that F(1,2) by (auto simp: threads_ok_def)
    qed
    then show ?thesis using T by (auto simp: threads_ok_def)
  qed
  ultimately show ?thesis by (simp add: coherent_def)
qed

lemma coherent_running:
  assumes ok: "coherent co_of s" and pl: "places_ok (d_pool s)" and "running_step interest ctl fd_of co_of s s'"
  shows "coherent co_of s'"
  using assms(3)
proof cases
  case (r_spawn h l h')
  have H: "handles_ok s" and P: "places_agree co_of s" and T: "threads_ok s" using ok by (simp_all add: coherent_def)
  have "handles_ok s'"
    by (rule handles_ok_move [OF H, of h']) (use r_spawn H in \<open>auto simp: handles_ok_def on_way_def pushing_def\<close>)
  moreover have "places_agree co_of s'"
  proof (rule places_agree_move [OF P])
    show "pool_view c (awaiters (d_pool s') c) Queued" if "co_of c = h'" for c
      using places_agreeD(5) [OF P, of c] that r_spawn by (cases "awaiters (d_pool s) c") auto
    show "h' \<in> finished (d_loop s') \<longleftrightarrow> Queued = Over" using places_agreeD(3) [OF P, of h'] r_spawn by (simp add: enqueue_def)
    show "net_view Queued (co (d_net s') h')" using places_agreeD(4) [OF P, of h'] r_spawn by simp
    show "runs Queued \<longleftrightarrow> (\<exists>m. rpc (d_loop s') = In_Coroutine h' m)" using r_spawn by auto
  qed (use r_spawn in \<open>auto simp: enqueue_def\<close>)
  ultimately show ?thesis using T r_spawn(1) by (simp add: coherent_def threads_ok_def)
next
  case (r_yield h l)
  have P: "places_agree co_of s" using ok by (simp add: coherent_def)
  have view: "pool_view c (awaiters (d_pool s) c) Queued" if "co_of c = h" for c
    using places_agreeD(5) [OF P, of c] that r_yield by (cases "awaiters (d_pool s) c") auto
  show ?thesis
    by (rule coherent_leaves [OF ok r_yield(2), of Queued])
      (use r_yield view places_agreeD(4) [OF P, of h] in \<open>simp_all add: on_way_def pushing_def enqueue_def return_to_def split: option.splits\<close>)
next
  case (r_socket h l ev)
  have P: "places_agree co_of s" using ok by (simp add: coherent_def)
  have view: "pool_view c (awaiters (d_pool s) c) On_Socket" if "co_of c = h" for c
    using places_agreeD(5) [OF P, of c] that r_socket by (cases "awaiters (d_pool s) c") auto
  show ?thesis
    by (rule coherent_leaves [OF ok r_socket(2), of On_Socket])
      (use r_socket view in \<open>simp_all add: on_way_def pushing_def return_to_def split: option.splits\<close>)
next
  case (r_await h l c p)
  then show ?thesis using coherent_await [OF ok pl r_await(2-6)] by simp
next
  case (r_suspended h l c p)
  have P: "places_agree co_of s" using ok by (simp add: coherent_def)
  note F = await_frame_pool [OF r_suspended(4)]
  have c: "co_of c = h" using places_agreeD(6) [OF P] r_suspended(3) by blast
  have view: "pool_view d (awaiters p d) (On_Future c)" if "co_of d = h" for d
  proof (cases "d = c")
    case False
    then show ?thesis using places_agreeD(5) [OF P, of d] that r_suspended(3) F(2) by (cases "awaiters (d_pool s) d") auto
  qed (use r_suspended(5) in simp)
  have old: "awaiters (d_pool s) d = A_Resumed v" if "awaiters p d = A_Resumed v" for d v
    using that F(2) [of d] r_suspended(5) by (cases "d = c") auto
  have other: "awaiters p d = awaiters (d_pool s) d" if "co_of d \<noteq> h" for d using that c F(2) [of d] by auto
  have p: "d_pool s' = p" "scheduled p = scheduled (d_pool s)" "posted p = posted (d_pool s)"
    using r_suspended(1) F(1) F(3) [OF r_suspended(5)] by simp_all
  show ?thesis
  proof (rule coherent_leaves [OF ok r_suspended(2), of "On_Future c"])
    show "net_view (On_Future c) (co (d_net s') h)" using places_agreeD(4) [OF P, of h] r_suspended(1,3) by simp
    show "awaiters (d_pool s) d = A_Resumed v" if "awaiters (d_pool s') d = A_Resumed v" for d v using old that p(1) by simp
    show "awaiters (d_pool s') d = awaiters (d_pool s) d" if "co_of d \<noteq> h" for d using other [OF that] p(1) by simp
    show "pool_view d (awaiters (d_pool s') d) (On_Future c)" if "co_of d = h" for d using view [OF that] p(1) by simp
  qed (use r_suspended(1-3) p in \<open>simp_all add: on_way_def pushing_def return_to_def split: option.splits\<close>)
next
  case (r_end h l)
  have P: "places_agree co_of s" using ok by (simp add: coherent_def)
  have view: "pool_view c (awaiters (d_pool s) c) Over" if "co_of c = h" for c
    using places_agreeD(5) [OF P, of c] that r_end by (cases "awaiters (d_pool s) c") auto
  show ?thesis
    by (rule coherent_leaves [OF ok r_end(2), of Over])
      (use r_end view in \<open>simp_all add: on_way_def pushing_def return_to_def split: option.splits\<close>)
qed

text \<open>A pool thread that has a value finds its coroutine inside \<^verbatim>\<open>co_await\<close>, suspended or not, and not yet scheduled.\<close>

lemma value_awaited:
  assumes P: "places_agree co_of s" and T: "threads_ok s" and pl: "places_ok (d_pool s)" and w: "w < NUM_THREADS" "pool_threads (d_pool s) w = P_Run c"
  shows "c \<notin> set (scheduled (d_pool s))" "d_co s (co_of c) = Awaiting c \<or> d_co s (co_of c) = On_Future c"
proof -
  have m: "mset (taken (d_pool s)) = in_flight (d_pool s) + mset (scheduled (d_pool s))" and t: "posted (d_pool s) = taken (d_pool s) @ queue (d_pool s)"
    and d: "distinct (posted (d_pool s))" and idle: "\<And>c. awaiters (d_pool s) c \<in> {A_Idle, A_Suspend, A_Ready} \<Longrightarrow> c \<notin> set (posted (d_pool s))"
    using pl unfolding places_ok_def by blast+
  have fl: "c \<in># in_flight (d_pool s)"
  proof -
    have "run_of (pool_threads (d_pool s) w) \<subseteq># in_flight (d_pool s)"
      unfolding in_flight_def using w(1) by (subst sum.remove [of _ w]) auto
    then show ?thesis using w(2) by (auto dest: mset_subset_eqD)
  qed
  have "c \<in># mset (taken (d_pool s))" unfolding m using fl by simp
  then have posted: "c \<in> set (posted (d_pool s))" using t by simp
  show *: "c \<notin> set (scheduled (d_pool s))"
  proof
    assume "c \<in> set (scheduled (d_pool s))"
    then have "2 \<le> count (mset (taken (d_pool s))) c" unfolding m using fl
      by (metis One_nat_def add_mono count_greater_zero_iff count_union one_add_one set_mset_mset Suc_leI)
    moreover have "distinct (taken (d_pool s))" using d t by simp
    ultimately show False by (simp add: distinct_count_atmost_1 split: if_splits)
  qed
  have "\<nexists>v. awaiters (d_pool s) c = A_Resumed v" using T posted * unfolding threads_ok_def by blast
  then show "d_co s (co_of c) = Awaiting c \<or> d_co s (co_of c) = On_Future c"
    using places_agreeD(5) [OF P, of c] idle [of c] posted by (cases "awaiters (d_pool s) c") auto
qed

text \<open>A coroutine whose continuation has been scheduled is still inside \<^verbatim>\<open>co_await\<close>, or has got the value.\<close>

lemma scheduled_awaited:
  assumes "places_agree co_of s" "pool_inv (d_pool s)" "c \<in> set (scheduled (d_pool s))"
  shows "(\<exists>v. awaiters (d_pool s) c = A_Resumed v \<and> futures (d_pool s) c = Value v) \<or> d_co s (co_of c) = Awaiting c \<or> d_co s (co_of c) = On_Future c"
proof -
  have "awaiters (d_pool s) c \<notin> {A_Idle, A_Suspend, A_Ready}" using scheduled_posted(2) [OF _ assms(3)] assms(2) by (simp add: pool_inv_def)
  then show ?thesis using places_agreeD(5) [OF assms(1), of c] assms(2) by (cases "awaiters (d_pool s) c") (auto simp: pool_inv_def values_ok_def)
qed

lemma coherent_background:
  assumes ok: "coherent co_of s" and pl: "places_ok (d_pool s)" and "background_step co_of s s'"
  shows "coherent co_of s'"
proof -
  have H: "handles_ok s" and P: "places_agree co_of s" and T: "threads_ok s" using ok by (simp_all add: coherent_def)
  show ?thesis
    using assms(3)
  proof cases
    case (b_worker w p)
    have a: "awaiters p = awaiters (d_pool s)" "posted p = posted (d_pool s)" using b_worker(3) by (cases rule: pool_worker.cases; simp)+
    then show ?thesis using H T places_agree_frame [OF P, of s'] b_worker by (simp add: coherent_def handles_ok_def threads_ok_def)
  next
    case (b_call w p c)
    have v: "w < NUM_THREADS" "pool_threads (d_pool s) w = P_Run c" "awaiters p = awaiters (d_pool s)" "posted p = posted (d_pool s)"
      using b_call(4) by (cases rule: pool_worker.cases; use b_call(5) in simp)+
    note V = value_awaited [OF P T pl v(1,2)]
    let ?r = "(d_loop s)\<lparr> xpcs := (xpcs (d_loop s))(Suc w := X_Push (co_of c)) \<rparr>"
    have "pushing ?r + push_of (xpcs (d_loop s) (Suc w)) = pushing (d_loop s) + push_of (X_Push (co_of c))" by (rule pushing_upd) (use v(1) in auto)
    then have way: "on_way ?r = add_mset (co_of c) (on_way (d_loop s))" using b_call(2) by (simp add: on_way_def)
    have "count (on_way ?r) g = wakes_of (insert c (set (scheduled (d_pool s)))) (d_co s g)" for g
    proof (cases "g = co_of c")
      case True
      then show ?thesis using way H V by (auto simp: handles_ok_def)
    next
      case False
      have "wakes_of (insert c S) (d_co s g) = wakes_of S (d_co s g)" for S
        using False places_agreeD(6) [OF P, of g c] by (cases "d_co s g") auto
      then show ?thesis using way H False by (simp add: handles_ok_def)
    qed
    then have "handles_ok s'" using b_call(1,5) by (simp add: handles_ok_def)
    moreover have "places_agree co_of s'" by (rule places_agree_frame [OF P]) (use b_call(1) v(3) in simp_all)
    moreover have "threads_ok s'" using T b_call(1,5) v by (auto simp: threads_ok_def)
    ultimately show ?thesis by (simp add: coherent_def)
  next
    case (b_schedule t r)
    obtain w where w: "w < NUM_THREADS" "t = Suc w" using T b_schedule(2) unfolding threads_ok_def by blast
    have "rpc r = rpc (d_loop s)" "finished r = finished (d_loop s)" "\<And>u. xpcs r u \<noteq> X_Idle \<Longrightarrow> xpcs (d_loop s) u \<noteq> X_Idle"
      using b_schedule(3) by (cases rule: other_thread.cases; use b_schedule(2) in \<open>auto split: if_splits\<close>)+
    then show ?thesis using H T places_agree_frame [OF P, of s'] on_way_other [OF b_schedule(3,2) w(2,1)] b_schedule(1)
      by (auto simp: coherent_def handles_ok_def threads_ok_def)
  next
    case (b_spurious w)
    then show ?thesis using H T places_agree_frame [OF P, of s'] by (simp add: coherent_def handles_ok_def threads_ok_def)
  next
    case (b_promise c f)
    then show ?thesis using H T places_agree_frame [OF P, of s'] by (simp add: coherent_def handles_ok_def threads_ok_def)
  next
    case (b_signal t)
    have "on_way (signal_handler t (d_loop s)) = on_way (d_loop s)" by (simp add: on_way_def pushing_def signal_handler_def)
    then show ?thesis using H T places_agree_frame [OF P, of s'] b_signal by (simp add: coherent_def handles_ok_def threads_ok_def signal_handler_def)
  qed
qed

section \<open>Every step is a step of each component\<close>

lemma dispatch_loop_part:
  fixes s :: "('c, 'k, 'v) dispatch"
  assumes "dispatch_step interest ctl wait fd_of co_of s s'"
  shows "(reactor_step (\<lambda>_. []) (\<lambda>_. []))\<^sup>*\<^sup>* (d_loop s) (d_loop s')"
proof -
  let ?R = "reactor_step (\<lambda>_. []) (\<lambda>_. [])"
  have main: "?R\<^sup>*\<^sup>* r r'" if "reactor_thread (\<lambda>_. []) (\<lambda>_. []) r r'" for r r' :: "'c reactor"
    by (rule r_into_rtranclp) (use that in \<open>auto simp: reactor_step_def thread_step_def\<close>)
  have other: "?R\<^sup>*\<^sup>* r r'" if "other_thread t r r'" for r r' :: "'c reactor" and t
    by (rule r_into_rtranclp) (use that in \<open>auto simp: reactor_step_def thread_step_def\<close>)
  note co = main [OF in_coroutine] and poll = main [OF in_poll]
  consider "loop_step interest wait s s'" | "running_step interest ctl fd_of co_of s s'" | "background_step co_of s s'"
    using assms by (auto simp: dispatch_step_def)
  then show ?thesis
  proof cases
    case 1
    then show ?thesis
    proof cases
      case (l_poll fds k evs)
      then show ?thesis using poll [OF poll_step.poll [of "d_loop s" evs]] by simp
    next
      case (l_event h evs)
      then show ?thesis using poll [OF event_resume] by simp
    next
      case (l_event_skip h evs)
      then show ?thesis using poll [OF event_skip] by simp
    next
      case (l_resume h hs)
      then show ?thesis using main [OF scratch_resume] by simp
    next
      case (l_resume_value h hs c v)
      then show ?thesis using main [OF scratch_resume] by simp
    qed (simp add: main)
  next
    case 2
    then show ?thesis
    proof cases
      case (r_spawn h l h')
      then show ?thesis using co [OF co_schedule] by simp
    next
      case (r_yield h l)
      then have "?R\<^sup>*\<^sup>* (d_loop s) (enqueue [h] (d_loop s))" using co [OF co_schedule] by simp
      moreover have "?R\<^sup>*\<^sup>* (enqueue [h] (d_loop s)) (d_loop s')" using co [OF co_suspend, of "enqueue [h] (d_loop s)"] r_yield by simp
      ultimately show ?thesis by (rule rtranclp_trans)
    next
      case (r_socket h l ev)
      then show ?thesis using co [OF co_suspend] by simp
    next
      case (r_suspended h l c p)
      then show ?thesis using co [OF co_suspend] by simp
    next
      case (r_end h l)
      then show ?thesis using co [OF co_end] by simp
    qed simp
  next
    case 3
    then show ?thesis
    proof cases
      case (b_call w p c)
      then show ?thesis using other [OF schedule_call [of "Suc w" "d_loop s" "co_of c"]] by simp
    next
      case (b_schedule t r)
      then show ?thesis using other by simp
    next
      case (b_signal t)
      then show ?thesis by (auto intro!: r_into_rtranclp simp: reactor_step_def)
    qed simp_all
  qed
qed

lemma dispatch_net_part:
  assumes "dispatch_step interest ctl wait fd_of co_of s s'" "coherent co_of s" "net_inv interest armed fd_of (d_net s)"
  shows "d_net s' = d_net s \<or> net_step interest ctl wait fd_of (d_net s) (d_net s')"
proof -
  have P: "places_agree co_of s" and T: "threads_ok s" using assms(2) by (simp_all add: coherent_def)
  have active: "co (d_net s) h = Co_Runs" "h \<noteq> 0" if "d_co s h = Active" for h
    using places_agreeD(4) [OF P, of h] places_agreeD(1) [OF P] that by (simp, cases h) auto
  consider "loop_step interest wait s s'" | "running_step interest ctl fd_of co_of s s'" | "background_step co_of s s'"
    using assms(1) by (auto simp: dispatch_step_def)
  then show ?thesis
  proof cases
    case 1
    then show ?thesis
    proof cases
      case (l_poll fds k evs)
      then show ?thesis using net_poll [of "d_net s" wait fds k interest ctl fd_of] T by (simp add: threads_ok_def)
    next
      case (l_event h evs)
      have "co (d_net s) h \<noteq> Co_Done" using places_agreeD(4) [OF P, of h] event_on_socket(1) [OF P T assms(3) l_event(2)] by auto
      then show ?thesis using net_resume [of "d_net s" h evs interest ctl wait fd_of] T event_on_socket(2) [OF P T assms(3) l_event(2)] l_event
        by (simp add: threads_ok_def)
    next
      case (l_event_skip h evs)
      then show ?thesis using event_on_socket [OF P T assms(3) l_event_skip(2)] places_agreeD(3) [OF P, of h] by (simp add: resumable_def)
    qed simp_all
  next
    case 2
    then show ?thesis
    proof cases
      case (r_socket h l ev)
      then show ?thesis using net_suspend [of "d_net s" h ev interest ctl wait fd_of] active by simp
    next
      case (r_end h l)
      then show ?thesis using net_end [of "d_net s" h interest ctl wait fd_of] active by simp
    qed simp_all
  next
    case 3
    then show ?thesis by cases simp_all
  qed
qed

lemma dispatch_pool_part:
  assumes "dispatch_step interest ctl wait fd_of co_of s s'" "coherent co_of s"
  shows "d_pool s' = d_pool s \<or> pool_step (d_pool s) (d_pool s')"
proof -
  have H: "handles_ok s" and P: "places_agree co_of s" using assms(2) by (simp_all add: coherent_def)
  have t: "\<not> terminated (d_pool s)" using assms(1) by (simp add: dispatch_step_def)
  have aw: "pool_step (d_pool s) p" if "await_step c (d_pool s) p" for c p by (rule quiet [OF by_awaiter [OF t that]])
  have wk: "pool_step (d_pool s) p" if "pool_worker w (d_pool s) p" for w p by (rule quiet [OF by_worker [OF t that]])
  consider "loop_step interest wait s s'" | "running_step interest ctl fd_of co_of s s'" | "background_step co_of s s'"
    using assms(1) by (auto simp: dispatch_step_def)
  then show ?thesis
  proof cases
    case 1
    then show ?thesis
    proof cases
      case (l_resume_value h hs c v)
      have "h \<in># on_way (d_loop s)" using l_resume_value(3) by (simp add: on_way_def)
      then have "c \<in> set (scheduled (d_pool s)) \<and> awaiters (d_pool s) c = A_Waiting"
        using arrived_suspended [OF H P, of h] l_resume_value(2,5) by auto
      then show ?thesis using aw [OF resume_result] l_resume_value by simp
    qed simp_all
  next
    case 2
    then show ?thesis by cases (use aw in auto)
  next
    case 3
    then show ?thesis
    proof cases
      case (b_spurious w)
      then show ?thesis using quiet [OF spurious [OF t b_spurious(2)]] by simp
    next
      case (b_promise c f)
      then show ?thesis using resolve [OF b_promise(2)] abandon [OF b_promise(2)] by (cases f) auto
    qed (use wk in auto)
  qed
qed

definition dispatch_inv :: "('k \<Rightarrow> int \<rightharpoonup> epoll_event) \<Rightarrow> ('k \<Rightarrow> int set) \<Rightarrow> (nat \<Rightarrow> int) \<Rightarrow> (nat \<Rightarrow> nat) \<Rightarrow> ('c, 'k, 'v) dispatch \<Rightarrow> bool" where
  "dispatch_inv interest armed fd_of co_of s \<longleftrightarrow> coherent co_of s \<and> reactor_inv (d_loop s) \<and> net_inv interest armed fd_of (d_net s) \<and> pool_inv (d_pool s)"

lemma dispatch_inv_step:
  assumes doc: "epoll_documented interest armed ctl wait" "inj fd_of" and inv: "dispatch_inv interest armed fd_of co_of s"
    and st: "dispatch_step interest ctl wait fd_of co_of s s'"
  shows "dispatch_inv interest armed fd_of co_of s'"
proof -
  have I: "coherent co_of s" "reactor_inv (d_loop s)" "net_inv interest armed fd_of (d_net s)" "pool_inv (d_pool s)"
    using inv by (simp_all add: dispatch_inv_def)
  have "coherent co_of s'"
    using st coherent_loop [OF I(1-3)] coherent_running [OF I(1)] coherent_background [OF I(1)] I(4) unfolding dispatch_step_def pool_inv_def by blast
  moreover have "reactor_inv (d_loop s')" using reactor_run.steps_inv [OF dispatch_loop_part [OF st] I(2)] .
  moreover have "net_inv interest armed fd_of (d_net s')"
    using dispatch_net_part [OF st I(1,3)] net_inv_step [OF doc I(3)] I(3) by auto
  moreover have "pool_inv (d_pool s')" using dispatch_pool_part [OF st I(1)] pool_run.inv_step [OF I(4)] I(4) by auto
  ultimately show ?thesis by (simp add: dispatch_inv_def)
qed

lemma dispatch_inv_init:
  assumes "dispatch_init interest armed h0 s"
  shows "dispatch_inv interest armed fd_of co_of s"
proof -
  have i: "h0 \<noteq> 0" "reactor_init h0 (d_loop s)" "net_init interest armed (d_net s)" "pool_init (d_pool s)" "d_co s = (\<lambda>h. Fresh)(h0 := Queued)"
    using assms by (simp_all add: dispatch_init_def)
  have "handles_ok s" using i(2,4,5) by (auto simp: handles_ok_def on_way_def pushing_def reactor_init_def pool_init_def)
  moreover have "places_agree co_of s" using i by (auto simp: places_agree_def reactor_init_def net_init_def pool_init_def split: if_splits)
  moreover have "threads_ok s" using i(2-4) by (simp add: threads_ok_def reactor_init_def net_init_def pool_init_def)
  moreover have "net_inv interest armed fd_of (d_net s)" using i(3) by (simp add: net_init_def net_inv_def co_ok_def)
  ultimately show ?thesis using reactor_run.inv_init [OF i(2)] pool_run.inv_init [OF i(4)] by (simp add: dispatch_inv_def coherent_def)
qed

interpretation dispatch_run: inductive_invariant "dispatch_init interest armed h0" "dispatch_step interest ctl wait fd_of co_of"
  "\<lambda>s. epoll_documented interest armed ctl wait \<and> inj fd_of \<longrightarrow> dispatch_inv interest armed fd_of co_of s"
  for interest armed h0 ctl wait fd_of co_of
  by unfold_locales (blast intro: dispatch_inv_init dispatch_inv_step)+

section \<open>Properties\<close>

text \<open>
  C11. Every coroutine is resumed by the party it waits for, and once. Whatever sessions, pool threads, the kernel and signals do, if epoll keeps its documented behaviour and no two coroutines share a
  descriptor: a handle that the loop takes from the run queue belongs to a coroutine that was scheduled by its creator or by itself, or that is suspended on a
  future whose value is resolved and stored for it; there is no second handle of that coroutine, and its socket is not armed. A coroutine that the poll resumes is suspended
  on its socket, occurs once among the events and has no handle on the way. At most one coroutine runs. No wake-up is lost: once a pool thread has
  called \<^verbatim>\<open>schedule\<close>, the coroutine has been resumed with the value, or exactly one handle of it is on the way.
\<close>

theorem dispatch_exclusive:
  assumes "epoll_documented interest armed ctl wait" and "inj fd_of"
    and "reach (dispatch_init interest armed h0) (dispatch_step interest ctl wait fd_of co_of) s"
  shows "(\<forall>h hs. rpc (d_loop s) = Run_Scratch \<and> scratch_queue (d_loop s) = h # hs \<longrightarrow> resumable h (d_loop s) \<and>
      (d_co s h = Queued \<or> (\<exists>c v. d_co s h = On_Future c \<and> futures (d_pool s) c = Value v \<and> results (d_pool s) c = Some v)) \<and>
      count (on_way (d_loop s)) h = 1 \<and> fd_of h \<notin> armed (kernel (d_net s))) \<and>
    (\<forall>h evs. rpc (d_loop s) = Events (h # evs) \<longrightarrow> resumable h (d_loop s) \<and> d_co s h = On_Socket \<and> h \<notin> set evs \<and> h \<notin># on_way (d_loop s)) \<and>
    (\<forall>g h. runs (d_co s g) \<and> runs (d_co s h) \<longrightarrow> g = h) \<and>
    (\<forall>c \<in> set (scheduled (d_pool s)). (\<exists>v. awaiters (d_pool s) c = A_Resumed v \<and> futures (d_pool s) c = Value v) \<or>
      (d_co s (co_of c) = Awaiting c \<or> d_co s (co_of c) = On_Future c) \<and> count (on_way (d_loop s)) (co_of c) = 1)"
proof -
  have I: "coherent co_of s" "net_inv interest armed fd_of (d_net s)" "pool_inv (d_pool s)"
    using dispatch_run.reach_inv [OF assms(3)] assms(1,2) by (auto simp: dispatch_inv_def)
  then have H: "handles_ok s" and P: "places_agree co_of s" and T: "threads_ok s" by (simp_all add: coherent_def)
  have count: "count (on_way (d_loop s)) h = wakes_of (set (scheduled (d_pool s))) (d_co s h)" for h using H by (simp add: handles_ok_def)
  show ?thesis
  proof (intro conjI allI impI ballI; (elim conjE)?)
    fix h hs assume at: "rpc (d_loop s) = Run_Scratch" "scratch_queue (d_loop s) = h # hs"
    then have way: "h \<in># on_way (d_loop s)" by (simp add: on_way_def)
    note A = arrived_suspended [OF H P way]
    show "resumable h (d_loop s)" by (rule on_way_resumable [OF H P way])
    show "d_co s h = Queued \<or> (\<exists>c v. d_co s h = On_Future c \<and> futures (d_pool s) c = Value v \<and> results (d_pool s) c = Some v)"
      using A at(1) I(3) by (fastforce simp: pool_inv_def values_ok_def)
    show "count (on_way (d_loop s)) h = 1" using A at(1) count [of h] by auto
    have "co (d_net s) h = Co_Runs" using places_agreeD(4) [OF P, of h] A at(1) by auto
    then show "fd_of h \<notin> armed (kernel (d_net s))" using net_invD(3) [OF I(2), of h] by (simp add: co_ok_def)
  next
    fix h evs assume at: "rpc (d_loop s) = Events (h # evs)"
    note E = event_on_socket [OF P T I(2) at]
    show "d_co s h = On_Socket" "h \<notin> set evs" by (fact E)+
    show "resumable h (d_loop s)" using E places_agreeD(3) [OF P, of h] by (simp add: resumable_def)
    show "h \<notin># on_way (d_loop s)" using count [of h] E(1) by (simp add: not_in_iff)
  next
    fix g h assume "runs (d_co s g)" "runs (d_co s h)"
    then show "g = h" using places_agreeD(2) [OF P, of g] places_agreeD(2) [OF P, of h] by auto
  next
    fix c assume c: "c \<in> set (scheduled (d_pool s))"
    show "(\<exists>v. awaiters (d_pool s) c = A_Resumed v \<and> futures (d_pool s) c = Value v) \<or>
      (d_co s (co_of c) = Awaiting c \<or> d_co s (co_of c) = On_Future c) \<and> count (on_way (d_loop s)) (co_of c) = 1"
      using scheduled_awaited [OF P I(3) c] count [of "co_of c"] c by auto
  qed
qed

text \<open>The accept loop, coroutine 5, on its way from the external queue to its first resumption.\<close>

lemma dispatch_plumbing:
  assumes "reach (dispatch_init interest armed h0) (dispatch_step interest ctl wait fd_of co_of) s"
    and "reactor_thread (\<lambda>_. []) (\<lambda>_. []) (d_loop s) r" "plumbing (rpc (d_loop s))" "resumed r = resumed (d_loop s)" "\<not> terminated (d_pool s)"
  shows "reach (dispatch_init interest armed h0) (dispatch_step interest ctl wait fd_of co_of) (s\<lparr> d_loop := r \<rparr>)"
  using reach_step [OF assms(1)] l_loop [OF assms(3,2,4)] assms(5) by (auto simp: dispatch_step_def)

lemma dispatch_first_round:
  "\<exists>s :: (nat, small_kernel, nat) dispatch. reach (dispatch_init fst snd 5) (dispatch_step fst small_ctl small_wait int (\<lambda>c. c)) s \<and>
     rpc (d_loop s) = Run_Scratch \<and> scratch_queue (d_loop s) = [5]"
proof -
  let ?R = "reach (dispatch_init fst snd 5) (dispatch_step fst small_ctl small_wait int (\<lambda>c. c)) :: (nat, small_kernel, nat) dispatch \<Rightarrow> bool"
  obtain r0 :: "nat reactor" where r0: "reactor_init 5 r0" by (simp add: reactor_init_def)
  obtain p0 :: "nat pool" where p0: "pool_init p0" by (simp add: pool_init_def)
  define s :: "nat reactor \<Rightarrow> (nat, small_kernel, nat) dispatch" where "s r = \<lparr> d_loop = r, d_net = \<lparr> kernel = (Map.empty, {}), co = (\<lambda>h. Co_Runs), pending = [], unregistered = {} \<rparr>,
    d_pool = p0, d_co = (\<lambda>h. Fresh)(5 := Queued) \<rparr>" for r
  have upd: "(s r)\<lparr> d_loop := r' \<rparr> = s r'" "d_loop (s r) = r" "d_pool (s r) = p0" for r r' by (simp_all add: s_def)
  have next_r: "?R (s r')" if "?R (s r)" "reactor_thread (\<lambda>_. []) (\<lambda>_. []) r r'" "plumbing (rpc r)" "resumed r' = resumed r" for r r'
    using dispatch_plumbing [OF that(1), of r'] that(2-4) p0 by (simp add: upd pool_init_def)
  have "?R (s r0)" by (rule reach_init) (use r0 p0 in \<open>simp add: dispatch_init_def s_def net_init_def\<close>)
  note run0 = this
  define r1 where "r1 = r0\<lparr> rpc := Store_Running \<rparr>"
  define r2 where "r2 = r1\<lparr> running := True, rpc := Store_Current \<rparr>"
  define r3 where "r3 = r2\<lparr> thread_id := Some 0, current := True, timer_wheel := wheel_initialize 0 (timer_wheel r2), rpc := Loop_Test \<rparr>"
  define r4 where "r4 = r3\<lparr> rpc := Pop_External, due := length (moved r3) + length (ready_tickets (external_queue r3)) \<rparr>"
  define r5 where "r5 = r4\<lparr> external_queue := [], moved := moved r4 @ [5], rpc := Pop_Release 5 \<rparr>"
  define r6 where "r6 = enqueue [5] (r5\<lparr> rpc := Sub_Pending \<rparr>)"
  define r7 where "r7 = r6\<lparr> external_pending := external_pending r6 - 1, rpc := Pop_External \<rparr>"
  define r8 where "r8 = r7\<lparr> rpc := Swap_Queues \<rparr>"
  define r9 where "r9 = r8\<lparr> scratch_queue := run_queue r8, run_queue := [], rpc := Run_Scratch \<rparr>"
  have i: "rpc r0 = Main_Test" "g_running r0" "external_queue r0 = [(5, True)]" "run_queue r0 = []" using r0 by (simp_all add: reactor_init_def)
  note D = r1_def r2_def r3_def r4_def r5_def r6_def r7_def r8_def r9_def enqueue_def
  have "?R (s r1)" by (rule next_r [OF run0]) (use i main_enter [of r0] in \<open>simp_all add: D\<close>)
  then have "?R (s r2)" by (rule next_r) (use store_running [of r1] in \<open>simp_all add: D\<close>)
  then have "?R (s r3)" by (rule next_r) (use store_current [of r2 _ _ 0] in \<open>simp_all add: D\<close>)
  then have "?R (s r4)" by (rule next_r) (use loop_test [of r3] in \<open>simp_all add: D\<close>)
  then have "?R (s r5)" by (rule next_r) (use i in_drain [OF drain_step.pop [of r4 5 "[]"]] in \<open>simp_all add: D\<close>)
  then have "?R (s r6)" by (rule next_r) (use in_drain [OF pop_return [of r5 5]] in \<open>simp_all add: D\<close>)
  then have "?R (s r7)" by (rule next_r) (use in_drain [OF sub_pending [of r6]] in \<open>simp_all add: D\<close>)
  then have "?R (s r8)" by (rule next_r) (use in_drain [OF pop_none [of r7]] in \<open>simp_all add: D may_miss_def external_tickets_def\<close>)
  then have fin: "?R (s r9)" by (rule next_r) (use swap [of r8] in \<open>simp_all add: D\<close>)
  have at: "rpc (d_loop (s r9)) = Run_Scratch" "scratch_queue (d_loop (s r9)) = [5]" using i by (simp_all add: upd D)
  show ?thesis using fin at by blast
qed

theorem dispatch_exclusive_witness:
  "\<exists>s :: (nat, small_kernel, nat) dispatch. reach (dispatch_init fst snd 5) (dispatch_step fst small_ctl small_wait int (\<lambda>c. c)) s \<and>
     scratch_queue (d_loop s) = [5] \<and> count (on_way (d_loop s)) 5 = 1 \<and> int 5 \<notin> snd (kernel (d_net s))"
proof -
  obtain s :: "(nat, small_kernel, nat) dispatch" where s: "reach (dispatch_init fst snd 5) (dispatch_step fst small_ctl small_wait int (\<lambda>c. c)) s"
    "rpc (d_loop s) = Run_Scratch" "scratch_queue (d_loop s) = [5]" using dispatch_first_round by blast
  have "count (on_way (d_loop s)) 5 = 1 \<and> int 5 \<notin> snd (kernel (d_net s))"
    using dispatch_exclusive [OF small_documented _ s(1)] s(2,3) by (simp add: inj_def)
  then show ?thesis using s by blast
qed

end
