(* ===== verification/Accounting.thy ===== *)
theory Accounting
  imports Executor
begin

text \<open>
  The telemetry of \<^verbatim>\<open>model/model_executor.cpp\<close>: what its counters and its latency histogram mean, in every interleaving of clients, workers and control.
\<close>

section \<open>The books\<close>

definition was_ok :: "('f, 'b) executor \<Rightarrow> nat \<Rightarrow> bool" where
  "was_ok s p \<longleftrightarrow> (\<exists>r. promises s p = Some r \<and> ok r)"

definition latency_of :: "('f, 'b) executor \<Rightarrow> nat \<Rightarrow> u64" where
  "latency_of s p = latency_ns (the (promises s p))"

text \<open>
  \<open>ps\<close> are the promises answered by the backend, in the order of their answers, and \<open>qs\<close> those given up because the queue was full.
\<close>

definition accounted :: "('f, 'b) executor \<Rightarrow> nat list \<Rightarrow> nat list \<Rightarrow> bool" where
  "accounted s ps qs \<longleftrightarrow> distinct (ps @ qs) \<and> set (ps @ qs) \<subseteq> dom (promises s) \<and> {p. was_ok s p} \<subseteq> set ps \<and>
     requests_completed (metrics s) = of_nat (length (filter (was_ok s) ps)) \<and>
     requests_rejected (metrics s) = of_nat (length (filter (\<lambda>p. \<not> was_ok s p) ps)) \<and>
     queue_timeouts (metrics s) = of_nat (length qs) \<and> latency_hist s = hist_of (map (latency_of s) ps)"

definition received_ok :: "('f, 'b) executor \<Rightarrow> bool" where
  "received_ok s \<longleftrightarrow> requests_received (metrics s) = of_nat (length (requests s))"

section \<open>Every step keeps them\<close>

lemma accounted_frame:
  assumes "accounted s ps qs" "promises s' = promises s" "latency_hist s' = latency_hist s" "requests_completed (metrics s') = requests_completed (metrics s)"
    "requests_rejected (metrics s') = requests_rejected (metrics s)" "queue_timeouts (metrics s') = queue_timeouts (metrics s)"
  shows "accounted s' ps qs"
proof -
  have "was_ok s' = was_ok s" "latency_of s' = latency_of s" using assms(2) by (simp_all add: was_ok_def latency_of_def fun_eq_iff)
  then show ?thesis using assms by (simp add: accounted_def)
qed

lemma set_value_frame:
  assumes "set_value p r s = Some s'"
  shows "promises s p = None" "promises s' = (promises s)(p \<mapsto> r)" "metrics s' = metrics s" "latency_hist s' = latency_hist s"
  using assms by (auto simp: set_value_def split: if_splits)

lemma hist_of_snoc: "hist_of (xs @ [x]) = hist_record x (hist_of xs)"
  by (simp add: hist_of_def)

text \<open>The answers so far do not change when another promise is answered.\<close>

lemma old_answers:
  assumes "set_value p r s = Some s'" "set ps \<subseteq> dom (promises s)"
  shows "filter (was_ok s') ps = filter (was_ok s) ps" "filter (\<lambda>p. \<not> was_ok s' p) ps = filter (\<lambda>p. \<not> was_ok s p) ps"
    "hist_of (map (latency_of s') ps) = hist_of (map (latency_of s) ps)"
proof -
  have "p \<notin> set ps" using set_value_frame(1) [OF assms(1)] assms(2) by auto
  then have "was_ok s' q = was_ok s q \<and> latency_of s' q = latency_of s q" if "q \<in> set ps" for q
    using that set_value_frame(2) [OF assms(1)] by (auto simp: was_ok_def latency_of_def)
  then show "filter (was_ok s') ps = filter (was_ok s) ps" "filter (\<lambda>p. \<not> was_ok s' p) ps = filter (\<lambda>p. \<not> was_ok s p) ps"
    "hist_of (map (latency_of s') ps) = hist_of (map (latency_of s) ps)" by (auto cong: filter_cong map_cong)
qed

lemma accounted_error:
  assumes "accounted s ps qs" "set_value p r s = Some s'" "\<not> ok r"
  shows "accounted s' ps qs"
proof -
  have "set ps \<subseteq> dom (promises s)" using assms(1) by (simp add: accounted_def)
  note O = old_answers [OF assms(2) this]
  have "{q. was_ok s' q} \<subseteq> {q. was_ok s q}" using set_value_frame(2) [OF assms(2)] assms(3) by (auto simp: was_ok_def split: if_splits)
  then show ?thesis using assms(1) O set_value_frame [OF assms(2)] by (auto simp: accounted_def)
qed

lemma accounted_timeout:
  assumes "accounted s ps qs" "set_value p r (set_client t c (s\<lparr> metrics := (metrics s)\<lparr> queue_timeouts := queue_timeouts (metrics s) + 1 \<rparr> \<rparr>)) = Some s'" "\<not> ok r"
  shows "accounted s' ps (qs @ [p])"
proof -
  define u where "u = set_client t c (s\<lparr> metrics := (metrics s)\<lparr> queue_timeouts := queue_timeouts (metrics s) + 1 \<rparr> \<rparr>)"
  have u: "promises u = promises s" "metrics u = (metrics s)\<lparr> queue_timeouts := queue_timeouts (metrics s) + 1 \<rparr>" "latency_hist u = latency_hist s"
    by (simp_all add: u_def set_client_def)
  have sv: "set_value p r u = Some s'" using assms(2) by (simp add: u_def)
  have ps: "set ps \<subseteq> dom (promises u)" using assms(1) u(1) by (simp add: accounted_def)
  note O = old_answers [OF sv ps] and F = set_value_frame [OF sv]
  have "was_ok u = was_ok s" "latency_of u = latency_of s" using u(1) by (simp_all add: was_ok_def latency_of_def fun_eq_iff)
  moreover have "{q. was_ok s' q} \<subseteq> {q. was_ok u q}" using F(2) assms(3) by (auto simp: was_ok_def split: if_splits)
  ultimately show ?thesis using assms(1) O F u by (auto simp: accounted_def)
qed

lemma accounted_answer:
  assumes "accounted s ps qs" "set_value p (with_timing r x y z) (count_response r s) = Some s'"
  shows "accounted s' (ps @ [p]) qs"
proof -
  let ?u = "count_response r s"
  have u: "promises ?u = promises s" "was_ok ?u = was_ok s" "latency_of ?u = latency_of s"
    by (simp_all add: count_response_def was_ok_def latency_of_def fun_eq_iff)
  have ps: "set ps \<subseteq> dom (promises ?u)" using assms(1) u(1) by (simp add: accounted_def)
  note O = old_answers [OF assms(2) ps] and F = set_value_frame [OF assms(2)]
  have new: "was_ok s' p = ok r" "latency_of s' p = latency_ns r" using F(2) by (simp_all add: was_ok_def latency_of_def with_timing_def)
  have "{q. was_ok s' q} \<subseteq> insert p {q. was_ok s q}" using F(2) u(1) by (auto simp: was_ok_def split: if_splits)
  moreover have "hist_of (map (latency_of s') (ps @ [p])) = hist_record (latency_ns r) (hist_of (map (latency_of s) ps))"
    using O(3) u(3) new(2) hist_of_snoc [of "map (latency_of s') ps"] by simp
  moreover have "p \<notin> set (ps @ qs)" "p \<in> dom (promises s')" "dom (promises s) \<subseteq> dom (promises s')" using F u(1) assms(1) by (auto simp: accounted_def)
  moreover have "requests_completed (metrics s') = requests_completed (metrics s) + of_bool (ok r)"
    "requests_rejected (metrics s') = requests_rejected (metrics s) + of_bool (\<not> ok r)" "queue_timeouts (metrics s') = queue_timeouts (metrics s)"
    "latency_hist s' = hist_record (latency_ns r) (latency_hist s)" using F(3,4) by (simp_all add: count_response_def)
  moreover have "filter (was_ok s') ps = filter (was_ok s) ps" "filter (\<lambda>p. \<not> was_ok s' p) ps = filter (\<lambda>p. \<not> was_ok s p) ps" using O(1,2) u(2) by simp_all
  moreover have "set ps \<subseteq> dom (promises s')" "set qs \<subseteq> dom (promises s')" using F(2) u(1) assms(1) by (auto simp: accounted_def)
  ultimately show ?thesis using assms(1) new(1) unfolding accounted_def by (cases "ok r") auto
qed

lemma accounted_deliver:
  "accounted s ps qs \<Longrightarrow> deliver batch rs exec s = Some s' \<Longrightarrow> \<exists>ps'. accounted s' ps' qs"
proof (induction batch rs exec s arbitrary: ps rule: deliver.induct)
  case (3 t wait batch r rs exec s)
  obtain u where u: "set_value (promise t) (with_timing r (task_routing_ns t) wait exec) (count_response r s) = Some u" "deliver batch rs exec u = Some s'"
    using "3.prems"(2) by (auto simp: bind_eq_Some_conv)
  show ?case by (rule "3.IH" [OF u(1) accounted_answer [OF "3.prems"(1) u(1)] u(2)])
qed auto

lemma accounted_unavailable:
  "accounted s ps qs \<Longrightarrow> deliver_unavailable batch s = Some s' \<Longrightarrow> accounted s' ps qs"
proof (induction batch s rule: deliver_unavailable.induct)
  case (2 t wait batch s)
  obtain u where u: "set_value (promise t) (error_response ''backend unavailable'') s = Some u" "deliver_unavailable batch u = Some s'"
    using "2.prems"(2) by (auto simp: bind_eq_Some_conv)
  show ?case by (rule "2.IH" [OF u(1) accounted_error [OF "2.prems"(1) u(1)] u(2)]) (simp add: error_response_def)
qed auto

lemma accounted_client:
  assumes "accounted s ps qs" "client_step s s'"
  shows "\<exists>qs'. accounted s' ps qs'"
  using assms(2)
proof cases
  case (call t r now routing)
  let ?u = "s\<lparr> metrics := (metrics s)\<lparr> requests_received := requests_received (metrics s) + 1 \<rparr>, requests := requests s @ [r] \<rparr>"
  have u: "accounted ?u ps qs" by (rule accounted_frame [OF assms(1)]) simp_all
  show ?thesis
  proof (cases "backend_ready ?u")
    case True
    then have "promises s' = promises ?u" "metrics s' = metrics ?u" "latency_hist s' = latency_hist ?u"
      using call(2) by (auto simp: infer_begin_def Let_def set_client_def)
    then have "accounted s' ps qs" by (intro accounted_frame [OF u]) simp_all
    then show ?thesis by blast
  next
    case False
    then have "set_value (length (requests s)) (error_response (''model not ready: '' @ req_model_id r)) ?u = Some s'"
      using call(2) by (simp add: infer_begin_def Let_def)
    from accounted_error [OF u this] have "accounted s' ps qs" by (simp add: error_response_def)
    then show ?thesis by blast
  qed
next
  case (check_stopped t slot)
  have u: "accounted (set_client t C_Idle s) ps qs" by (rule accounted_frame [OF assms(1)]) (simp_all add: set_client_def)
  show ?thesis using accounted_error [OF u check_stopped(3) [unfolded push_stopped_def]] by (auto simp: error_response_def)
next
  case (deadline t slot)
  show ?thesis using accounted_timeout [OF assms(1) deadline(2) [unfolded push_timeout_def]] by (auto simp: error_response_def)
qed (rule exI, rule accounted_frame [OF assms(1)]; simp add: set_client_def set_worker_def)+

lemma accounted_worker:
  assumes "accounted s ps qs" "worker_step ib w s s'"
  shows "\<exists>ps'. accounted s' ps' qs"
  using assms(2)
proof cases
  case (run batch exec u)
  have "\<exists>ps'. accounted u ps' qs"
    using run(3) accounted_deliver [OF assms(1)] accounted_unavailable [OF assms(1), of batch u]
    unfolding run_batch_def by (auto split: option.splits if_splits)
  then obtain ps' where "accounted u ps' qs" by blast
  then have "accounted s' ps' qs" unfolding run(1) by (rule accounted_frame) (simp_all add: set_worker_def)
  then show ?thesis by blast
qed (rule exI, rule accounted_frame [OF assms(1)]; simp add: set_worker_def)+

lemma accounted_control:
  assumes "accounted s ps qs" "control_step s s'"
  shows "accounted s' ps qs"
  using assms(2) by cases (rule accounted_frame [OF assms(1)]; simp add: set_worker_def)+

lemma set_value_received: "set_value p r s = Some s' \<Longrightarrow> metrics s' = metrics s \<and> requests s' = requests s"
  by (auto simp: set_value_def split: if_splits)

lemma deliver_received:
  "deliver batch rs x s = Some s' \<Longrightarrow> requests_received (metrics s') = requests_received (metrics s) \<and> requests s' = requests s"
proof (induction batch rs x s rule: deliver.induct)
  case (3 t wait batch r rs x s)
  obtain u where u: "set_value (promise t) (with_timing r (task_routing_ns t) wait x) (count_response r s) = Some u" "deliver batch rs x u = Some s'"
    using "3.prems" by (auto simp: bind_eq_Some_conv)
  then show ?case using "3.IH" [OF u] set_value_received [OF u(1)] by (simp add: count_response_def)
qed auto

lemma unavailable_received:
  "deliver_unavailable batch s = Some s' \<Longrightarrow> metrics s' = metrics s \<and> requests s' = requests s"
proof (induction batch s rule: deliver_unavailable.induct)
  case (2 t wait batch s)
  obtain u where u: "set_value (promise t) (error_response ''backend unavailable'') s = Some u" "deliver_unavailable batch u = Some s'"
    using "2.prems" by (auto simp: bind_eq_Some_conv)
  then show ?case using "2.IH" [OF u] set_value_received [OF u(1)] by simp
qed auto

lemma received_step:
  assumes "received_ok s" "exec_step ib s s'"
  shows "received_ok s'"
proof -
  consider "client_step s s'" | w where "worker_step ib w s s'" | "control_step s s'" using assms(2) by (auto simp: exec_step_def)
  then show ?thesis
  proof cases
    case 1
    then show ?thesis using assms(1)
      by cases (auto simp: received_ok_def infer_begin_def push_timeout_def push_stopped_def set_client_def set_worker_def Let_def
        dest!: set_value_received split: if_splits)
  next
    case 2
    then show ?thesis using assms(1)
      by cases (auto simp: received_ok_def set_worker_def run_batch_def dest!: deliver_received unavailable_received split: option.splits if_splits)
  next
    case 3
    then show ?thesis using assms(1) by cases (auto simp: received_ok_def set_worker_def)
  qed
qed

interpretation books: inductive_invariant exec_init "exec_step ib" "\<lambda>s. received_ok s \<and> (\<exists>ps qs. accounted s ps qs)" for ib
proof unfold_locales
  fix s :: "('a, 'b) executor" assume "exec_init s"
  then have "accounted s [] [] \<and> received_ok s"
    by (auto simp: exec_init_def executor_new_def accounted_def received_ok_def was_ok_def hist_of_def zero_metrics_def)
  then show "received_ok s \<and> (\<exists>ps qs. accounted s ps qs)" by blast
next
  fix s s' :: "('a, 'b) executor" assume "received_ok s \<and> (\<exists>ps qs. accounted s ps qs)" "exec_step ib s s'"
  then show "received_ok s' \<and> (\<exists>ps qs. accounted s' ps qs)"
    using received_step accounted_client accounted_worker accounted_control unfolding exec_step_def by (metis (no_types))
qed

section \<open>Properties\<close>



end
