(* ===== verification/Platform.thy ===== *)
theory Platform
  imports Prelude
begin

text \<open>
  The services of the operating system that the other components sit on: huge-page mappings
  (\<^verbatim>\<open>memory/huge_pages.hpp\<close> and \<^verbatim>\<open>.cpp\<close>), logging (\<^verbatim>\<open>core/logging.hpp\<close>), processor topology and pinning (\<^verbatim>\<open>scheduler/scheduler.hpp\<close> and \<^verbatim>\<open>.cpp\<close>) and the
  back-off of spinning threads (\<^verbatim>\<open>concurrency/backoff.hpp\<close>). The system calls are parameters.
\<close>

section \<open>Huge pages\<close>

text \<open>
  The mappings of the process, by address. The parameter \<open>mmap M huge n\<close> is the call for \<open>n\<close> anonymous bytes,
  with \<^verbatim>\<open>MAP_HUGETLB\<close> or without; \<open>None\<close> is \<^verbatim>\<open>MAP_FAILED\<close>. Unmapping is modelled for whole mappings, with \<open>None\<close> for
  any other range.
\<close>

type_synonym mappings = "u64 \<rightharpoonup> size_t"
type_synonym mmap = "mappings \<Rightarrow> bool \<Rightarrow> size_t \<Rightarrow> u64 option"

definition huge_page_size :: size_t where "huge_page_size = 2 * 1024 * 1024"

definition aligned_size :: "size_t \<Rightarrow> size_t" where
  "aligned_size size_bytes = align_up size_bytes huge_page_size"

definition allocate_huge_pages :: "mmap \<Rightarrow> size_t \<Rightarrow> mappings \<Rightarrow> u64 option \<times> mappings" where
  "allocate_huge_pages mmap size_bytes M =
     (case mmap M True (aligned_size size_bytes) of
        Some p \<Rightarrow> (Some p, M(p \<mapsto> aligned_size size_bytes))
      | None \<Rightarrow> (case mmap M False (aligned_size size_bytes) of
          Some p \<Rightarrow> (Some p, M(p \<mapsto> aligned_size size_bytes))
        | None \<Rightarrow> (None, M)))"

definition munmap :: "u64 \<Rightarrow> size_t \<Rightarrow> mappings \<Rightarrow> mappings option" where
  "munmap p n M = (if M p = Some n then Some (M(p := None)) else None)"

definition free_huge_pages :: "u64 option \<Rightarrow> size_t \<Rightarrow> mappings \<Rightarrow> mappings option" where
  "free_huge_pages ptr size_bytes M = (case ptr of None \<Rightarrow> Some M | Some p \<Rightarrow> munmap p (aligned_size size_bytes) M)"

text \<open>The owning pointer is the address and the size in its deleter; \<open>None\<close> is \<^verbatim>\<open>std::abort\<close>. The product wraps at 64 bits.\<close>

definition allocate_huge_pages_unique :: "mmap \<Rightarrow> size_t \<Rightarrow> size_t \<Rightarrow> mappings \<Rightarrow> ((u64 \<times> size_t) \<times> mappings) option" where
  "allocate_huge_pages_unique mmap sizeof count M =
     (let bytes = count * sizeof in
      case allocate_huge_pages mmap bytes M of
        (None, M') \<Rightarrow> None
      | (Some p, M') \<Rightarrow> Some ((p, bytes), M'))"

definition huge_page_deleter :: "u64 \<times> size_t \<Rightarrow> mappings \<Rightarrow> mappings option" where
  "huge_page_deleter u = free_huge_pages (Some (fst u)) (snd u)"

text \<open>What the manual promises of \<^verbatim>\<open>mmap\<close>: a new mapping starts where none is.\<close>

definition mmap_fresh :: "mmap \<Rightarrow> bool" where
  "mmap_fresh mmap \<longleftrightarrow> (\<forall>M b n p. mmap M b n = Some p \<longrightarrow> M p = None)"

lemma huge_page_size_eq: "huge_page_size = 2 ^ 21" "2 ^ 21 = (2097152 :: size_t)"
  by (simp_all add: huge_page_size_def)

lemma unat_aligned_size:
  assumes "unat n + 2 ^ 21 \<le> 2 ^ 64"
  shows "unat (aligned_size n) = round_up (unat n) (2 ^ 21)"
  unfolding aligned_size_def huge_page_size_eq(1) by (rule unat_align_up) (use assms in simp_all)

text \<open>
  An owning huge-page pointer covers what was asked for: if the number of bytes does not come within one huge page of the
  range of \<^verbatim>\<open>size_t\<close>, the new mapping has at least that many bytes, in whole huge pages, and
  the deleter removes exactly this mapping again.
\<close>

theorem huge_pages_unique:
  assumes "mmap_fresh mmap" and "allocate_huge_pages_unique mmap sizeof count M = Some (u, M')"
    and "unat count * unat sizeof + 2 ^ 21 \<le> 2 ^ 64"
  shows "(\<exists>n. M' (fst u) = Some n \<and> unat count * unat sizeof \<le> unat n \<and> 2 ^ 21 dvd unat n) \<and> huge_page_deleter u M' = Some M"
proof -
  have b: "unat (count * sizeof) = unat count * unat sizeof" using assms(3) by (simp add: unat_word_ariths)
  obtain p b where p: "u = (p, count * sizeof)" "M' = M(p \<mapsto> aligned_size (count * sizeof))" "mmap M b (aligned_size (count * sizeof)) = Some p"
    using assms(2) unfolding allocate_huge_pages_unique_def allocate_huge_pages_def Let_def by (auto split: option.splits)
  have "M p = None" using p(3) assms(1) unfolding mmap_fresh_def by blast
  then have "huge_page_deleter u M' = Some M" using p by (simp add: huge_page_deleter_def free_huge_pages_def munmap_def fun_upd_idem)
  moreover have "unat (aligned_size (count * sizeof)) = round_up (unat count * unat sizeof) (2 ^ 21)"
    using unat_aligned_size [of "count * sizeof"] assms(3) b by simp
  ultimately show ?thesis using p round_up_ge [of "2 ^ 21" "unat count * unat sizeof"] round_up_dvd [of "2 ^ 21"] by (metis fst_conv fun_upd_same zero_less_numeral zero_less_power)
qed

theorem huge_pages_unique_witness:
  "(\<exists>n. [4096 \<mapsto> aligned_size 4000] 4096 = Some n \<and> 4000 \<le> unat n) \<and> huge_page_deleter (4096, 4000) [4096 \<mapsto> aligned_size 4000] = Some Map.empty"
proof -
  let ?mmap = "\<lambda>M b n. if \<not> b \<and> M 4096 = None then Some 4096 else None"
  have "mmap_fresh ?mmap" by (simp add: mmap_fresh_def)
  moreover have "allocate_huge_pages_unique ?mmap 4 1000 Map.empty = Some ((4096, 4000), [4096 \<mapsto> aligned_size 4000])"
    by (simp add: allocate_huge_pages_unique_def allocate_huge_pages_def)
  ultimately show ?thesis using huge_pages_unique [of ?mmap 4 1000 Map.empty "(4096, 4000)" "[4096 \<mapsto> aligned_size 4000]"] by auto
qed

text \<open>The product \<^verbatim>\<open>count * sizeof(T)\<close> is not checked: a request for \<open>2\<^sup>6\<^sup>1 + 1\<close> numbers of 8 bytes asks for 8 bytes.\<close>

lemma huge_pages_overflow:
  "allocate_huge_pages_unique mmap 8 2305843009213693953 M = allocate_huge_pages_unique mmap 8 1 M"
proof -
  have "(2305843009213693953 :: size_t) * 8 = 1 * 8" by simp
  then show ?thesis unfolding allocate_huge_pages_unique_def by presburger
qed

section \<open>Processors\<close>

record CpuCore =
  cpu_id :: int
  physical_id :: int
  numa_node :: int
  is_p_core :: bool

text \<open>The parameter is \<^verbatim>\<open>std::thread::hardware_concurrency()\<close>.\<close>

definition cpu_topology_detect :: "nat \<Rightarrow> CpuCore list" where
  "cpu_topology_detect n = map (\<lambda>i. \<lparr> cpu_id = int i, physical_id = int i, numa_node = 0, is_p_core = True \<rparr>) [0..<n]"

definition CPU_SETSIZE :: int where "CPU_SETSIZE = 1024"

text \<open>The affinity mask passed to \<^verbatim>\<open>pthread_setaffinity_np\<close>, whose success the parameter \<open>accepts\<close> decides; \<open>None\<close> is \<^verbatim>\<open>std::abort\<close>.\<close>

definition pin_thread_to_cpu :: "(int set \<Rightarrow> bool) \<Rightarrow> int \<Rightarrow> int set option" where
  "pin_thread_to_cpu accepts cpu =
     (if cpu < 0 then None
      else if cpu \<ge> CPU_SETSIZE then None
      else if accepts {cpu} then Some {cpu} else None)"

lemma detected_cores_pinnable:
  assumes "n \<le> 1024" "c \<in> set (cpu_topology_detect n)" "accepts {cpu_id c}"
  shows "pin_thread_to_cpu accepts (cpu_id c) = Some {cpu_id c}"
  using assms by (auto simp: cpu_topology_detect_def pin_thread_to_cpu_def CPU_SETSIZE_def)

section \<open>Back-off\<close>

datatype pause_kind = Spin | Yield | Sleep

definition backoff_pause :: "u32 \<Rightarrow> pause_kind \<times> u32" where
  "backoff_pause cnt = ((if cnt < 10 then Spin else if cnt < 20 then Yield else Sleep), cnt + 1)"

definition backoff_reset :: "u32 \<Rightarrow> u32" where
  "backoff_reset cnt = 0"

fun backoff_run :: "nat \<Rightarrow> u32 \<Rightarrow> pause_kind list" where
  "backoff_run 0 cnt = []"
| "backoff_run (Suc n) cnt = (let (k, cnt') = backoff_pause cnt in k # backoff_run n cnt')"

text \<open>A thread that waits long enough sleeps: after twenty pauses, until the counter wraps.\<close>

lemma backoff_run_nth:
  assumes "i < n" "unat cnt + n \<le> 2 ^ 32"
  shows "backoff_run n cnt ! i = (if unat cnt + i < 10 then Spin else if unat cnt + i < 20 then Yield else Sleep)"
  using assms
proof (induction n arbitrary: i cnt)
  case (Suc n)
  show ?case
  proof (cases i)
    case 0
    then show ?thesis by (simp add: backoff_pause_def word_less_nat_alt)
  next
    case (Suc j)
    have "unat (cnt + 1) = unat cnt + 1" if "0 < n" using Suc.prems that by (simp add: unat_plus_if')
    then show ?thesis using Suc Suc.IH [of j "cnt + 1"] Suc.prems by (cases n) (simp_all add: backoff_pause_def)
  qed
qed simp

section \<open>Logging\<close>

text \<open>
  The logger is set up by the first message, with the level that the environment variable \<^verbatim>\<open>DEBUG\<close> gives then; when the set-up throws, the library's
  default level, info, stays. The macros pass on what is at least as severe as the level.
\<close>

datatype log_level = Debug | Info | Error

record logger =
  log_init :: bool
  log_min :: log_level
  logged :: "(log_level \<times> string) list"

definition logger_new :: logger where
  "logger_new = \<lparr> log_init = False, log_min = Info, logged = [] \<rparr>"

definition debug_enabled :: "string option \<Rightarrow> bool" where
  "debug_enabled env = (case env of None \<Rightarrow> False | Some val \<Rightarrow> val = ''1'' \<or> val = ''true'' \<or> val = ''TRUE'')"

definition ensure_spdlog_init :: "string option \<Rightarrow> bool \<Rightarrow> logger \<Rightarrow> logger" where
  "ensure_spdlog_init env throws l =
     (if log_init l then l
      else l\<lparr> log_init := True, log_min := (if throws then log_min l else if debug_enabled env then Debug else Info) \<rparr>)"

fun severity :: "log_level \<Rightarrow> nat" where
  "severity Debug = 1" | "severity Info = 2" | "severity Error = 4"

definition jelly_log :: "string option \<Rightarrow> bool \<Rightarrow> log_level \<Rightarrow> string \<Rightarrow> logger \<Rightarrow> logger" where
  "jelly_log env throws lvl msg l0 =
     (let l = ensure_spdlog_init env throws l0 in
      if severity (log_min l) \<le> severity lvl then l\<lparr> logged := logged l @ [(lvl, msg)] \<rparr> else l)"

text \<open>
  The environment counts at the first message only: whatever it is later, the log holds the errors and information of the program, and its
  debug messages exactly if the variable asked for them then.
\<close>

lemma log_decided_once:
  "log_init l \<Longrightarrow> logged (fold (\<lambda>(env, lvl, msg). jelly_log env throws lvl msg) ms l) =
     logged l @ filter (\<lambda>(lvl, msg). severity (log_min l) \<le> severity lvl) (map snd ms)"
proof (induction ms arbitrary: l)
  case (Cons m ms)
  obtain env lvl msg where m: "m = (env, lvl, msg)" by (cases m)
  let ?l = "jelly_log env throws lvl msg l"
  have "log_init ?l" "log_min ?l = log_min l" "logged ?l = logged l @ (if severity (log_min l) \<le> severity lvl then [(lvl, msg)] else [])"
    using Cons.prems by (simp_all add: jelly_log_def ensure_spdlog_init_def Let_def)
  then show ?case using Cons.IH [of ?l] m by simp
qed simp

lemma log_first_message:
  "logged (fold (\<lambda>(env, lvl, msg). jelly_log env False lvl msg) ((env, lvl, msg) # ms) logger_new) =
     filter (\<lambda>(lvl, msg). lvl = Debug \<longrightarrow> debug_enabled env) (map snd ((env, lvl, msg) # ms))"
proof -
  let ?l = "jelly_log env False lvl msg logger_new"
  have i: "log_init ?l" "log_min ?l = (if debug_enabled env then Debug else Info)"
    by (simp_all add: jelly_log_def ensure_spdlog_init_def logger_new_def Let_def)
  have sev: "severity (if debug_enabled env then Debug else Info) \<le> severity x \<longleftrightarrow> (x = Debug \<longrightarrow> debug_enabled env)" for x
    by (cases x) simp_all
  have "logged ?l = (if lvl = Debug \<longrightarrow> debug_enabled env then [(lvl, msg)] else [])"
    using sev [of lvl] by (simp add: jelly_log_def ensure_spdlog_init_def logger_new_def Let_def)
  then show ?thesis using log_decided_once [OF i(1), of False ms] by (simp add: i(2) sev)
qed

end
