(* ===== verification/Spec2Isabelle.thy ===== *)
theory Spec2Isabelle
  imports Codec Spsc_Weak Mpmc_Refines Mpmc_Weak Seqlock_Weak Slab Arena Server Work_Stealing Actor Fiber Uring End_To_End Dispatch Accounting Platform
begin

text \<open>
  Jellybean is an inference server in C++20. A main thread runs a reactor (\<^verbatim>\<open>reactor/\<close>) that resumes coroutines: an
  accept loop and one session per client (\<^verbatim>\<open>server/main.cpp\<close>, \<^verbatim>\<open>net/\<close>). A session reads a request, hands it
  to the runtime (\<^verbatim>\<open>inference/runtime.*\<close>), awaits a future and writes the response. The runtime routes by model name
  to an executor per model (\<^verbatim>\<open>model/model_executor.*\<close>), whose worker threads batch requests from a bounded queue
  (\<^verbatim>\<open>concurrency/mpmc_queue.hpp\<close>) and call a backend (\<^verbatim>\<open>inference/torch_backend.*\<close>). Models come from a repository of
  directories (\<^verbatim>\<open>model/\<close>). Beside these stand a frame codec (\<^verbatim>\<open>proto/\<close>), queues and a seqlock
  (\<^verbatim>\<open>concurrency/\<close>), allocators (\<^verbatim>\<open>memory/\<close>), a work-stealing deque and coroutine tasks (\<^verbatim>\<open>scheduler/\<close>), actors
  (\<^verbatim>\<open>actor/\<close>) and telemetry (\<^verbatim>\<open>telemetry/\<close>). Paths are relative to \<^verbatim>\<open>src/include/jellybean/\<close> and \<^verbatim>\<open>src/src/\<close>.

  \<^bold>\<open>Conventions.\<close> Machine integers are words at their width; structs are records and enums datatypes with the source's
  names. Pure and single-threaded code is functions with explicit state. \<open>None\<close> in a result stands for undefined behaviour, an
  abort or a retry loop that does not return, as each theory says, and what the code promises is
  proved as the existence of a \<open>Some\<close>. Concurrent code is a step relation with one rule per atomic
  access or critical section; \<open>reach\<close> and the locale \<open>inductive_invariant\<close> (\<open>Prelude\<close>) turn an invariant into a property of all
  interleavings, and \<open>stuttering_simulation\<close> carries it to an abstract step relation. Interleavings are sequentially consistent, except in \<open>Spsc_Weak\<close>, \<open>Mpmc_Weak\<close> and \<open>Seqlock_Weak\<close>. Fields that the code does not have
  (histories of pushed, popped, posted or resumed items) are named as histories where they are declared.

  \<^bold>\<open>Shared theories.\<close> \<open>Prelude\<close>: word lemmas, powers of two, alignment, byte encoding, reachability. \<open>Bounded_Queue\<close>: the
  contract of a bounded FIFO queue as a locale, with the drain loop and the answers to any sequence of
  calls proved in it once; the list itself and both ring buffers interpret it. \<open>Registry\<close>: lookup tables with assign, insert and erase as
  locales; the backend, model and actor tables interpret them. \<open>Ownership\<close>: every resource has one holder.
  \<open>Ticket_Queue\<close>: the contract of a bounded queue under concurrent calls, a step relation in which an element is first claimed and
  later published, takes happen in order, and a full or empty answer is allowed only under a stated condition. \<open>Mpmc_Refines\<close> proves the MPMC
  queue against it; the queues inside \<open>Executor\<close> and \<open>Reactor\<close> are modelled by it, and the reactor's runs are proved to be runs of it.
  \<open>Text\<close>: decimal numbers, trimming and streams of lines.

  \<^bold>\<open>proto.\<close> \<open>Wire\<close> (\<^verbatim>\<open>wire.hpp\<close>, \<^verbatim>\<open>frame.hpp\<close>), \<open>Crc\<close> and \<open>Codec\<close> (\<^verbatim>\<open>codec.cpp\<close>): round trip of encoding and parsing, the parser's
  result on every buffer, the encoder's failures, detection of bursts of up to four damaged bytes,
  and agreement of the two builds of the checksum with bit-serial CRC-32C. The SSE intrinsics are parameters
  with the instruction's documented effect as a locale assumption.

  \<^bold>\<open>concurrency.\<close> \<open>Spsc\<close>, \<open>Mpmc\<close>, \<open>Mpmc_Threads\<close> and \<open>Mpmc_Refines\<close>, \<open>Seqlock\<close>: refinement of a bounded list under sequential calls and of the
  ticket contract under concurrent ones, exactly-once and order under any interleaving, draining destructors, consistent snapshots. \<open>Release_Acquire\<close> is a
  memory with relaxed, acquire and release operations, stale loads and vector clocks that expose data races; \<open>Spsc_Weak\<close> and \<open>Mpmc_Weak\<close> run the two queues on it and show that
  their memory orders are enough. \<open>Fences\<close> is a memory with views and fences, on which \<open>Seqlock_Weak\<close> shows the same of the seqlock.

  \<^bold>\<open>memory.\<close> \<open>Slab\<close>, \<open>Arena\<close>: returned memory is aligned, live and disjoint, and is given back; \<^verbatim>\<open>reset\<close> followed by
  growth leaks. Addresses from the system allocator are parameters with freshness as hypothesis. \<open>Platform\<close> has huge pages
  (\<^verbatim>\<open>mmap\<close> is a parameter), processor pinning, back-off and the log level.

  \<^bold>\<open>model.\<close> \<open>Model_Config\<close> (the text format, versions, model files; the file system is a parameter), \<open>Model_Repository\<close>
  (registry, \<^verbatim>\<open>load_model\<close>, \<^verbatim>\<open>scan_and_load\<close>), \<open>Executor\<close>: round trip of the format, what a load leaves in the registry,
  every promise answered once or held in one place, \<^verbatim>\<open>stop()\<close> returns, and two ways in which a promise is never answered.
  \<open>Accounting\<close>: the counters and the histogram of an executor agree with its answers.

  \<^bold>\<open>inference.\<close> \<open>Torch_Backend\<close> over a record of the LibTorch operations it calls: batched and single inference agree for
  models that work row by row, buffers are respected, and exceptions of the library become error texts. \<open>Runtime\<close> (\<^verbatim>\<open>runtime.cpp\<close> and the metrics endpoint): refinement of a map from names
  to ready models. \<open>Metrics\<close>: percentiles of the histogram.

  \<^bold>\<open>server.\<close> \<open>Session\<close>: the transfer loops and the session coroutine over arbitrary results of \<^verbatim>\<open>recv\<close> and \<^verbatim>\<open>send\<close>: a
  well-formed conversation is served in any segmentation; sizes are bounded; short reads and short
  inputs are mishandled. \<open>Sockets\<close>: socket options, ownership of descriptors, registration with epoll and the
  dispatch of its events, with the kernel's calls as parameters: a waiting coroutine is resumed once and for its own event. \<open>Server\<close>: both configuration readers, start-up, the listening address
  and the accept loop; what a started server serves. The session loop is bounded by the number of times \<^verbatim>\<open>g_running\<close> is found true, and the theorems hold for every number.

  \<^bold>\<open>Composition.\<close> \<open>Serving\<close> is the product of an executor and the continuation pool: the futures the pool waits for are the executor's promises, sessions run on
  the main thread, and the end of \<^verbatim>\<open>main\<close> destroys reactor, runtime and pool in this order. A resumed session holds an answer to its own request; the exit can
  terminate the process or call into the destroyed reactor. \<open>End_To_End\<close> adds the Torch backend behind the executor and the session in front: no answer makes a session read beyond its buffer.
  \<open>Dispatch\<close> is the product of event loop, sockets and pool: where every coroutine is, and that it is resumed once, by the party it waits for.

  \<^bold>\<open>scheduler and reactor.\<close> \<open>Work_Stealing\<close>: owner and stealers take every element at most once and lose none. \<open>Fiber\<close>: frames and
  their tasks. \<open>Reactor\<close>: the event loop with \<open>Timer_Wheel\<close> inside, scheduling from other threads and the signal
  handler. \<open>Continuation\<close>: futures awaited through the thread pool. \<open>Uring\<close>: the io\_uring backend, with \<^verbatim>\<open>liburing\<close> as parameters.

  \<^bold>\<open>actor.\<close> \<open>Actor\<close>: messages with inline or heap payload are memory safe; mailbox and registry.

  \<^bold>\<open>Loops.\<close> Structural or measured recursion where the loop ends; \<open>partial_function (option)\<close> for retry and drain
  loops, with a lemma that they return under the component's invariant. No other fuel is used.

  \<^bold>\<open>Not modelled.\<close> Weak memory outside the queues and the seqlock (atomics are taken as sequentially consistent there); LibTorch, the file system, liburing, spdlog
  and the kernel (parameters); macros and type aliases, tests, benchmarks and scripts. \<open>Serving\<close> composes one executor with the pool; several executors
  interact only through the pool's threads, as the properties of \<open>Continuation\<close> show. What a
  coroutine computes between suspensions is arbitrary in \<open>Reactor\<close> and \<open>Dispatch\<close> and given by \<open>Session\<close> for sessions.
\<close>

end
